(* ===== verification/Gnmi_Prelude.thy ===== *)
theory Gnmi_Prelude
  imports Main "HOL-Library.Word" "HOL-Library.Sublist"
begin

text \<open>
  What every component of the development shares: the ways a C++ operation of the library can
  leave its normal path (\<open>fault\<close>), the operations of \<^verbatim>\<open>std::string\<close> the sources use, written
  over \<open>string\<close> (a list of bytes), sequencing of fallible computations, and the generic lemmas
  on lists, strings and maps that the component proofs rely on.
\<close>

named_theorems string_simps \<open>computation rules for the modelled operations of std::string\<close>
named_theorems result_simps \<open>computation rules for fallible computations\<close>

section \<open>Faults and fallible computations\<close>

text \<open>
  An exception of the source is a value. \<open>Undefined_behaviour\<close> marks the places where the C++
  standard gives the program no meaning (a null pointer is dereferenced, a function that has to
  return a value falls off its end).
\<close>

datatype fault =
    Invalid_argument string
  | Out_of_range string
  | Json_exception string
  | Std_exception string
  | Bad_function_call
  | Undefined_behaviour string

type_synonym 'a result = "fault + 'a"

fun bind_result :: "'a result \<Rightarrow> ('a \<Rightarrow> 'b result) \<Rightarrow> 'b result" where
  "bind_result (Inl e) f = Inl e"
| "bind_result (Inr a) f = f a"

fun traverse :: "('a \<Rightarrow> 'b result) \<Rightarrow> 'a list \<Rightarrow> 'b list result" where
  "traverse f [] = Inr []"
| "traverse f (x # xs) =
     bind_result (f x) (\<lambda>y. bind_result (traverse f xs) (\<lambda>ys. Inr (y # ys)))"

lemma bind_result_Inr_iff [result_simps]:
  "bind_result r f = Inr b \<longleftrightarrow> (\<exists>a. r = Inr a \<and> f a = Inr b)"
  by (cases r) auto

lemma bind_result_Inl_iff [result_simps]:
  "bind_result r f = Inl e \<longleftrightarrow> r = Inl e \<or> (\<exists>a. r = Inr a \<and> f a = Inl e)"
  by (cases r) auto

lemma bind_result_assoc [result_simps]:
  "bind_result (bind_result r f) g = bind_result r (\<lambda>a. bind_result (f a) g)"
  by (cases r) auto

lemma bind_result_return [simp]: "bind_result r Inr = r"
  by (cases r) auto

lemma traverse_Inr_iff: "traverse f xs = Inr ys \<longleftrightarrow> list_all2 (\<lambda>x y. f x = Inr y) xs ys"
  by (induction xs arbitrary: ys) (auto simp: result_simps list_all2_Cons1)

lemma traverse_map_Inr: "(\<And>x. x \<in> set xs \<Longrightarrow> f (g x) = Inr x) \<Longrightarrow> traverse f (map g xs) = Inr xs"
  by (induction xs) auto

lemma traverse_Inl_first:
  "(\<And>x. x \<in> set xs \<Longrightarrow> \<exists>y. f x = Inr y) \<Longrightarrow> f z = Inl e \<Longrightarrow> traverse f (xs @ z # zs) = Inl e"
  by (induction xs) (auto simp: result_simps)

lemma list_all2_in_right: "list_all2 P xs ys \<Longrightarrow> y \<in> set ys \<Longrightarrow> \<exists>x \<in> set xs. P x y"
  by (induction rule: list_all2_induct) auto

section \<open>Operations of std::string\<close>

text \<open>
  \<open>find_from c s pos\<close> is \<^verbatim>\<open>s.find(c, pos)\<close>, with \<^verbatim>\<open>npos\<close> as \<open>None\<close>; \<open>find_char c s\<close> is
  \<^verbatim>\<open>s.find(c)\<close>; \<open>contains_sub n s\<close> is \<^verbatim>\<open>s.find(n) != npos\<close> for a string \<open>n\<close>;
  \<open>substr s pos n\<close> is \<^verbatim>\<open>s.substr(pos, n)\<close> at a position that is at most the size (it throws
  beyond it, which no call of the sources reaches). Sizes are 64-bit: \<open>usize_sub\<close> is the
  wrapping subtraction of \<^verbatim>\<open>std::string::size_type\<close>.
\<close>

definition find_from :: "char \<Rightarrow> string \<Rightarrow> nat \<Rightarrow> nat option" where
  "find_from c s pos =
     (let i = pos + length (takeWhile (\<lambda>x. x \<noteq> c) (drop pos s))
      in if i < length s then Some i else None)"

abbreviation find_char :: "char \<Rightarrow> string \<Rightarrow> nat option" where
  "find_char c s \<equiv> find_from c s 0"

fun contains_sub :: "string \<Rightarrow> string \<Rightarrow> bool" where
  "contains_sub n [] \<longleftrightarrow> n = []"
| "contains_sub n (x # xs) \<longleftrightarrow> prefix n (x # xs) \<or> contains_sub n xs"

definition substr :: "string \<Rightarrow> nat \<Rightarrow> nat \<Rightarrow> string" where
  "substr s pos n = take n (drop pos s)"

definition usize_sub :: "nat \<Rightarrow> nat \<Rightarrow> nat" where
  "usize_sub a b = nat ((int a - int b) mod 2 ^ 64)"

lemma usize_sub_ge: "b \<le> a \<Longrightarrow> a < 2 ^ 64 \<Longrightarrow> usize_sub a b = a - b"
proof -
  assume "b \<le> a" "a < 2 ^ 64"
  then have "(int a - int b) mod 2 ^ 64 = int a - int b"
    by (intro mod_pos_pos_trivial) auto
  then show ?thesis
    by (simp add: usize_sub_def)
qed

lemma usize_sub_wraps: "a < b \<Longrightarrow> b < 2 ^ 64 \<Longrightarrow> usize_sub a b = 2 ^ 64 - (b - a)"
proof -
  assume "a < b" "b < 2 ^ 64"
  then have "(int a - int b) mod 2 ^ 64 = (int a - int b + 2 ^ 64) mod 2 ^ 64"
    by simp
  also have "\<dots> = int a - int b + 2 ^ 64"
    using \<open>a < b\<close> \<open>b < 2 ^ 64\<close> by (intro mod_pos_pos_trivial) auto
  finally show ?thesis
    using \<open>a < b\<close> \<open>b < 2 ^ 64\<close> by (simp add: usize_sub_def)
qed

lemma contains_sub_iff_sublist: "contains_sub n s \<longleftrightarrow> sublist n s"
  by (induction s) (auto simp: sublist_Cons_right)

lemma takeWhile_neq_all: "c \<notin> set xs \<Longrightarrow> takeWhile (\<lambda>x. x \<noteq> c) xs = xs"
  by (induction xs) auto

lemma dropWhile_neq_all: "c \<notin> set xs \<Longrightarrow> dropWhile (\<lambda>x. x \<noteq> c) xs = []"
  by (induction xs) auto

lemma takeWhile_neq_append:
  "c \<notin> set xs \<Longrightarrow> takeWhile (\<lambda>x. x \<noteq> c) (xs @ ys) = xs @ takeWhile (\<lambda>x. x \<noteq> c) ys"
  by (induction xs) auto

lemma dropWhile_neq_append:
  "c \<notin> set xs \<Longrightarrow> dropWhile (\<lambda>x. x \<noteq> c) (xs @ ys) = dropWhile (\<lambda>x. x \<noteq> c) ys"
  by (induction xs) auto

lemma find_char_append [string_simps]: "c \<notin> set xs \<Longrightarrow> find_char c (xs @ c # ys) = Some (length xs)"
  by (simp add: find_from_def takeWhile_neq_append)

lemma find_char_Cons_same [string_simps]: "find_char c (c # ys) = Some 0"
  by (simp add: find_from_def)

lemma find_char_None_iff [string_simps]: "find_char c s = None \<longleftrightarrow> c \<notin> set s"
proof
  assume none: "find_char c s = None"
  show "c \<notin> set s"
  proof
    assume "c \<in> set s"
    then obtain xs ys where "s = xs @ c # ys" "c \<notin> set xs"
      by (meson split_list_first)
    with none show False by (simp add: find_char_append)
  qed
next
  show "c \<notin> set s \<Longrightarrow> find_char c s = None"
    by (simp add: find_from_def takeWhile_neq_all)
qed

lemma find_char_None [string_simps]: "c \<notin> set s \<Longrightarrow> find_char c s = None"
  by (simp add: find_char_None_iff)

lemma find_char_mem: "c \<in> set s \<Longrightarrow> \<exists>i. find_char c s = Some i"
  using find_char_None_iff [of c s] by auto

lemma find_char_SomeD:
  assumes "find_char c s = Some i"
  shows "i < length s \<and> s ! i = c \<and> c \<notin> set (take i s) \<and> s = take i s @ c # drop (Suc i) s"
proof -
  have "c \<in> set s"
    using assms find_char_None_iff [of c s] by auto
  then obtain xs ys where s: "s = xs @ c # ys" "c \<notin> set xs"
    by (meson split_list_first)
  with assms have "i = length xs" by (simp add: string_simps)
  with s show ?thesis by simp
qed

lemma find_from_eq_find_char:
  "find_from c s pos = map_option (\<lambda>i. pos + i) (find_char c (drop pos s))"
  by (auto simp: find_from_def Let_def)

end
