(* ===== verification/Gnmi_Messages.thy ===== *)
theory Gnmi_Messages
  imports Gnmi_Prelude
begin

text \<open>
  The messages of \<^verbatim>\<open>mgbl_api/third_party/gnmi/protos/gnmi.proto\<close> that the library reads or
  builds, with the fields it touches, and the configuration structures and error codes of
  \<^verbatim>\<open>rpc/mgbl_rpc.h\<close> and \<^verbatim>\<open>gnmi/mgbl_gnmi_helper.h\<close>. A singular message field is an option
  (\<^verbatim>\<open>has_x\<close> is \<open>\<noteq> None\<close>, \<^verbatim>\<open>x()\<close> reads the default message when it is unset), a repeated
  field is a list, a \<^verbatim>\<open>oneof\<close> is a datatype with one constructor per alternative and one for
  the unset case. The map field of a path element is an association list in the order in which
  the container is iterated (protobuf does not fix that order).
\<close>

section \<open>Paths and values\<close>

record path_elem =
  elem_name :: string
  elem_key :: "(string \<times> string) list"

record gnmi_path =
  path_origin_of :: string
  path_elems :: "path_elem list"

definition default_path :: gnmi_path where
  "default_path = \<lparr>path_origin_of = '''', path_elems = []\<rparr>"

text \<open>A \<^verbatim>\<open>double\<close> is its IEEE 754 bit pattern.\<close>

datatype typed_value =
    StringVal string
  | IntVal "64 word"
  | UintVal "64 word"
  | BoolVal bool
  | BytesVal string
  | FloatVal "32 word"
  | DoubleVal "64 word"
  | DecimalVal "64 word" "32 word"
  | LeaflistVal "typed_value list"
  | AnyVal string string
  | JsonVal string
  | JsonIetfVal string
  | AsciiVal string
  | ProtoBytes string
  | ValueNotSet

record gnmi_update =
  update_path :: "gnmi_path option"
  update_val :: "typed_value option"

record notification =
  notif_prefix :: "gnmi_path option"
  notif_update :: "gnmi_update list"

datatype subscribe_response =
    ResponseUpdate notification
  | ResponseSync bool
  | ResponseError
  | ResponseNotSet

section \<open>Requests\<close>

datatype encoding = JSON | BYTES | PROTO | ASCII | JSON_IETF

fun encoding_value :: "encoding \<Rightarrow> nat" where
  "encoding_value JSON = 0"
| "encoding_value BYTES = 1"
| "encoding_value PROTO = 2"
| "encoding_value ASCII = 3"
| "encoding_value JSON_IETF = 4"

datatype subscription_mode = TARGET_DEFINED | ON_CHANGE | SAMPLE

datatype list_mode = ListStream | ListOnce | ListPoll

record subscription =
  sub_path :: "gnmi_path option"
  sub_mode :: subscription_mode
  sub_sample_interval :: "64 word"

record subscription_list =
  sl_prefix :: "gnmi_path option"
  sl_subscription :: "subscription list"
  sl_mode :: list_mode
  sl_encoding :: encoding

text \<open>\<open>None\<close> is a request whose \<^verbatim>\<open>oneof\<close> is unset; a fresh \<^verbatim>\<open>SubscriptionList\<close> has the proto3 defaults.\<close>

type_synonym subscribe_request = "subscription_list option"

definition default_subscription :: subscription where
  "default_subscription = \<lparr>sub_path = None, sub_mode = TARGET_DEFINED, sub_sample_interval = 0\<rparr>"

definition default_subscription_list :: subscription_list where
  "default_subscription_list =
     \<lparr>sl_prefix = None, sl_subscription = [], sl_mode = ListStream, sl_encoding = JSON\<rparr>"

definition mutable_subscribe :: "subscribe_request \<Rightarrow> subscription_list" where
  "mutable_subscribe r = (case r of None \<Rightarrow> default_subscription_list | Some sl \<Rightarrow> sl)"

section \<open>Configuration and error codes\<close>

datatype internal_error_code =
    SUCCESS
  | NO_NOTIFICATION
  | NO_PREFIX_IN_RESPONSE
  | NO_UPDATE_IN_NOTIFICATION
  | NO_POLICY_NAME_IN_RESPONSE
  | NO_RULE_NAME_IN_RESPONSE
  | UNSUPPORTED_ENCODING
  | UNKNOWN_ERROR

fun internal_error_value :: "internal_error_code \<Rightarrow> nat" where
  "internal_error_value SUCCESS = 0"
| "internal_error_value NO_NOTIFICATION = 1"
| "internal_error_value NO_PREFIX_IN_RESPONSE = 2"
| "internal_error_value NO_UPDATE_IN_NOTIFICATION = 3"
| "internal_error_value NO_POLICY_NAME_IN_RESPONSE = 4"
| "internal_error_value NO_RULE_NAME_IN_RESPONSE = 5"
| "internal_error_value UNSUPPORTED_ENCODING = 6"
| "internal_error_value UNKNOWN_ERROR = 7"

record rpc_stream_args =
  rsa_prefix :: string
  paths_of_interest :: "string list"

datatype error_code = RPC_SUCCESS | CLIENT_TYPE_FAILURE | WRITES_FAILED | RPC_FAILURE

datatype stream_mode = STREAM | ONCE

text \<open>\<^verbatim>\<open>static_cast<gnmi::SubscriptionList_Mode>(mode)\<close>: both enumerations number their members alike.\<close>

fun list_mode_of :: "stream_mode \<Rightarrow> list_mode" where
  "list_mode_of STREAM = ListStream"
| "list_mode_of ONCE = ListOnce"

record rpc_channel_args =
  server_address :: string
  ssl_tls :: bool
  pem_roots_certs_path :: string
  pem_private_key_path :: string
  pem_cert_chain_path :: string

text \<open>The deadline is a count of clock ticks.\<close>

record client_context_args =
  username :: string
  password :: string
  set_deadline :: bool
  deadline :: int

record rpc_args =
  sample_interval_nsec :: "64 word"
  args_encoding :: encoding
  args_mode :: stream_mode
  rpc_type :: "32 word"

definition default_rpc_args :: rpc_args where
  "default_rpc_args =
     \<lparr>sample_interval_nsec = 1000000000, args_encoding = PROTO, args_mode = STREAM, rpc_type = 0\<rparr>"

end
