(* ===== verification/Logger.thy ===== *)
theory Logger
  imports Gnmi_Prelude
begin

text \<open>
  The logger (\<^verbatim>\<open>mgbl_api/src/logger/logger.h\<close> and \<^verbatim>\<open>logger.cpp\<close>): the severities, their
  names, and the singleton \<^verbatim>\<open>logger_manager\<close>. The manager is shared by every thread of the
  process, so its two operations \<^verbatim>\<open>set_logger\<close> and \<^verbatim>\<open>log\<close> are a step relation, one step per
  access to the mutex or to the member \<^verbatim>\<open>logger_instance\<close>. Each access is carried out as a whole, so
  after a data race, which the last section characterises, the steps show only some of what the program
  may do; a logger that is released while it is in use is not represented. The other theories only collect the
  messages a function hands to the manager, as a list of \<open>log_entry\<close>.
\<close>

section \<open>Severities\<close>

datatype log_level = VERBOSE | DEBUG | INFO | WARNING | ERROR | CRITICAL

text \<open>The underlying integer of the scoped enumeration.\<close>

fun log_level_value :: "log_level \<Rightarrow> int" where
  "log_level_value VERBOSE = 0"
| "log_level_value DEBUG = 1"
| "log_level_value INFO = 2"
| "log_level_value WARNING = 3"
| "log_level_value ERROR = 4"
| "log_level_value CRITICAL = 5"

lemma log_level_value_inject [simp]: "log_level_value a = log_level_value b \<longleftrightarrow> a = b"
  by (cases a; cases b) simp_all

text \<open>The severities are ordered as the enumeration lists them.\<close>

instantiation log_level :: linorder
begin

definition less_eq_log_level :: "log_level \<Rightarrow> log_level \<Rightarrow> bool" where
  "less_eq_log_level a b \<longleftrightarrow> log_level_value a \<le> log_level_value b"

definition less_log_level :: "log_level \<Rightarrow> log_level \<Rightarrow> bool" where
  "less_log_level a b \<longleftrightarrow> log_level_value a < log_level_value b"

instance
  by standard (auto simp: less_eq_log_level_def less_log_level_def)

end

text \<open>
  An object of the enumeration may hold any value of its underlying type, so the switch is over
  the integer: a value that is no enumerator falls through to \<^verbatim>\<open>NOTDEFINED\<close>.
\<close>

definition log_level_to_string :: "int \<Rightarrow> string" where
  "log_level_to_string level =
     (if level = log_level_value VERBOSE then ''VERBOSE''
      else if level = log_level_value DEBUG then ''DEBUG''
      else if level = log_level_value INFO then ''INFO''
      else if level = log_level_value WARNING then ''WARNING''
      else if level = log_level_value ERROR then ''ERROR''
      else if level = log_level_value CRITICAL then ''CRITICAL''
      else ''NOTDEFINED'')"

type_synonym log_entry = "string \<times> log_level"

section \<open>The logger manager\<close>

text \<open>
  Threads and logger objects are numbered. A thread is outside the manager (\<open>Lm_idle\<close>), at one
  of the points of \<^verbatim>\<open>log\<close> or \<^verbatim>\<open>set_logger\<close>, or has dereferenced a null pointer. The argument
  \<open>temp\<close> of \<open>Log_check\<close> and \<open>Log_call\<close> is the local \<^verbatim>\<open>temp_logger\<close>, which \<^verbatim>\<open>log\<close> fills under
  the lock and never reads again.
\<close>

type_synonym logger_id = nat
type_synonym thread_id = nat

datatype lm_pc =
    Lm_idle
  | Log_lock log_entry
  | Log_copy log_entry
  | Log_check log_entry "logger_id option"
  | Log_call log_entry "logger_id option"
  | Set_lock "logger_id option"
  | Set_store "logger_id option"
  | Lm_crashed

record logger_manager =
  logger_instance :: "logger_id option"
  lm_mutex :: "thread_id option"
  lm_pcs :: "thread_id \<Rightarrow> lm_pc"
  delivered :: "(logger_id \<times> log_entry) list"

definition lm_initial :: logger_manager where
  "lm_initial = \<lparr>logger_instance = None, lm_mutex = None, lm_pcs = (\<lambda>_. Lm_idle), delivered = []\<rparr>"

definition lm_goto :: "thread_id \<Rightarrow> lm_pc \<Rightarrow> logger_manager \<Rightarrow> logger_manager" where
  "lm_goto t pc s = s\<lparr>lm_pcs := (lm_pcs s)(t := pc)\<rparr>"

inductive lm_step :: "logger_manager \<Rightarrow> logger_manager \<Rightarrow> bool" where
  log_enter: "lm_pcs s t = Lm_idle \<Longrightarrow> lm_step s (lm_goto t (Log_lock e) s)"
| log_acquire: "lm_pcs s t = Log_lock e \<Longrightarrow> lm_mutex s = None \<Longrightarrow>
    lm_step s (lm_goto t (Log_copy e) (s\<lparr>lm_mutex := Some t\<rparr>))"
| log_copy: "lm_pcs s t = Log_copy e \<Longrightarrow>
    lm_step s (lm_goto t (Log_check e (logger_instance s)) (s\<lparr>lm_mutex := None\<rparr>))"
| log_unset: "lm_pcs s t = Log_check e temp \<Longrightarrow> logger_instance s = None \<Longrightarrow>
    lm_step s (lm_goto t Lm_idle s)"
| log_set: "lm_pcs s t = Log_check e temp \<Longrightarrow> logger_instance s = Some l \<Longrightarrow>
    lm_step s (lm_goto t (Log_call e temp) s)"
| log_deliver: "lm_pcs s t = Log_call e temp \<Longrightarrow> logger_instance s = Some l \<Longrightarrow>
    lm_step s (lm_goto t Lm_idle (s\<lparr>delivered := delivered s @ [(l, e)]\<rparr>))"
| log_null: "lm_pcs s t = Log_call e temp \<Longrightarrow> logger_instance s = None \<Longrightarrow>
    lm_step s (lm_goto t Lm_crashed s)"
| set_enter: "lm_pcs s t = Lm_idle \<Longrightarrow> lm_step s (lm_goto t (Set_lock v) s)"
| set_acquire: "lm_pcs s t = Set_lock v \<Longrightarrow> lm_mutex s = None \<Longrightarrow>
    lm_step s (lm_goto t (Set_store v) (s\<lparr>lm_mutex := Some t\<rparr>))"
| set_store: "lm_pcs s t = Set_store v \<Longrightarrow>
    lm_step s (lm_goto t Lm_idle (s\<lparr>logger_instance := v, lm_mutex := None\<rparr>))"

inductive lm_reachable :: "logger_manager \<Rightarrow> bool" where
  lm_start: "lm_reachable lm_initial"
| lm_next: "lm_reachable s \<Longrightarrow> lm_step s s' \<Longrightarrow> lm_reachable s'"

text \<open>What one uninterrupted call of \<^verbatim>\<open>log\<close> delivers.\<close>

definition log_once :: "logger_id option \<Rightarrow> log_entry \<Rightarrow> (logger_id \<times> log_entry) list" where
  "log_once inst e = (case inst of None \<Rightarrow> [] | Some l \<Rightarrow> [(l, e)])"

inductive_cases lm_stepE: "lm_step s s'"

section \<open>The mutex of the manager\<close>

fun lm_holds :: "lm_pc \<Rightarrow> bool" where
  "lm_holds (Log_copy _) = True"
| "lm_holds (Set_store _) = True"
| "lm_holds _ = False"

definition lm_inv :: "logger_manager \<Rightarrow> bool" where
  "lm_inv s \<longleftrightarrow> (\<forall>t. lm_mutex s = Some t \<longleftrightarrow> lm_holds (lm_pcs s t))"

lemma lm_step_inv: "lm_step s s' \<Longrightarrow> lm_inv s \<Longrightarrow> lm_inv s'"
  by (induction rule: lm_step.induct)
    (simp_all add: lm_inv_def lm_goto_def; metis lm_holds.simps option.inject option.distinct(1))+

lemma lm_reachable_inv: "lm_reachable s \<Longrightarrow> lm_inv s"
proof (induction rule: lm_reachable.induct)
  case lm_start
  then show ?case by (simp add: lm_inv_def lm_initial_def)
qed (rule lm_step_inv)

text \<open>
  The mutex of the manager is exclusive: its holder is exactly the thread that is copying the
  pointer in \<open>log\<close> or storing it in \<open>set_logger\<close>, so at most one thread is.
\<close>

lemma logger_mutex_exclusive:
  assumes "lm_reachable s"
  shows "(lm_mutex s = Some t \<longleftrightarrow> lm_holds (lm_pcs s t)) \<and>
    (lm_holds (lm_pcs s t) \<and> lm_holds (lm_pcs s t') \<longrightarrow> t = t')"
  using lm_reachable_inv [OF assms] unfolding lm_inv_def by (metis option.inject)

section \<open>One call on its own\<close>

lemma lm_goto_simps [simp]:
  "lm_pcs (lm_goto t pc s) t' = (if t' = t then pc else lm_pcs s t')"
  "logger_instance (lm_goto t pc s) = logger_instance s"
  "lm_mutex (lm_goto t pc s) = lm_mutex s"
  "delivered (lm_goto t pc s) = delivered s"
  by (simp_all add: lm_goto_def)

lemma lm_state_eqI:
  assumes "logger_instance s = logger_instance s'" "lm_mutex s = lm_mutex s'"
    "\<And>t. lm_pcs s t = lm_pcs s' t" "delivered s = delivered s'"
  shows "s = (s' :: logger_manager)"
  using assms by (auto intro!: logger_manager.equality)

lemma log_call_locked:
  assumes "lm_pcs s t = Lm_idle" "lm_mutex s = None"
  shows "lm_step\<^sup>*\<^sup>* s (lm_goto t (Log_check e (logger_instance s)) s)"
proof -
  define s1 where "s1 = lm_goto t (Log_lock e) s"
  define s2 where "s2 = lm_goto t (Log_copy e) (s1\<lparr>lm_mutex := Some t\<rparr>)"
  define s3 where "s3 = lm_goto t (Log_check e (logger_instance s2)) (s2\<lparr>lm_mutex := None\<rparr>)"
  have "lm_step s s1" "lm_step s1 s2" "lm_step s2 s3"
    using assms log_enter [of s t e] log_acquire [of s1 t e] log_copy [of s2 t e]
    by (simp_all add: s1_def s2_def s3_def)
  moreover have "s3 = lm_goto t (Log_check e (logger_instance s)) s"
    using assms by (intro lm_state_eqI) (simp_all add: s1_def s2_def s3_def)
  ultimately show ?thesis by (metis rtranclp.simps)
qed

text \<open>
  A call of \<open>log\<close> that no other thread interrupts delivers its message exactly once to the
  logger that is set, or to none when none is, and leaves the manager otherwise as it was.
\<close>

lemma log_delivers_once:
  assumes "lm_pcs s t = Lm_idle" "lm_mutex s = None"
  shows "lm_step\<^sup>*\<^sup>* s (s\<lparr>delivered := delivered s @ log_once (logger_instance s) e\<rparr>)"
proof (cases "logger_instance s")
  case None
  have "lm_step (lm_goto t (Log_check e None) s) (lm_goto t Lm_idle (lm_goto t (Log_check e None) s))"
    using None by (intro log_unset) simp_all
  moreover have "lm_goto t Lm_idle (lm_goto t (Log_check e None) s) = s"
    using assms by (intro lm_state_eqI) simp_all
  ultimately show ?thesis
    using log_call_locked [OF assms, of e] None by (simp add: log_once_def)
next
  case (Some l)
  define s1 where "s1 = lm_goto t (Log_check e (Some l)) s"
  define s2 where "s2 = lm_goto t (Log_call e (Some l)) s1"
  define s3 where "s3 = lm_goto t Lm_idle (s2\<lparr>delivered := delivered s2 @ [(l, e)]\<rparr>)"
  have "lm_step s1 s2" "lm_step s2 s3"
    using Some log_set [of s1 t e "Some l" l] log_deliver [of s2 t e "Some l" l]
    by (simp_all add: s1_def s2_def s3_def)
  moreover have "s3 = s\<lparr>delivered := delivered s @ log_once (logger_instance s) e\<rparr>"
    using assms Some by (intro lm_state_eqI) (simp_all add: s1_def s2_def s3_def log_once_def)
  moreover have "lm_step\<^sup>*\<^sup>* s s1"
    using log_call_locked [OF assms, of e] Some by (simp add: s1_def)
  ultimately show ?thesis by (metis rtranclp.rtrancl_into_rtrancl)
qed

lemma log_delivers_once_example:
  "lm_step\<^sup>*\<^sup>* (lm_initial\<lparr>logger_instance := Some 7\<rparr>)
     (lm_initial\<lparr>logger_instance := Some 7, delivered := [(7, (''hello'', INFO))]\<rparr>)"
  using log_delivers_once [of "lm_initial\<lparr>logger_instance := Some 7\<rparr>" 0 "(''hello'', INFO)"]
  by (simp add: lm_initial_def log_once_def)

section \<open>The unlocked reads\<close>

lemma set_logger_call:
  assumes "lm_pcs s t = Lm_idle" "lm_mutex s = None"
  shows "lm_step\<^sup>*\<^sup>* s (s\<lparr>logger_instance := v\<rparr>)"
proof -
  define s1 where "s1 = lm_goto t (Set_lock v) s"
  define s2 where "s2 = lm_goto t (Set_store v) (s1\<lparr>lm_mutex := Some t\<rparr>)"
  define s3 where "s3 = lm_goto t Lm_idle (s2\<lparr>logger_instance := v, lm_mutex := None\<rparr>)"
  have "lm_step s s1" "lm_step s1 s2" "lm_step s2 s3"
    using assms set_enter [of s t v] set_acquire [of s1 t v] set_store [of s2 t v]
    by (simp_all add: s1_def s2_def s3_def)
  moreover have "s3 = s\<lparr>logger_instance := v\<rparr>"
    using assms by (intro lm_state_eqI) (simp_all add: s1_def s2_def s3_def)
  ultimately show ?thesis by (metis rtranclp.simps)
qed

lemma lm_reachable_steps: "lm_step\<^sup>*\<^sup>* s s' \<Longrightarrow> lm_reachable s \<Longrightarrow> lm_reachable s'"
  by (induction rule: rtranclp_induct) (auto intro: lm_next)

text \<open>
  C28: \<open>log\<close> can dereference a null pointer. It copies the shared pointer under the lock and then
  tests and calls the member itself without it: whenever a thread is between that test and the call
  and another one is idle, a complete call of \<open>set_logger\<close> with a null pointer by the other one can
  come first, and the thread then dereferences null although its copy is not.
\<close>

theorem log_can_dereference_null:
  assumes "lm_reachable s" "lm_pcs s t = Log_call e (Some l)"
    and "lm_pcs s t' = Lm_idle" "lm_mutex s = None"
  shows "\<exists>s'. lm_step\<^sup>*\<^sup>* s s' \<and> lm_reachable s' \<and> lm_pcs s' t = Lm_crashed"
proof -
  let ?s = "s\<lparr>logger_instance := None\<rparr>"
  have "lm_step\<^sup>*\<^sup>* s ?s" using assms(3,4) by (rule set_logger_call)
  moreover have "lm_step ?s (lm_goto t Lm_crashed ?s)"
    using assms(2) by (intro log_null) simp_all
  ultimately have "lm_step\<^sup>*\<^sup>* s (lm_goto t Lm_crashed ?s)" by simp
  then show ?thesis
    using lm_reachable_steps assms(1) by (auto intro!: exI [of _ "lm_goto t Lm_crashed ?s"])
qed

lemma log_call_reachable: "\<exists>s. lm_reachable s \<and> lm_pcs s 0 = Log_call e (Some 7) \<and>
    lm_pcs s 1 = Lm_idle \<and> lm_mutex s = None"
proof -
  define s0 where "s0 = lm_initial\<lparr>logger_instance := Some 7\<rparr>"
  have idle: "lm_pcs s0 t = Lm_idle" "lm_mutex s0 = None" for t
    by (simp_all add: s0_def lm_initial_def)
  have "lm_step\<^sup>*\<^sup>* lm_initial s0"
    unfolding s0_def by (rule set_logger_call [of _ 0]) (simp_all add: lm_initial_def)
  moreover have "lm_step\<^sup>*\<^sup>* s0 (lm_goto 0 (Log_check e (Some 7)) s0)"
    using log_call_locked [of s0 0 e] idle by (simp add: s0_def)
  moreover have "lm_step (lm_goto 0 (Log_check e (Some 7)) s0)
      (lm_goto 0 (Log_call e (Some 7)) (lm_goto 0 (Log_check e (Some 7)) s0))"
    by (rule log_set [of _ _ _ _ 7]) (simp_all add: s0_def)
  ultimately have "lm_reachable (lm_goto 0 (Log_call e (Some 7)) (lm_goto 0 (Log_check e (Some 7)) s0))"
    using lm_reachable_steps [OF _ lm_start] by (meson lm_reachable_steps lm_next)
  then show ?thesis
    using idle(1) [of 1] idle(2)
    by (intro exI [of _ "lm_goto 0 (Log_call e (Some 7)) (lm_goto 0 (Log_check e (Some 7)) s0)"]) simp
qed

theorem log_can_dereference_null_witness:
  "\<exists>s. lm_reachable s \<and> lm_pcs s 0 = Lm_crashed"
proof -
  obtain s where "lm_reachable s" "lm_pcs s 0 = Log_call (''hello'', INFO) (Some 7)"
    "lm_pcs s 1 = Lm_idle" "lm_mutex s = None"
    using log_call_reachable by blast
  from log_can_dereference_null [OF this] show ?thesis by blast
qed

section \<open>Data races\<close>

text \<open>
  How the next step of a thread accesses the member \<^verbatim>\<open>logger_instance\<close>, a \<^verbatim>\<open>std::shared_ptr\<close>: the copy
  and the store are made under the mutex, the test and the call are not. Two accesses that nothing
  orders, one of them a write, are undefined behaviour; the steps above only show what can happen when
  each of them is still carried out as a whole.
\<close>

datatype lm_access = Lm_reads | Lm_writes

fun lm_accesses :: "lm_pc \<Rightarrow> lm_access option" where
  "lm_accesses (Log_copy _) = Some Lm_reads"
| "lm_accesses (Log_check _ _) = Some Lm_reads"
| "lm_accesses (Log_call _ _) = Some Lm_reads"
| "lm_accesses (Set_store _) = Some Lm_writes"
| "lm_accesses _ = None"

definition lm_ready :: "thread_id \<Rightarrow> logger_manager \<Rightarrow> bool" where
  "lm_ready t s \<longleftrightarrow> (\<exists>s'. lm_step s s' \<and> lm_pcs s' t \<noteq> lm_pcs s t)"

definition lm_race :: "thread_id \<Rightarrow> thread_id \<Rightarrow> logger_manager \<Rightarrow> bool" where
  "lm_race t t' s \<longleftrightarrow>
     t \<noteq> t' \<and> lm_ready t s \<and> lm_ready t' s \<and>
     lm_accesses (lm_pcs s t) \<noteq> None \<and> lm_accesses (lm_pcs s t') \<noteq> None \<and>
     (lm_accesses (lm_pcs s t) = Some Lm_writes \<or> lm_accesses (lm_pcs s t') = Some Lm_writes)"

text \<open>The test and the call in \<^verbatim>\<open>log\<close>, and the assignment in \<^verbatim>\<open>set_logger\<close>.\<close>

fun reads_unlocked :: "lm_pc \<Rightarrow> bool" where
  "reads_unlocked (Log_check _ _) = True"
| "reads_unlocked (Log_call _ _) = True"
| "reads_unlocked _ = False"

fun storing :: "lm_pc \<Rightarrow> bool" where
  "storing (Set_store _) = True"
| "storing _ = False"

lemma reads_unlocked_ready: "reads_unlocked (lm_pcs s t) \<Longrightarrow> lm_ready t s"
proof (cases "lm_pcs s t"; cases "logger_instance s")
  fix e temp assume "lm_pcs s t = Log_check e temp" "logger_instance s = None"
  then show ?thesis using log_unset [of s t e temp] by (force simp: lm_ready_def)
next
  fix e temp l assume "lm_pcs s t = Log_check e temp" "logger_instance s = Some l"
  then show ?thesis using log_set [of s t e temp l] by (force simp: lm_ready_def)
next
  fix e temp assume "lm_pcs s t = Log_call e temp" "logger_instance s = None"
  then show ?thesis using log_null [of s t e temp] by (force simp: lm_ready_def)
next
  fix e temp l assume "lm_pcs s t = Log_call e temp" "logger_instance s = Some l"
  then show ?thesis using log_deliver [of s t e temp l] by (force simp: lm_ready_def)
qed simp_all

lemma storing_ready: "storing (lm_pcs s t) \<Longrightarrow> lm_ready t s"
proof (cases "lm_pcs s t")
  case (Set_store v)
  then show ?thesis using set_store [of s t v] by (force simp: lm_ready_def)
qed simp_all

lemma lm_accesses_where:
  "lm_accesses pc \<noteq> None \<longleftrightarrow> lm_holds pc \<or> reads_unlocked pc"
  "lm_accesses pc = Some Lm_writes \<longleftrightarrow> storing pc"
  "storing pc \<Longrightarrow> lm_holds pc" "reads_unlocked pc \<Longrightarrow> \<not> lm_holds pc"
  by (cases pc; simp)+

lemma storing_excludes: "storing pc \<Longrightarrow> \<not> reads_unlocked pc"
  by (cases pc) simp_all

lemma lm_race_alt:
  "lm_race t t' s \<longleftrightarrow>
     t \<noteq> t' \<and> lm_ready t s \<and> lm_ready t' s \<and>
     (storing (lm_pcs s t) \<and> (lm_holds (lm_pcs s t') \<or> reads_unlocked (lm_pcs s t')) \<or>
      (lm_holds (lm_pcs s t) \<or> reads_unlocked (lm_pcs s t)) \<and> storing (lm_pcs s t'))"
  unfolding lm_race_def using lm_accesses_where by blast

lemma store_races: "storing (lm_pcs s t) \<Longrightarrow> reads_unlocked (lm_pcs s t') \<Longrightarrow> lm_race t t' s"
  using storing_ready [of s t] reads_unlocked_ready [of s t'] storing_excludes [of "lm_pcs s t"]
  by (auto simp: lm_race_alt)

text \<open>
  C29: the data races of the logger. Two threads race for the member \<open>logger_instance\<close> exactly when one
  is about to store a logger in \<open>set_logger\<close> and the other is at the test or at the call in \<open>log\<close>, which
  do not look at the copy made under the mutex. Thanks to the mutex two stores never race, and neither
  do a store and that copy, in any interleaving of any number of threads.
\<close>

theorem logger_races_iff:
  assumes "lm_reachable s" "t \<noteq> t'"
  shows "lm_race t t' s \<longleftrightarrow>
    storing (lm_pcs s t) \<and> reads_unlocked (lm_pcs s t') \<or>
    reads_unlocked (lm_pcs s t) \<and> storing (lm_pcs s t')"
  unfolding lm_race_alt
  using logger_mutex_exclusive [OF assms(1), of t t'] assms(2) lm_accesses_where(3)
    reads_unlocked_ready storing_ready by blast

theorem logger_races_iff_witness:
  "\<exists>s. lm_reachable s \<and> lm_pcs s 0 = Log_call (''hello'', INFO) (Some 7) \<and>
    lm_pcs s 1 = Set_store None \<and> lm_race 0 1 s"
proof -
  obtain s where s: "lm_reachable s" "lm_pcs s 0 = Log_call (''hello'', INFO) (Some 7)"
    "lm_pcs s 1 = Lm_idle" "lm_mutex s = None"
    using log_call_reachable by blast
  define s1 where "s1 = lm_goto 1 (Set_lock None) s"
  define s2 where "s2 = lm_goto 1 (Set_store None) (s1\<lparr>lm_mutex := Some 1\<rparr>)"
  have "lm_step s s1" "lm_step s1 s2"
    using s set_enter [of s 1 None] set_acquire [of s1 1 None] by (simp_all add: s1_def s2_def)
  then have "lm_reachable s2" using s(1) by (blast intro: lm_next)
  moreover have "lm_pcs s2 0 = Log_call (''hello'', INFO) (Some 7)" "lm_pcs s2 1 = Set_store None"
    using s(2) by (simp_all add: s1_def s2_def)
  ultimately show ?thesis using logger_races_iff [of s2 0 1] by auto
qed

text \<open>
  The null pointer is one of these races: in a run in which no two threads race, no thread ever
  dereferences null.
\<close>

inductive lm_race_free_run :: "logger_manager \<Rightarrow> bool" where
  race_free_start: "lm_race_free_run lm_initial"
| race_free_next: "lm_race_free_run s \<Longrightarrow> lm_step s s' \<Longrightarrow> \<forall>t t'. \<not> lm_race t t' s \<Longrightarrow>
    lm_race_free_run s'"

fun lm_calling :: "lm_pc \<Rightarrow> bool" where
  "lm_calling (Log_call _ _) = True"
| "lm_calling _ = False"

definition nonnull_inv :: "logger_manager \<Rightarrow> bool" where
  "nonnull_inv s \<longleftrightarrow>
     (\<forall>t. lm_pcs s t \<noteq> Lm_crashed \<and> (lm_calling (lm_pcs s t) \<longrightarrow> logger_instance s \<noteq> None))"

lemma nonnull_step_inv:
  assumes "lm_step s s'" "nonnull_inv s" "\<forall>t t'. \<not> lm_race t t' s"
  shows "nonnull_inv s'"
  using assms
proof (induction rule: lm_step.induct)
  case (log_null s t e temp)
  then have "lm_calling (lm_pcs s t)" by simp
  with log_null show ?case unfolding nonnull_inv_def by metis
next
  case (set_store s t v)
  have "\<not> lm_calling (lm_pcs s u)" if "u \<noteq> t" for u
    using set_store.hyps set_store.prems(2) store_races [of s t u] by (cases "lm_pcs s u") auto
  with set_store show ?case by (auto simp: nonnull_inv_def)
qed (auto simp: nonnull_inv_def)

lemma race_free_log_never_null:
  assumes "lm_race_free_run s"
  shows "lm_pcs s t \<noteq> Lm_crashed"
proof -
  from assms have "nonnull_inv s"
  proof (induction rule: lm_race_free_run.induct)
    case race_free_start
    then show ?case by (simp add: nonnull_inv_def lm_initial_def)
  next
    case (race_free_next s s')
    then show ?case using nonnull_step_inv by blast
  qed
  then show ?thesis by (simp add: nonnull_inv_def)
qed

end
