(* ===== verification/Cpp_Numbers.thy ===== *)
theory Cpp_Numbers
  imports Gnmi_Prelude
begin

text \<open>
  The conversions of the C++ standard library between numbers and text that the library uses:
  \<^verbatim>\<open>std::to_string\<close> on the integer types and on \<^verbatim>\<open>double\<close> (the \<^verbatim>\<open>%f\<close> format), and
  \<^verbatim>\<open>std::stoull\<close> in base ten, with its two exceptions and its treatment of a sign. The
  lemmas show that reading back what was printed gives the number again.
\<close>

section \<open>Decimal digits\<close>

definition is_digit :: "char \<Rightarrow> bool" where
  "is_digit c \<longleftrightarrow> 48 \<le> (of_char c :: nat) \<and> (of_char c :: nat) \<le> 57"

definition digit_val :: "char \<Rightarrow> nat" where
  "digit_val c = of_char c - 48"

definition digit_char :: "nat \<Rightarrow> char" where
  "digit_char d = char_of (48 + d)"

fun decimal :: "nat \<Rightarrow> string" where
  "decimal n = (if n < 10 then [digit_char n] else decimal (n div 10) @ [digit_char (n mod 10)])"

declare decimal.simps [simp del]

definition decimal_value :: "string \<Rightarrow> nat" where
  "decimal_value ds = foldl (\<lambda>a c. 10 * a + digit_val c) 0 ds"

lemma of_char_digit_char: "d < 10 \<Longrightarrow> of_char (digit_char d) = 48 + d"
  by (simp add: digit_char_def)

lemma is_digit_digit_char [simp]: "d < 10 \<Longrightarrow> is_digit (digit_char d)"
  by (simp add: is_digit_def of_char_digit_char)

lemma digit_val_digit_char [simp]: "d < 10 \<Longrightarrow> digit_val (digit_char d) = d"
  by (simp add: digit_val_def of_char_digit_char)

lemma decimal_digits: "c \<in> set (decimal n) \<Longrightarrow> is_digit c"
proof (induction n rule: decimal.induct)
  case (1 n)
  then show ?case
    by (cases "n < 10") (auto simp: decimal.simps [of n])
qed

lemma decimal_nonempty [simp]: "decimal n \<noteq> []"
  by (simp add: decimal.simps [of n])

lemma decimal_value_append:
  "decimal_value (xs @ [c]) = 10 * decimal_value xs + digit_val c"
  by (simp add: decimal_value_def)

lemma decimal_value_decimal [simp]: "decimal_value (decimal n) = n"
proof (induction n rule: decimal.induct)
  case (1 n)
  show ?case
  proof (cases "n < 10")
    case True
    then show ?thesis by (simp add: decimal.simps [of n] decimal_value_def)
  next
    case False
    with "1.IH" have "decimal_value (decimal (n div 10)) = n div 10" by simp
    with False show ?thesis by (simp add: decimal.simps [of n] decimal_value_append)
  qed
qed

lemma takeWhile_is_digit_decimal [simp]: "takeWhile is_digit (decimal n) = decimal n"
  by (simp add: takeWhile_eq_all_conv decimal_digits)

section \<open>Printing\<close>

definition to_string_u64 :: "64 word \<Rightarrow> string" where
  "to_string_u64 w = decimal (unat w)"

definition to_string_u32 :: "32 word \<Rightarrow> string" where
  "to_string_u32 w = decimal (unat w)"

definition to_string_i64 :: "64 word \<Rightarrow> string" where
  "to_string_i64 w =
     (if sint w < 0 then ''-'' @ decimal (nat (- sint w)) else decimal (nat (sint w)))"

text \<open>
  A \<^verbatim>\<open>double\<close> is printed with \<^verbatim>\<open>%f\<close>: its exact value, rounded half-to-even at the sixth
  decimal. \<open>double_micros\<close> is that rounded magnitude in millionths, for a finite bit pattern.
\<close>

definition round_half_even :: "nat \<Rightarrow> nat \<Rightarrow> nat" where
  "round_half_even p q =
     (let d = p div q; r = p mod q
      in if 2 * r < q \<or> (2 * r = q \<and> even d) then d else Suc d)"

definition double_sign :: "64 word \<Rightarrow> bool" where
  "double_sign w \<longleftrightarrow> unat w div 2 ^ 63 = 1"

definition double_exponent :: "64 word \<Rightarrow> nat" where
  "double_exponent w = unat w div 2 ^ 52 mod 2 ^ 11"

definition double_fraction :: "64 word \<Rightarrow> nat" where
  "double_fraction w = unat w mod 2 ^ 52"

definition double_micros :: "64 word \<Rightarrow> nat" where
  "double_micros w =
     (let ex = double_exponent w;
          m = (if ex = 0 then double_fraction w else double_fraction w + 2 ^ 52);
          e = (if ex = 0 then 1 else ex)
      in if 1075 \<le> e then m * 2 ^ (e - 1075) * 1000000
         else round_half_even (m * 1000000) (2 ^ (1075 - e)))"

definition six_digits :: "nat \<Rightarrow> string" where
  "six_digits n = map (\<lambda>k. digit_char (n div 10 ^ k mod 10)) [5, 4, 3, 2, 1, 0]"

definition to_string_double :: "64 word \<Rightarrow> string" where
  "to_string_double w =
     (if double_sign w then ''-'' else '''') @
     (if double_exponent w = 2047
      then (if double_fraction w = 0 then ''inf'' else ''nan'')
      else decimal (double_micros w div 1000000) @ ''.'' @ six_digits (double_micros w mod 1000000))"

section \<open>Reading\<close>

text \<open>
  \<^verbatim>\<open>strtoull\<close> skips white space, accepts one sign, reads the longest run of digits and ignores
  what follows; a minus sign negates the value modulo \<open>2 ^ 64\<close>. \<^verbatim>\<open>std::stoull\<close> throws when there
  is no digit or when the digits exceed the type.
\<close>

definition is_space :: "char \<Rightarrow> bool" where
  "is_space c \<longleftrightarrow> (of_char c :: nat) = 32 \<or> (9 \<le> (of_char c :: nat) \<and> (of_char c :: nat) \<le> 13)"

fun split_sign :: "string \<Rightarrow> bool \<times> string" where
  "split_sign [] = (False, [])"
| "split_sign (c # s) =
     (if c = CHR ''-'' then (True, s) else if c = CHR ''+'' then (False, s) else (False, c # s))"

definition stoull :: "string \<Rightarrow> (64 word) result" where
  "stoull s =
     (let (neg, rest) = split_sign (dropWhile is_space s);
          ds = takeWhile is_digit rest;
          v = decimal_value ds
      in if ds = [] then Inl (Invalid_argument ''stoull'')
         else if 2 ^ 64 \<le> v then Inl (Out_of_range ''stoull'')
         else Inr (if neg then - of_nat v else of_nat v))"

lemma is_digit_not_space: "is_digit c \<Longrightarrow> \<not> is_space c"
  by (auto simp: is_digit_def is_space_def)

lemma is_digit_not_sign: "is_digit c \<Longrightarrow> c \<noteq> CHR ''-'' \<and> c \<noteq> CHR ''+''"
  by (auto simp: is_digit_def)

lemma split_sign_decimal: "split_sign (decimal n @ s) = (False, decimal n @ s)"
proof (cases "decimal n")
  case (Cons c cs)
  then have "is_digit c" by (intro decimal_digits [of c n]) simp
  with Cons show ?thesis by (simp add: is_digit_not_sign)
qed simp

lemma dropWhile_space_decimal: "dropWhile is_space (decimal n @ s) = decimal n @ s"
proof (cases "decimal n")
  case (Cons c cs)
  then have "is_digit c" by (intro decimal_digits [of c n]) simp
  with Cons show ?thesis by (simp add: is_digit_not_space)
qed simp

lemma takeWhile_digit_decimal_append:
  "(s = [] \<or> \<not> is_digit (hd s)) \<Longrightarrow> takeWhile is_digit (decimal n @ s) = decimal n"
  by (cases s) (simp_all add: takeWhile_append decimal_digits)

lemma stoull_decimal_append:
  assumes "s = [] \<or> \<not> is_digit (hd s)"
  shows "stoull (decimal n @ s) =
           (if 2 ^ 64 \<le> n then Inl (Out_of_range ''stoull'') else Inr (of_nat n))"
  using assms
  by (simp add: stoull_def dropWhile_space_decimal split_sign_decimal
      takeWhile_digit_decimal_append)

lemma stoull_minus_decimal:
  "n < 2 ^ 64 \<Longrightarrow> stoull (CHR ''-'' # decimal n) = Inr (- of_nat n)"
proof -
  assume "n < 2 ^ 64"
  moreover have "\<not> is_space (CHR ''-'')" by (simp add: is_space_def)
  ultimately show ?thesis by (simp add: stoull_def)
qed

lemma stoull_no_digit: "takeWhile is_digit (snd (split_sign (dropWhile is_space s))) = [] \<Longrightarrow>
    stoull s = Inl (Invalid_argument ''stoull'')"
  by (simp add: stoull_def Let_def split_beta)

lemma stoull_to_string_u64 [simp]: "stoull (to_string_u64 w) = Inr w"
proof -
  have "unat w < 2 ^ 64" using unsigned_less [where w = w, where 'a = nat] by simp
  then show ?thesis
    using stoull_decimal_append [of "[]" "unat w"] by (simp add: to_string_u64_def)
qed

text \<open>A signed value is read back as the unsigned value with the same bits.\<close>

lemma stoull_to_string_i64 [simp]: "stoull (to_string_i64 w) = Inr w"
proof (cases "sint w < 0")
  case True
  have "- sint w \<le> 2 ^ 63" using sint_ge [of w] by simp
  then have "nat (- sint w) < 2 ^ 64" by (simp add: nat_less_iff)
  moreover have "- (of_nat (nat (- sint w)) :: 64 word) = w"
    using True by (simp add: of_nat_nat)
  ultimately show ?thesis
    using True stoull_minus_decimal [of "nat (- sint w)"] by (simp add: to_string_i64_def)
next
  case False
  have "sint w < 2 ^ 63" using sint_lt [of w] by simp
  then have "nat (sint w) < 2 ^ 64" by (simp add: nat_less_iff)
  moreover have "(of_nat (nat (sint w)) :: 64 word) = w"
    using False by (simp add: of_nat_nat)
  ultimately show ?thesis
    using False stoull_decimal_append [of "[]" "nat (sint w)"] by (simp add: to_string_i64_def)
qed

text \<open>A double is read back as the integral part of its rounded decimal form.\<close>

lemma stoull_to_string_double:
  assumes "\<not> double_sign w" "double_exponent w \<noteq> 2047"
  shows "stoull (to_string_double w) =
           (if 2 ^ 64 \<le> double_micros w div 1000000 then Inl (Out_of_range ''stoull'')
            else Inr (of_nat (double_micros w div 1000000)))"
  using assms by (simp add: to_string_double_def stoull_decimal_append is_digit_def)

end
