(* ===== verification/Connection.thy ===== *)
theory Connection
  imports Gnmi_Messages Logger Cpp_Numbers
begin

text \<open>
  The class \<^verbatim>\<open>gnmi_client_connection\<close> (\<^verbatim>\<open>mgbl_gnmi_connection.h\<close>, \<^verbatim>\<open>mgbl_api.cpp\<close>): making the
  channel with its credentials, and waiting for the server. The file system is the parameter
  \<open>files\<close> (the content of the files that can be opened), and the channel of the gRPC library is a
  state over which \<open>channel_api\<close> gives its two operations.
\<close>

section \<open>Credentials\<close>

record ssl_options =
  pem_root_certs :: string
  pem_private_key :: string
  pem_cert_chain :: string

datatype channel_credentials = InsecureChannelCredentials | SslCredentials ssl_options

record connection =
  conn_target :: string
  conn_creds :: channel_credentials

text \<open>The local lambda \<^verbatim>\<open>read\<close>: a file that cannot be opened leaves the text as it was.\<close>

definition read_file :: "(string \<rightharpoonup> string) \<Rightarrow> string \<Rightarrow> string \<Rightarrow> string" where
  "read_file files filename data =
     (case files filename of Some content \<Rightarrow> content | None \<Rightarrow> data)"

definition gnmi_client_connection ::
  "(string \<rightharpoonup> string) \<Rightarrow> rpc_channel_args \<Rightarrow> log_entry list \<times> connection result" where
  "gnmi_client_connection files args =
     (if ssl_tls args
      then (if pem_roots_certs_path args = ''''
            then ([(''Root certificate location is empty'', ERROR)],
                  Inl (Invalid_argument ''Root certificate location is empty''))
            else
              (let opts = \<lparr>pem_root_certs = read_file files (pem_roots_certs_path args) '''',
                           pem_private_key = read_file files (pem_private_key_path args) '''',
                           pem_cert_chain = read_file files (pem_cert_chain_path args) ''''\<rparr>
               in ([], Inr \<lparr>conn_target = server_address args, conn_creds = SslCredentials opts\<rparr>)))
      else ([], Inr \<lparr>conn_target = server_address args, conn_creds = InsecureChannelCredentials\<rparr>))"

text \<open>\<^verbatim>\<open>get_channel\<close> hands out the channel of the connection.\<close>

definition get_channel :: "connection \<Rightarrow> string \<times> channel_credentials" where
  "get_channel conn = (conn_target conn, conn_creds conn)"

section \<open>Waiting for the server\<close>

datatype connectivity = CHANNEL_IDLE | CHANNEL_CONNECTING | CHANNEL_READY |
  CHANNEL_TRANSIENT_FAILURE | CHANNEL_SHUTDOWN

text \<open>
  \<^verbatim>\<open>WaitForConnected\<close> with a deadline the given number of seconds ahead, and \<^verbatim>\<open>GetState(false)\<close>,
  over the state of the channel, the clock included.
\<close>

record 'g channel_api =
  wait_for_connected :: "int \<Rightarrow> 'g \<Rightarrow> 'g"
  get_state :: "'g \<Rightarrow> connectivity"

definition retry_message :: "32 word \<Rightarrow> 32 word \<Rightarrow> log_entry" where
  "retry_message retry_count retries =
     (''Retry attempt number: '' @ to_string_u32 retry_count @ '' of '' @ to_string_u32 retries, INFO)"

function retry_loop ::
  "'g channel_api \<Rightarrow> 32 word \<Rightarrow> int \<Rightarrow> 32 word \<Rightarrow> 'g \<Rightarrow> log_entry list \<times> bool \<times> 'g" where
  "retry_loop api retries interval retry_count g =
     (if retry_count < retries
      then (let g' = wait_for_connected api interval g in
            if get_state api g' = CHANNEL_READY then ([], True, g')
            else (let (logs, ok, g'') = retry_loop api retries interval (retry_count + 1) g'
                  in (retry_message retry_count retries # logs, ok, g'')))
      else ([(''Connection to server failed'', ERROR)], False, g))"
  by pat_completeness auto
termination
proof (relation "measure (\<lambda>(api, retries, interval, retry_count, g). unat retries - unat retry_count)",
    goal_cases)
  case (2 api retries interval retry_count g g')
  have "unat retry_count < unat retries" "unat retries < 2 ^ 32"
    using 2 unsigned_less [where w = retries, where 'a = nat] by (simp_all add: word_less_nat_alt)
  then show ?case by (simp add: unat_word_ariths)
qed simp

declare retry_loop.simps [simp del]

definition wait_for_grpc_server_connection ::
  "'g channel_api \<Rightarrow> 32 word \<Rightarrow> int \<Rightarrow> 'g \<Rightarrow> log_entry list \<times> bool \<times> 'g" where
  "wait_for_grpc_server_connection api retries interval g = retry_loop api retries interval 0 g"

section \<open>What the loop computes\<close>

text \<open>The channel after a number of attempts, and the first attempt that finds it ready.\<close>

definition after_attempts :: "'g channel_api \<Rightarrow> int \<Rightarrow> 'g \<Rightarrow> nat \<Rightarrow> 'g" where
  "after_attempts api interval g i = (wait_for_connected api interval ^^ i) g"

definition ready_after :: "'g channel_api \<Rightarrow> int \<Rightarrow> 'g \<Rightarrow> nat \<Rightarrow> bool" where
  "ready_after api interval g i \<longleftrightarrow>
     get_state api (after_attempts api interval g (Suc i)) = CHANNEL_READY"

definition wait_spec ::
  "'g channel_api \<Rightarrow> 32 word \<Rightarrow> int \<Rightarrow> 'g \<Rightarrow> log_entry list \<times> bool \<times> 'g" where
  "wait_spec api retries interval g =
     (case find (ready_after api interval g) [0..<unat retries] of
        Some i \<Rightarrow> (map (\<lambda>k. retry_message (of_nat k) retries) [0..<i], True,
                   after_attempts api interval g (Suc i))
      | None \<Rightarrow> (map (\<lambda>k. retry_message (of_nat k) retries) [0..<unat retries] @
                   [(''Connection to server failed'', ERROR)], False,
                 after_attempts api interval g (unat retries)))"

lemma after_attempts_Suc: "after_attempts api interval (wait_for_connected api interval g) i =
    after_attempts api interval g (Suc i)"
  by (simp add: after_attempts_def funpow_swap1)

lemma retry_loop_spec:
  assumes "k \<le> unat retries"
  shows "retry_loop api retries interval (of_nat k) (after_attempts api interval g k) =
    (case find (ready_after api interval g) [k..<unat retries] of
       Some i \<Rightarrow> (map (\<lambda>k. retry_message (of_nat k) retries) [k..<i], True,
                  after_attempts api interval g (Suc i))
     | None \<Rightarrow> (map (\<lambda>k. retry_message (of_nat k) retries) [k..<unat retries] @
                  [(''Connection to server failed'', ERROR)], False,
                after_attempts api interval g (unat retries)))"
  using assms
proof (induction "unat retries - k" arbitrary: k)
  case 0
  then have "k = unat retries" by simp
  then show ?case by (simp add: retry_loop.simps)
next
  case (Suc d)
  then have less: "k < unat retries" by simp
  moreover have "unat retries < 2 ^ 32"
    using unsigned_less [where w = retries, where 'a = nat] by simp
  ultimately have "unat (of_nat k :: 32 word) = k"
    by (simp add: unat_of_nat)
  with less have guard: "(of_nat k :: 32 word) < retries"
    by (simp add: word_less_nat_alt)
  have upt: "[k..<unat retries] = k # [Suc k..<unat retries]"
    using less by (simp add: upt_conv_Cons)
  have state: "wait_for_connected api interval (after_attempts api interval g k) =
      after_attempts api interval g (Suc k)"
    by (simp add: after_attempts_def)
  have cons: "[k..<i] = k # [Suc k..<i]" if "find P [Suc k..<unat retries] = Some i" for i P
  proof -
    have "i \<in> set [Suc k..<unat retries]"
      using that by (metis find_Some_iff nth_mem)
    then show ?thesis by (simp add: upt_conv_Cons)
  qed
  show ?case
  proof (cases "ready_after api interval g k")
    case True
    then show ?thesis
      by (simp add: retry_loop.simps [of api retries interval "of_nat k"] guard upt state
          ready_after_def)
  next
    case False
    have "d = unat retries - Suc k" "Suc k \<le> unat retries"
      using Suc.hyps(2) less by simp_all
    from Suc.hyps(1) [OF this] False show ?thesis
      by (simp add: retry_loop.simps [of api retries interval "of_nat k"] guard upt state
          ready_after_def add.commute split: option.splits) (simp add: cons)
  qed
qed

section \<open>Properties\<close>

lemma wait_for_grpc_server_connection_spec:
  "wait_for_grpc_server_connection api retries interval g = wait_spec api retries interval g"
  using retry_loop_spec [of 0 retries api interval g]
  by (simp add: wait_for_grpc_server_connection_def wait_spec_def after_attempts_def)

text \<open>
  C27: waiting succeeds exactly when one of the first \<open>retries\<close> attempts finds the channel ready.
  It then stops at that attempt, with one message per attempt before it; otherwise it makes all of
  them, reports each and the failure, and returns false.
\<close>

theorem wait_for_connection_first_ready:
  "wait_for_grpc_server_connection api retries interval g = wait_spec api retries interval g \<and>
   (fst (snd (wait_for_grpc_server_connection api retries interval g)) \<longleftrightarrow>
      (\<exists>i < unat retries. ready_after api interval g i))"
proof
  show spec: "wait_for_grpc_server_connection api retries interval g = wait_spec api retries interval g"
    by (rule wait_for_grpc_server_connection_spec)
  show "fst (snd (wait_for_grpc_server_connection api retries interval g)) \<longleftrightarrow>
      (\<exists>i < unat retries. ready_after api interval g i)"
  proof (cases "find (ready_after api interval g) [0..<unat retries]")
    case None
    have "\<forall>i < unat retries. \<not> ready_after api interval g i"
      using None by (simp add: find_None_iff)
    then show ?thesis by (simp add: spec wait_spec_def None)
  next
    case (Some i)
    then have "i \<in> set [0..<unat retries] \<and> ready_after api interval g i"
      by (metis find_Some_iff nth_mem)
    with Some show ?thesis by (auto simp: spec wait_spec_def)
  qed
qed

text \<open>
  The credentials of a connection. Without TLS they are insecure and no file is read. With TLS
  an empty root certificate path is the only argument that is refused; a path that cannot be opened
  is taken as an empty certificate, without an exception or a message.
\<close>

lemma connection_credentials:
  "(\<not> ssl_tls args \<longrightarrow> gnmi_client_connection files args =
      ([], Inr \<lparr>conn_target = server_address args, conn_creds = InsecureChannelCredentials\<rparr>)) \<and>
   ((\<exists>e. snd (gnmi_client_connection files args) = Inl e) \<longleftrightarrow>
      ssl_tls args \<and> pem_roots_certs_path args = '''') \<and>
   (ssl_tls args \<and> pem_roots_certs_path args \<noteq> '''' \<and> files (pem_roots_certs_path args) = None \<longrightarrow>
      (\<exists>opts. pem_root_certs opts = '''' \<and> gnmi_client_connection files args =
        ([], Inr \<lparr>conn_target = server_address args, conn_creds = SslCredentials opts\<rparr>)))"
  by (auto simp: gnmi_client_connection_def read_file_def Let_def)

end
