(* ===== verification/Gnmi_Path.thy ===== *)
theory Gnmi_Path
  imports Gnmi_Messages Cpp_Numbers
begin

text \<open>
  Paths (\<^verbatim>\<open>mgbl_api/src/gnmi/mgbl_gnmi_helper.cpp\<close>): printing a path, parsing one, and printing
  a request. The parser keeps the index loop of the source; \<open>path_segments\<close> is the specification
  it is shown to implement, and the round trips with the printer rest on it.
\<close>

section \<open>Printing\<close>

definition key_to_string :: "string \<times> string \<Rightarrow> string" where
  "key_to_string kv = ''['' @ fst kv @ ''='' @ snd kv @ '']''"

definition elem_to_string :: "path_elem \<Rightarrow> string" where
  "elem_to_string e = ''/'' @ elem_name e @ concat (map key_to_string (elem_key e))"

definition gnmipath_to_string :: "gnmi_path \<Rightarrow> string" where
  "gnmipath_to_string p = concat (map elem_to_string (path_elems p))"

section \<open>Parsing\<close>

text \<open>The four exceptions of the parser.\<close>

definition empty_element :: fault where
  "empty_element = Invalid_argument
     ''Invalid gNMI path: empty path element.''"

definition missing_bracket :: fault where
  "missing_bracket = Invalid_argument
     ''Invalid gNMI path: missing closing bracket in key-value pair.''"

definition empty_name :: fault where
  "empty_name = Invalid_argument
     ''Invalid gNMI path: name before key-value pair cannot be empty.''"

definition bad_pair :: fault where
  "bad_pair = Invalid_argument
     ''Invalid gNMI path: key-value pair must be in the format 'key=value'.''"

text \<open>The body of the loop: one element, without the slash that ended it.\<close>

definition parse_elem :: "string \<Rightarrow> path_elem result" where
  "parse_elem elem =
     (if elem = [] then Inl empty_element
      else case find_char (CHR ''['') elem of
        None \<Rightarrow> Inr \<lparr>elem_name = elem, elem_key = []\<rparr>
      | Some bracket_start \<Rightarrow>
          (case find_char (CHR '']'') elem of
             None \<Rightarrow> Inl missing_bracket
           | Some bracket_end \<Rightarrow>
               (let nm = substr elem 0 bracket_start in
                if nm = [] then Inl empty_name
                else
                  (let key_value = substr elem (bracket_start + 1)
                         (usize_sub (usize_sub bracket_end bracket_start) 1) in
                   case find_char (CHR ''='') key_value of
                     None \<Rightarrow> Inl bad_pair
                   | Some equal_pos \<Rightarrow>
                       if equal_pos = 0 \<or> equal_pos = usize_sub (length key_value) 1
                       then Inl bad_pair
                       else Inr \<lparr>elem_name = nm,
                         elem_key = [(substr key_value 0 equal_pos,
                                      drop (equal_pos + 1) key_value)]\<rparr>))))"

text \<open>\<^verbatim>\<open>end = path.find('/', start)\<close>, or the size where there is no further slash.\<close>

definition element_end :: "string \<Rightarrow> nat \<Rightarrow> nat" where
  "element_end path start =
     (case find_from (CHR ''/'') path start of None \<Rightarrow> length path | Some i \<Rightarrow> i)"

text \<open>
  The loop. \<^verbatim>\<open>end - start\<close> never wraps, as the end found from a start inside the path is not before
  it (\<open>element_end_ge\<close> below), so the subtraction is that of \<open>nat\<close>; and an empty
  element throws, which is why the loop ends.
\<close>

function parse_loop :: "string \<Rightarrow> nat \<Rightarrow> nat \<Rightarrow> path_elem list \<Rightarrow> path_elem list result" where
  "parse_loop path start end_pos acc =
     (if start < length path
      then (case parse_elem (substr path start (end_pos - start)) of
              Inl e \<Rightarrow> Inl e
            | Inr pe \<Rightarrow>
                parse_loop path (end_pos + 1) (element_end path (end_pos + 1)) (acc @ [pe]))
      else Inr acc)"
  by pat_completeness auto
termination
  by (relation "measure (\<lambda>(path, start, end_pos, acc). Suc (length path) - start)")
    (auto simp: parse_elem_def substr_def split: if_splits)

declare parse_loop.simps [simp del]

definition string_to_gnmipath :: "string \<Rightarrow> gnmi_path result" where
  "string_to_gnmipath path =
     (let start = (if path \<noteq> [] \<and> path ! 0 = CHR ''/'' then 1 else 0) in
      bind_result (parse_loop path start (element_end path start) [])
        (\<lambda>es. Inr \<lparr>path_origin_of = '''', path_elems = es\<rparr>))"

section \<open>Printing a request\<close>

text \<open>The lines \<^verbatim>\<open>print_subscribe_request\<close> writes to the standard output, in order.\<close>

definition subscription_lines :: "nat \<Rightarrow> subscription \<Rightarrow> string list" where
  "subscription_lines j sub =
     [''Subscription['' @ decimal j @ '']: '',
      (case sub_path sub of
         Some p \<Rightarrow> ''Path: '' @ gnmipath_to_string p
       | None \<Rightarrow> ''Path: Does not Exist'')]"

definition print_subscribe_request :: "subscribe_request \<Rightarrow> string list" where
  "print_subscribe_request request =
     (let sl = mutable_subscribe request in
      ['''', ''--------SubscribeRequest--------''] @
      (case sl_prefix sl of
         Some p \<Rightarrow> [''SubscriptionList Prefix: '' @ gnmipath_to_string p]
       | None \<Rightarrow> []) @
      concat (map (\<lambda>j. subscription_lines j (sl_subscription sl ! j))
        [0..<length (sl_subscription sl)]))"

section \<open>The parser against its specification\<close>

text \<open>
  The elements of a path: the text between slashes, after one leading slash is dropped; a slash
  at the very end starts no further element.
\<close>

function split_slash :: "string \<Rightarrow> string list" where
  "split_slash s =
     (if s = [] then []
      else takeWhile (\<lambda>c. c \<noteq> CHR ''/'') s #
             split_slash (drop 1 (dropWhile (\<lambda>c. c \<noteq> CHR ''/'') s)))"
  by pat_completeness auto
termination
proof (relation "measure length", goal_cases)
  case (2 s)
  have "length (dropWhile (\<lambda>c. c \<noteq> CHR ''/'') s) \<le> length s"
    by (rule length_dropWhile_le)
  with 2 show ?case by (cases s) auto
qed simp

declare split_slash.simps [simp del]

definition path_segments :: "string \<Rightarrow> string list" where
  "path_segments path =
     (case path of [] \<Rightarrow> [] | c # s \<Rightarrow> if c = CHR ''/'' then split_slash s else split_slash path)"

lemma split_slash_Nil [simp]: "split_slash [] = []"
  by (simp add: split_slash.simps)

lemma split_slash_append [simp]:
  "CHR ''/'' \<notin> set x \<Longrightarrow> split_slash (x @ CHR ''/'' # s) = x # split_slash s"
  by (subst split_slash.simps) (simp add: takeWhile_neq_append dropWhile_neq_append)

lemma split_slash_single [simp]: "CHR ''/'' \<notin> set x \<Longrightarrow> x \<noteq> [] \<Longrightarrow> split_slash x = [x]"
  by (subst split_slash.simps) (simp add: takeWhile_neq_all dropWhile_neq_all)

lemma element_end_ge: "start \<le> length path \<Longrightarrow> start \<le> element_end path start"
  by (auto simp: element_end_def find_from_def Let_def split: option.splits)

lemma element_end_eq:
  "start \<le> length path \<Longrightarrow> element_end path start =
     start + length (takeWhile (\<lambda>c. c \<noteq> CHR ''/'') (drop start path))"
  using length_takeWhile_le [of "\<lambda>c. c \<noteq> CHR ''/''" "drop start path"]
  by (auto simp: element_end_def find_from_def Let_def split: if_splits)

lemma parse_loop_spec:
  "parse_loop path start (element_end path start) acc =
     bind_result (traverse parse_elem (split_slash (drop start path))) (\<lambda>es. Inr (acc @ es))"
proof (induction "Suc (length path) - start" arbitrary: start acc rule: less_induct)
  case less
  show ?case
  proof (cases "start < length path")
    case False
    then show ?thesis by (simp add: parse_loop.simps [of path start])
  next
    case True
    let ?x = "takeWhile (\<lambda>c. c \<noteq> CHR ''/'') (drop start path)"
    let ?stop = "element_end path start"
    have x: "substr path start (?stop - start) = ?x"
      using True by (simp add: element_end_eq substr_def takeWhile_eq_take [symmetric])
    have rest: "drop 1 (dropWhile (\<lambda>c. c \<noteq> CHR ''/'') (drop start path)) = drop (?stop + 1) path"
      using True by (simp add: element_end_eq dropWhile_eq_drop add.commute add.left_commute)
    have segs: "split_slash (drop start path) = ?x # split_slash (drop (?stop + 1) path)"
      using True rest by (subst split_slash.simps) simp
    have "Suc (length path) - (?stop + 1) < Suc (length path) - start"
      using True element_end_ge [of start path] by simp
    from less.hyps [OF this] show ?thesis
      using True
      by (simp add: parse_loop.simps [of path start] x segs)
        (cases "parse_elem ?x", auto simp: result_simps)
  qed
qed

lemma string_to_gnmipath_spec:
  "string_to_gnmipath path =
     bind_result (traverse parse_elem (path_segments path))
       (\<lambda>es. Inr \<lparr>path_origin_of = '''', path_elems = es\<rparr>)"
  by (cases path)
    (auto simp: string_to_gnmipath_def path_segments_def parse_loop_spec result_simps Let_def)

section \<open>What the parser accepts\<close>

text \<open>
  A string of the library is shorter than \<open>2 ^ 63\<close> bytes (\<^verbatim>\<open>std::string::max_size\<close>); below that
  bound the size arithmetic of the parser wraps in one case only, which
  \<open>parse_elem_bracket_order\<close> describes.
\<close>

abbreviation fits :: "string \<Rightarrow> bool" where
  "fits s \<equiv> length s < 2 ^ 63"

lemma substr_append_length [string_simps]: "substr (xs @ ys) 0 (length xs) = xs"
  by (simp add: substr_def)

lemma parse_elem_plain: "n \<noteq> [] \<Longrightarrow> CHR ''['' \<notin> set n \<Longrightarrow>
    parse_elem n = Inr \<lparr>elem_name = n, elem_key = []\<rparr>"
  by (simp add: parse_elem_def find_char_None)

lemma parse_elem_no_close: "CHR ''['' \<in> set s \<Longrightarrow> CHR '']'' \<notin> set s \<Longrightarrow>
    parse_elem s = Inl missing_bracket"
  using find_char_mem [of "CHR ''[''" s] by (auto simp: parse_elem_def find_char_None)

text \<open>The step after the brackets are found: the text between them is split at its first equals sign.\<close>

definition parse_pair :: "string \<Rightarrow> string \<Rightarrow> path_elem result" where
  "parse_pair nm kv =
     (case find_char (CHR ''='') kv of
        None \<Rightarrow> Inl bad_pair
      | Some i \<Rightarrow>
          if i = 0 \<or> Suc i = length kv
          then Inl bad_pair
          else Inr \<lparr>elem_name = nm, elem_key = [(take i kv, drop (Suc i) kv)]\<rparr>)"

lemma parse_pair_fold:
  assumes "fits kv"
  shows "(case find_char (CHR ''='') kv of
            None \<Rightarrow> Inl bad_pair
          | Some equal_pos \<Rightarrow>
              if equal_pos = 0 \<or> equal_pos = usize_sub (length kv) 1
              then Inl bad_pair
              else Inr \<lparr>elem_name = nm,
                elem_key = [(substr kv 0 equal_pos, drop (equal_pos + 1) kv)]\<rparr>) =
         parse_pair nm kv"
proof (cases "find_char (CHR ''='') kv")
  case (Some i)
  then have "i < length kv" by (simp add: find_char_SomeD)
  moreover from this assms have "usize_sub (length kv) 1 = length kv - 1"
    by (intro usize_sub_ge) auto
  ultimately show ?thesis
    using Some by (auto simp: parse_pair_def substr_def)
qed (simp add: parse_pair_def)

lemma parse_elem_keyed:
  assumes "CHR ''['' \<notin> set n" "CHR '']'' \<notin> set n" "CHR '']'' \<notin> set kv" "n \<noteq> []"
    and fit: "fits (n @ ''['' @ kv @ '']'' @ junk)"
  shows "parse_elem (n @ ''['' @ kv @ '']'' @ junk) = parse_pair n kv"
proof -
  let ?s = "n @ ''['' @ kv @ '']'' @ junk"
  have open_pos: "find_char (CHR ''['') ?s = Some (length n)"
    using assms(1) find_char_append [of "CHR ''[''" n] by simp
  have "?s = (n @ ''['' @ kv) @ CHR '']'' # junk" by simp
  then have close_pos: "find_char (CHR '']'') ?s = Some (length n + 1 + length kv)"
    using assms(2,3) find_char_append [of "CHR '']''" "n @ ''['' @ kv" junk] by simp
  have width: "usize_sub (usize_sub (length n + 1 + length kv) (length n)) 1 = length kv"
    using fit by (simp add: usize_sub_ge)
  have kv: "substr ?s (length n + 1) (length kv) = kv"
    by (simp add: substr_def)
  have "fits kv" using fit by simp
  then show ?thesis
    using \<open>n \<noteq> []\<close>
    by (simp only: parse_elem_def open_pos close_pos width kv option.case Let_def
        substr_append_length append_is_Nil_conv not_Cons_self2 simp_thms if_False
        parse_pair_fold)
qed

text \<open>
  The closing bracket is searched from the start of the element. When it stands before the
  opening one, the length of the pair wraps to a huge number, \<^verbatim>\<open>substr\<close> cuts it to the rest of the
  element, and the element is accepted without a bracket that closes it.
\<close>

lemma parse_elem_bracket_order:
  assumes "CHR ''['' \<notin> set n" "CHR '']'' \<in> set n"
    and fit: "fits (n @ ''['' @ kv)"
  shows "parse_elem (n @ ''['' @ kv) = parse_pair n kv"
proof -
  let ?s = "n @ ''['' @ kv"
  from assms(2) obtain a b where n: "n = a @ CHR '']'' # b" "CHR '']'' \<notin> set a"
    by (meson split_list_first)
  have open_pos: "find_char (CHR ''['') ?s = Some (length n)"
    using assms(1) find_char_append [of "CHR ''[''" n] by simp
  have close_pos: "find_char (CHR '']'') ?s = Some (length a)"
    using n find_char_append [of "CHR '']''" a] by simp
  have "usize_sub (length a) (length n) = 2 ^ 64 - (length n - length a)"
    using fit n by (intro usize_sub_wraps) auto
  then have wrap: "usize_sub (usize_sub (length a) (length n)) 1 = 2 ^ 64 - (length n - length a) - 1"
    using fit n by (simp add: usize_sub_ge)
  have "length kv \<le> 2 ^ 64 - (length n - length a) - 1"
    using fit by simp
  then have kv: "substr ?s (length n + 1) (2 ^ 64 - (length n - length a) - 1) = kv"
    by (simp add: substr_def)
  have "fits kv" "n \<noteq> []" using fit n by simp_all
  then show ?thesis
    by (simp only: parse_elem_def open_pos close_pos wrap kv option.case Let_def
        substr_append_length append_is_Nil_conv not_Cons_self2 simp_thms if_False
        parse_pair_fold)
qed

lemma parse_pair_accepts:
  "k \<noteq> [] \<Longrightarrow> CHR ''='' \<notin> set k \<Longrightarrow> v \<noteq> [] \<Longrightarrow>
     parse_pair n (k @ CHR ''='' # v) = Inr \<lparr>elem_name = n, elem_key = [(k, v)]\<rparr>"
  using find_char_append [of "CHR ''=''" k v] by (simp add: parse_pair_def)

text \<open>Every element that contains an opening bracket has one of these shapes.\<close>

lemma bracket_cases:
  assumes "CHR ''['' \<in> set s"
  obtains (no_close) "CHR '']'' \<notin> set s"
  | (ordered) n kv junk where "s = n @ ''['' @ kv @ '']'' @ junk" "CHR ''['' \<notin> set n"
      "CHR '']'' \<notin> set n" "CHR '']'' \<notin> set kv"
  | (reversed) n kv where "s = n @ ''['' @ kv" "CHR ''['' \<notin> set n" "CHR '']'' \<in> set n"
proof -
  from assms obtain n r where s: "s = n @ CHR ''['' # r" "CHR ''['' \<notin> set n"
    by (meson split_list_first)
  show thesis
  proof (cases "CHR '']'' \<in> set n")
    case True
    with s show ?thesis by (intro reversed [of n r]) simp_all
  next
    case notin: False
    show ?thesis
    proof (cases "CHR '']'' \<in> set r")
      case True
      then obtain kv junk where "r = kv @ CHR '']'' # junk" "CHR '']'' \<notin> set kv"
        by (meson split_list_first)
      with s notin show ?thesis by (intro ordered [of n kv junk]) simp_all
    next
      case False
      with s notin show ?thesis by (intro no_close) simp
    qed
  qed
qed

lemma parse_elem_empty_name: "CHR '']'' \<in> set s \<Longrightarrow>
    parse_elem (CHR ''['' # s) = Inl empty_name"
  using find_char_mem [of "CHR '']''" "CHR ''['' # s"]
  by (auto simp: parse_elem_def find_char_Cons_same substr_def)

section \<open>Well-formed results and rejected input\<close>

definition parsed_elem :: "path_elem \<Rightarrow> bool" where
  "parsed_elem e \<longleftrightarrow> elem_name e \<noteq> [] \<and> CHR ''['' \<notin> set (elem_name e) \<and>
     (elem_key e = [] \<or>
      (\<exists>k v. elem_key e = [(k, v)] \<and> k \<noteq> [] \<and> CHR ''='' \<notin> set k \<and> v \<noteq> []))"

lemma parse_pair_Inr:
  assumes "parse_pair n kv = Inr e"
  obtains k v where "kv = k @ ''='' @ v" "k \<noteq> []" "CHR ''='' \<notin> set k" "v \<noteq> []"
    "e = \<lparr>elem_name = n, elem_key = [(k, v)]\<rparr>"
proof -
  from assms obtain i where i: "find_char (CHR ''='') kv = Some i" "i \<noteq> 0" "Suc i \<noteq> length kv"
    and e: "e = \<lparr>elem_name = n, elem_key = [(take i kv, drop (Suc i) kv)]\<rparr>"
    by (auto simp: parse_pair_def split: option.splits if_splits)
  from find_char_SomeD [OF i(1)] i(2,3)
  have "kv = take i kv @ ''='' @ drop (Suc i) kv" "take i kv \<noteq> []"
    "CHR ''='' \<notin> set (take i kv)" "drop (Suc i) kv \<noteq> []"
    by auto
  with e show ?thesis using that by blast
qed

text \<open>The two results of \<open>parse_pair\<close>, as the case analysis of every element with a bracket.\<close>

lemma parse_elem_Inr_cases:
  assumes "parse_elem s = Inr e" and fit: "fits s"
  obtains (plain) "s \<noteq> []" "CHR ''['' \<notin> set s" "e = \<lparr>elem_name = s, elem_key = []\<rparr>"
  | (keyed) n k v junk where "s = n @ ''['' @ (k @ ''='' @ v) @ '']'' @ junk"
      "CHR ''['' \<notin> set n" "CHR '']'' \<notin> set n" "CHR '']'' \<notin> set (k @ ''='' @ v)"
      "n \<noteq> []" "k \<noteq> []" "CHR ''='' \<notin> set k" "v \<noteq> []"
      "e = \<lparr>elem_name = n, elem_key = [(k, v)]\<rparr>"
  | (reversed) n k v where "s = n @ ''['' @ (k @ ''='' @ v)"
      "CHR ''['' \<notin> set n" "CHR '']'' \<in> set n"
      "k \<noteq> []" "CHR ''='' \<notin> set k" "v \<noteq> []" "e = \<lparr>elem_name = n, elem_key = [(k, v)]\<rparr>"
proof (cases "CHR ''['' \<in> set s")
  case False
  have "s \<noteq> []" using assms(1) by (auto simp: parse_elem_def)
  with False assms(1) show thesis by (intro plain) (auto simp: parse_elem_plain)
next
  case True
  then show thesis
  proof (cases rule: bracket_cases)
    case no_close
    with True assms(1) show ?thesis by (simp add: parse_elem_no_close)
  next
    case (ordered n kv junk)
    then have "n \<noteq> []" using assms(1) by (auto simp: parse_elem_empty_name)
    with ordered fit assms(1) have "parse_pair n kv = Inr e"
      using parse_elem_keyed [of n kv junk] by simp
    then show ?thesis
      using ordered \<open>n \<noteq> []\<close> by (elim parse_pair_Inr) (rule keyed [of n _ _ junk], auto)
  next
    case (reversed n kv)
    with fit assms(1) have "parse_pair n kv = Inr e"
      using parse_elem_bracket_order [of n kv] by simp
    then show ?thesis
      using reversed by (elim parse_pair_Inr) (rule that(3) [of n], auto)
  qed
qed

lemma parse_elem_wf: "parse_elem s = Inr e \<Longrightarrow> fits s \<Longrightarrow> parsed_elem e"
  by (elim parse_elem_Inr_cases) (auto simp: parsed_elem_def)

lemma parse_elem_chars: "parse_elem s = Inr e \<Longrightarrow> fits s \<Longrightarrow>
    set (elem_name e) \<union> (\<Union>(k, v) \<in> set (elem_key e). set k \<union> set v) \<subseteq> set s"
  by (elim parse_elem_Inr_cases) auto

lemma path_segments_props:
  "s \<in> set (split_slash path) \<Longrightarrow> CHR ''/'' \<notin> set s \<and> length s \<le> length path"
proof (induction path rule: split_slash.induct)
  case (1 path)
  show ?case
  proof (cases "path = []")
    case False
    let ?r = "drop 1 (dropWhile (\<lambda>c. c \<noteq> CHR ''/'') path)"
    have len: "length ?r \<le> length path"
      using length_dropWhile_le [of "\<lambda>c. c \<noteq> CHR ''/''" path] by simp
    from "1.prems" False consider "s = takeWhile (\<lambda>c. c \<noteq> CHR ''/'') path" | "s \<in> set (split_slash ?r)"
      by (subst (asm) split_slash.simps) auto
    then show ?thesis
    proof cases
      case 1
      then show ?thesis by (auto simp: length_takeWhile_le dest: set_takeWhileD)
    next
      case 2
      with "1.IH" False have "CHR ''/'' \<notin> set s \<and> length s \<le> length ?r" by blast
      with len show ?thesis by linarith
    qed
  qed (use "1.prems" in simp)
qed

lemma path_segments_fit:
  "s \<in> set (path_segments path) \<Longrightarrow> fits path \<Longrightarrow> CHR ''/'' \<notin> set s \<and> fits s"
  by (fastforce simp: path_segments_def split: list.splits if_splits dest: path_segments_props)

lemma parse_elem_throws: "parse_elem s = Inl e \<Longrightarrow>
    e \<in> {empty_element, missing_bracket, empty_name, bad_pair}"
  by (auto simp: parse_elem_def Let_def split: if_splits option.splits)

lemma traverse_Inl_mem: "traverse f xs = Inl e \<Longrightarrow> \<exists>x \<in> set xs. f x = Inl e"
  by (induction xs) (auto simp: result_simps)

lemma string_to_gnmipath_Inr_iff: "string_to_gnmipath path = Inr p \<longleftrightarrow>
    path_origin_of p = [] \<and>
    list_all2 (\<lambda>s e. parse_elem s = Inr e) (path_segments path) (path_elems p)"
  by (cases p) (auto simp: string_to_gnmipath_spec result_simps traverse_Inr_iff)

lemma string_to_gnmipath_Inl: "string_to_gnmipath path = Inl e \<Longrightarrow>
    \<exists>s \<in> set (path_segments path). parse_elem s = Inl e"
  by (auto simp: string_to_gnmipath_spec result_simps dest: traverse_Inl_mem)

lemma empty_segment: "[] \<in> set (split_slash (s @ ''//'' @ t))"
proof (induction s rule: split_slash.induct)
  case (1 s)
  show ?case
  proof (cases "s = [] \<or> CHR ''/'' \<notin> set s")
    case True
    have eq: "s @ ''//'' @ t = s @ CHR ''/'' # CHR ''/'' # t" by simp
    have "split_slash (s @ ''//'' @ t) = s # split_slash (CHR ''/'' # t)"
      unfolding eq by (rule split_slash_append) (use True in auto)
    moreover have "split_slash (CHR ''/'' # t) = [] # split_slash t"
      using split_slash_append [of "[]" t] by simp
    ultimately show ?thesis by simp
  next
    case False
    then obtain x y where s: "s = x @ CHR ''/'' # y" "CHR ''/'' \<notin> set x"
      by (meson split_list_first)
    with False "1.IH" have "[] \<in> set (split_slash (y @ ''//'' @ t))"
      by (simp add: dropWhile_neq_append)
    with s show ?thesis by simp
  qed
qed

section \<open>Properties\<close>

text \<open>
  A path the printer and the parser agree on: every element has a name and at most one key, and
  no part contains a character that the notation gives a meaning at that place.
\<close>

definition printable_elem :: "path_elem \<Rightarrow> bool" where
  "printable_elem e \<longleftrightarrow>
     elem_name e \<noteq> [] \<and> CHR ''/'' \<notin> set (elem_name e) \<and> CHR ''['' \<notin> set (elem_name e) \<and>
     (case elem_key e of
        [] \<Rightarrow> True
      | [(k, v)] \<Rightarrow> CHR '']'' \<notin> set (elem_name e) \<and>
          k \<noteq> [] \<and> CHR ''/'' \<notin> set k \<and> CHR ''='' \<notin> set k \<and> CHR '']'' \<notin> set k \<and>
          v \<noteq> [] \<and> CHR ''/'' \<notin> set v \<and> CHR '']'' \<notin> set v
      | _ \<Rightarrow> False)"

lemma printable_elem_cases:
  assumes "printable_elem e"
  obtains (plain) n where "e = \<lparr>elem_name = n, elem_key = []\<rparr>"
      "n \<noteq> []" "CHR ''/'' \<notin> set n" "CHR ''['' \<notin> set n"
  | (keyed) n k v where "e = \<lparr>elem_name = n, elem_key = [(k, v)]\<rparr>"
      "n \<noteq> []" "CHR ''/'' \<notin> set n" "CHR ''['' \<notin> set n" "CHR '']'' \<notin> set n"
      "k \<noteq> []" "CHR ''/'' \<notin> set k" "CHR ''='' \<notin> set k" "CHR '']'' \<notin> set k"
      "v \<noteq> []" "CHR ''/'' \<notin> set v" "CHR '']'' \<notin> set v"
proof -
  obtain n ks where e: "e = \<lparr>elem_name = n, elem_key = ks\<rparr>" by (cases e) simp
  show thesis
  proof (cases ks)
    case Nil
    with e assms show ?thesis by (intro plain [of n]) (simp_all add: printable_elem_def)
  next
    case (Cons kv rest)
    obtain k v where "kv = (k, v)" by force
    with Cons e assms have "ks = [(k, v)]"
      by (cases rest) (simp_all add: printable_elem_def)
    with e assms show ?thesis by (intro keyed [of n k v]) (simp_all add: printable_elem_def)
  qed
qed

lemma printable_elem_parse:
  assumes "printable_elem e" "fits (elem_to_string e)"
  shows "CHR ''/'' \<notin> set (tl (elem_to_string e)) \<and> tl (elem_to_string e) \<noteq> [] \<and>
    parse_elem (tl (elem_to_string e)) = Inr e"
  using assms(1)
proof (cases rule: printable_elem_cases)
  case (plain n)
  then show ?thesis by (simp add: elem_to_string_def parse_elem_plain)
next
  case (keyed n k v)
  have shown: "tl (elem_to_string e) = n @ ''['' @ (k @ ''='' @ v) @ '']'' @ []"
    using keyed(1) by (simp add: elem_to_string_def key_to_string_def)
  have "fits (tl (elem_to_string e))"
    using assms(2) by (simp add: elem_to_string_def)
  with keyed have "parse_elem (tl (elem_to_string e)) = parse_pair n (k @ ''='' @ v)"
    unfolding shown by (intro parse_elem_keyed) simp_all
  with keyed shown show ?thesis by (simp add: parse_pair_accepts)
qed

lemma split_slash_printed:
  "(\<And>e. e \<in> set es \<Longrightarrow> printable_elem e \<and> fits (elem_to_string e)) \<Longrightarrow>
     path_segments (concat (map elem_to_string es)) = map (\<lambda>e. tl (elem_to_string e)) es"
proof (induction es)
  case (Cons e es)
  obtain t where e: "elem_to_string e = CHR ''/'' # t"
    by (simp add: elem_to_string_def)
  have t: "CHR ''/'' \<notin> set t" "t \<noteq> []"
    using Cons.prems [of e] printable_elem_parse [of e] e by simp_all
  have IH: "path_segments (concat (map elem_to_string es)) = map (\<lambda>e. tl (elem_to_string e)) es"
    using Cons by simp
  show ?case
  proof (cases es)
    case Nil
    with t show ?thesis by (simp add: e path_segments_def)
  next
    case (Cons e' es')
    then obtain r where "concat (map elem_to_string es) = CHR ''/'' # r"
      by (simp add: elem_to_string_def)
    with IH t show ?thesis by (simp add: e path_segments_def)
  qed
qed (simp add: path_segments_def)

lemma fits_elem: "fits (gnmipath_to_string p) \<Longrightarrow> e \<in> set (path_elems p) \<Longrightarrow>
    fits (elem_to_string e)"
  by (induction "path_elems p" arbitrary: p)
    (auto simp: gnmipath_to_string_def dest!: split_list)

lemma path_print_parse_printable:
  assumes "list_all printable_elem (path_elems p)" and "path_origin_of p = ''''"
    and "fits (gnmipath_to_string p)"
  shows "string_to_gnmipath (gnmipath_to_string p) = Inr p"
proof -
  have es: "printable_elem e \<and> fits (elem_to_string e)" if "e \<in> set (path_elems p)" for e
    using that assms fits_elem by (auto simp: list_all_iff)
  have "path_segments (gnmipath_to_string p) = map (\<lambda>e. tl (elem_to_string e)) (path_elems p)"
    using es by (simp add: gnmipath_to_string_def split_slash_printed)
  moreover have "traverse parse_elem (map (\<lambda>e. tl (elem_to_string e)) (path_elems p)) =
      Inr (path_elems p)"
    using es printable_elem_parse by (intro traverse_map_Inr) blast
  ultimately show ?thesis
    using assms(2) by (cases p) (simp add: string_to_gnmipath_spec)
qed

text \<open>
  C10: printing a path and parsing the text gives the path back, for every path without an origin
  (the notation does not print it) whose elements are printable.
\<close>

theorem path_print_parse_roundtrip:
  assumes "list_all printable_elem (path_elems p)" and "path_origin_of p = ''''"
    and "fits (gnmipath_to_string p)"
  shows "string_to_gnmipath (gnmipath_to_string p) = Inr p"
  using assms by (rule path_print_parse_printable)

definition interface_path :: gnmi_path where
  "interface_path = \<lparr>path_origin_of = '''', path_elems =
     [\<lparr>elem_name = ''interfaces'', elem_key = []\<rparr>,
      \<lparr>elem_name = ''interface'', elem_key = [(''name'', ''eth0'')]\<rparr>]\<rparr>"

theorem path_print_parse_roundtrip_witness:
  "string_to_gnmipath (gnmipath_to_string interface_path) = Inr interface_path \<and>
   gnmipath_to_string interface_path = ''/interfaces/interface[name=eth0]''"
proof -
  have shown: "gnmipath_to_string interface_path = ''/interfaces/interface[name=eth0]''"
    by (simp add: interface_path_def gnmipath_to_string_def elem_to_string_def key_to_string_def)
  have "list_all printable_elem (path_elems interface_path)"
    and "path_origin_of interface_path = ''''"
    by (simp_all add: interface_path_def printable_elem_def)
  moreover have "fits (gnmipath_to_string interface_path)"
    by (simp add: shown)
  ultimately show ?thesis
    using path_print_parse_roundtrip [of interface_path] shown by blast
qed

text \<open>
  C11: the index loop of the parser computes its specification: the elements are the texts between
  the slashes, each read by \<open>parse_elem\<close>, and the first element that is malformed decides the error.
\<close>

theorem string_to_gnmipath_refines_segments:
  "string_to_gnmipath path =
     (case traverse parse_elem (path_segments path) of
        Inl e \<Rightarrow> Inl e
      | Inr es \<Rightarrow> Inr \<lparr>path_origin_of = '''', path_elems = es\<rparr>)"
  by (cases "traverse parse_elem (path_segments path)") (simp_all add: string_to_gnmipath_spec)


definition key_path :: gnmi_path where
  "key_path = \<lparr>path_origin_of = '''', path_elems =
     [\<lparr>elem_name = ''a'', elem_key = [(''k'', ''v'')]\<rparr>, \<lparr>elem_name = ''b'', elem_key = []\<rparr>]\<rparr>"

lemma parse_key_path: "string_to_gnmipath ''a[k=v]/b/'' = Inr key_path"
  by (simp add: string_to_gnmipath_def parse_loop.simps element_end_def find_from_def substr_def
      parse_elem_def usize_sub_def key_path_def Let_def)


lemma traverse_Inl_ex: "x \<in> set xs \<Longrightarrow> f x = Inl e \<Longrightarrow> \<exists>e'. traverse f xs = Inl e'"
  by (induction xs) (auto simp: result_simps, metis old.sum.exhaust)

lemma double_slash_segment: "[] \<in> set (path_segments (s @ ''//'' @ t))"
proof (cases s)
  case Nil
  have "split_slash (CHR ''/'' # t) = [] # split_slash t"
    using split_slash_append [of "[]" t] by simp
  with Nil show ?thesis by (simp add: path_segments_def)
next
  case (Cons c s')
  then show ?thesis
    using empty_segment [of s' t] empty_segment [of s t] by (simp add: path_segments_def)
qed

text \<open>
  A path with two slashes in a row is rejected wherever they stand, and the only exceptions the
  parser throws are its four \<open>std::invalid_argument\<close> errors.
\<close>

lemma string_to_gnmipath_rejects_empty_element:
  "\<exists>e. string_to_gnmipath (s @ ''//'' @ t) = Inl e \<and>
     e \<in> {empty_element, missing_bracket, empty_name, bad_pair}"
proof -
  have "parse_elem [] = Inl empty_element" by (simp add: parse_elem_def)
  from traverse_Inl_ex [of "[]" _ parse_elem, OF double_slash_segment this]
  obtain e where "traverse parse_elem (path_segments (s @ ''//'' @ t)) = Inl e" ..
  then have fails: "string_to_gnmipath (s @ ''//'' @ t) = Inl e"
    by (simp add: string_to_gnmipath_spec)
  from string_to_gnmipath_Inl [OF fails]
  obtain x where "parse_elem x = Inl e" by blast
  then have "e \<in> {empty_element, missing_bracket, empty_name, bad_pair}"
    by (rule parse_elem_throws)
  with fails show ?thesis by blast
qed

text \<open>
  An element with a name \<open>n\<close>, an opening bracket, a text \<open>kv\<close> and a closing bracket is read as
  the name with the pair \<open>kv\<close> split at its first equals sign, and everything after the first
  closing bracket is dropped without an error: the second key of a path element never reaches the
  request. Without a name, or without the closing bracket, the element is rejected.
\<close>

lemma parse_elem_reads_first_pair_only:
  assumes "CHR ''['' \<notin> set n" "CHR '']'' \<notin> set n" "CHR '']'' \<notin> set kv"
    and "fits (n @ ''['' @ kv @ '']'' @ junk)"
  shows "parse_elem (n @ ''['' @ kv @ '']'' @ junk) =
           (if n = '''' then Inl empty_name else parse_pair n kv) \<and>
         parse_elem (n @ ''['' @ kv) = Inl missing_bracket"
proof
  show "parse_elem (n @ ''['' @ kv @ '']'' @ junk) =
          (if n = '''' then Inl empty_name else parse_pair n kv)"
    using assms parse_elem_keyed [of n kv junk] by (auto simp: parse_elem_empty_name)
  show "parse_elem (n @ ''['' @ kv) = Inl missing_bracket"
    using assms(2,3) by (intro parse_elem_no_close) simp_all
qed

lemma parse_elem_reads_first_pair_only_example:
  "parse_elem ''rule[a=1][b=2]'' = Inr \<lparr>elem_name = ''rule'', elem_key = [(''a'', ''1'')]\<rparr> \<and>
   parse_elem ''rule[a=1'' = Inl missing_bracket"
  using parse_elem_reads_first_pair_only [of "''rule''" "''a=1''" "''[b=2]''"]
  by (simp add: parse_pair_def find_from_def)

text \<open>
  C31: a closing bracket that stands before the opening one counts as its partner. The length of
  the pair then wraps modulo \<open>2 ^ 64\<close>, and the element is accepted with the rest of its text as the
  pair, although no bracket closes it.
\<close>

theorem parse_elem_accepts_unclosed_bracket:
  assumes "CHR ''['' \<notin> set n" "CHR '']'' \<in> set n" "k \<noteq> ''''" "CHR ''='' \<notin> set k" "v \<noteq> ''''"
    and "fits (n @ ''['' @ k @ ''='' @ v)"
  shows "parse_elem (n @ ''['' @ k @ ''='' @ v) = Inr \<lparr>elem_name = n, elem_key = [(k, v)]\<rparr>"
  using assms parse_elem_bracket_order [of n "k @ ''='' @ v"] by (simp add: parse_pair_accepts)

theorem parse_elem_accepts_unclosed_bracket_witness:
  "parse_elem ''a]b[c=d'' = Inr \<lparr>elem_name = ''a]b'', elem_key = [(''c'', ''d'')]\<rparr>"
  using parse_elem_accepts_unclosed_bracket [of "''a]b''" "''c''" "''d''"] by simp

definition brackets_ordered :: "string \<Rightarrow> bool" where
  "brackets_ordered s \<longleftrightarrow>
     CHR ''['' \<notin> set s \<or> CHR '']'' \<notin> set (takeWhile (\<lambda>c. c \<noteq> CHR ''['') s)"

lemma parse_elem_printable:
  assumes "parse_elem s = Inr e" "fits s" "CHR ''/'' \<notin> set s" "brackets_ordered s"
  shows "printable_elem e"
  using assms(1,2)
proof (cases rule: parse_elem_Inr_cases)
  case plain
  with assms(3) show ?thesis by (simp add: printable_elem_def)
next
  case (keyed n k v junk)
  with assms(3) show ?thesis by (simp add: printable_elem_def)
next
  case (reversed n k v)
  then have "takeWhile (\<lambda>c. c \<noteq> CHR ''['') s = n"
    by (simp add: takeWhile_neq_append)
  with reversed assms(4) show ?thesis by (simp add: brackets_ordered_def)
qed

text \<open>
  Parsing is a normalisation. Where the brackets of every element are in order, the path read
  from a text, printed and read again, is the same path: a missing leading slash, a trailing slash
  and the text after a closing bracket are all that the first reading can lose.
\<close>

lemma path_parse_print_parse:
  assumes "string_to_gnmipath s = Inr p" and "fits s" and "fits (gnmipath_to_string p)"
    and "list_all brackets_ordered (path_segments s)"
  shows "string_to_gnmipath (gnmipath_to_string p) = Inr p"
proof -
  have "printable_elem e" if "e \<in> set (path_elems p)" for e
  proof -
    from that assms(1) obtain x where "x \<in> set (path_segments s)" "parse_elem x = Inr e"
      by (auto simp: string_to_gnmipath_Inr_iff dest: list_all2_in_right)
    with assms(2,4) path_segments_fit show ?thesis
      by (metis list_all_iff parse_elem_printable)
  qed
  then have "list_all printable_elem (path_elems p)"
    by (simp add: list_all_iff)
  moreover have "path_origin_of p = ''''"
    using assms(1) by (simp add: string_to_gnmipath_Inr_iff)
  ultimately show ?thesis
    using assms(3) path_print_parse_printable by blast
qed

lemma path_parse_print_parse_example:
  "string_to_gnmipath ''a[k=v]/b/'' = Inr key_path \<and>
   string_to_gnmipath (gnmipath_to_string key_path) = Inr key_path"
proof -
  have "path_segments ''a[k=v]/b/'' = [''a[k=v]'', ''b'']"
    using split_slash_append [of "''a[k=v]''" "''b/''"] split_slash_append [of "''b''" "[]"]
    by (simp add: path_segments_def)
  then have "list_all brackets_ordered (path_segments ''a[k=v]/b/'')"
    by (simp add: brackets_ordered_def)
  moreover have "fits (gnmipath_to_string key_path)"
    by (simp add: key_path_def gnmipath_to_string_def elem_to_string_def key_to_string_def)
  ultimately show ?thesis
    using path_parse_print_parse [OF parse_key_path] parse_key_path by simp
qed

end
