(* ===== verification/Pbr.thy ===== *)
theory Pbr
  imports Gnmi_Path Logger
begin

text \<open>
  The PBR counters (\<^verbatim>\<open>mgbl_api/include/mgbl_api.h\<close>, \<^verbatim>\<open>pbr/mgbl_pbr.h\<close>, \<^verbatim>\<open>src/pbr/mgbl_pbr.cpp\<close>).
  A statistics record is filled from a map of flattened paths to texts; a counter object holds the
  keys of the request and the records received. The client reaches it only through the virtual
  functions of \<^verbatim>\<open>PBRBase\<close>: they are the table \<open>pbr_vtable\<close>, the laws the client relies on are the
  locale \<open>pbr_base\<close>, and the table of \<^verbatim>\<open>PBRBasic\<close> interprets it.
\<close>

section \<open>Statistics\<close>

record pbr_basic_stat =
  policy_name :: string
  rule_name :: string
  byte_count :: "64 word"
  packet_count :: "64 word"
  collection_timestamp_seconds :: "64 word"
  collection_timestamp_nanoseconds :: "64 word"
  path_grp_name :: string
  policy_action_type :: string

definition default_pbr_basic_stat :: pbr_basic_stat where
  "default_pbr_basic_stat =
     \<lparr>policy_name = '''', rule_name = '''', byte_count = 0, packet_count = 0,
      collection_timestamp_seconds = 0, collection_timestamp_nanoseconds = 0,
      path_grp_name = '''', policy_action_type = ''''\<rparr>"

text \<open>
  An object of a class derived from \<^verbatim>\<open>IPbrStat\<close>: a \<^verbatim>\<open>PbrBasicStat\<close>, or one of another class,
  of which nothing is known here. A \<^verbatim>\<open>std::shared_ptr<IPbrStat>\<close> is an option, null is \<open>None\<close>.
\<close>

datatype ipbr_stat = BasicStat pbr_basic_stat | ForeignStat nat

type_synonym string_map = "string \<rightharpoonup> string"

text \<open>
  The two shapes of the eight lookups: a text field is assigned when the key is present, a counter
  is assigned the value of \<^verbatim>\<open>std::stoull\<close>, whose exceptions the function lets pass.
\<close>

definition read_text ::
  "string_map \<Rightarrow> string \<Rightarrow> (string \<Rightarrow> pbr_basic_stat \<Rightarrow> pbr_basic_stat) \<Rightarrow>
     pbr_basic_stat \<Rightarrow> pbr_basic_stat" where
  "read_text m key assign st = (case m key of None \<Rightarrow> st | Some text \<Rightarrow> assign text st)"

definition read_counter ::
  "string_map \<Rightarrow> string \<Rightarrow> (64 word \<Rightarrow> pbr_basic_stat \<Rightarrow> pbr_basic_stat) \<Rightarrow>
     pbr_basic_stat \<Rightarrow> pbr_basic_stat result" where
  "read_counter m key assign st =
     (case m key of
        None \<Rightarrow> Inr st
      | Some text \<Rightarrow> bind_result (stoull text) (\<lambda>n. Inr (assign n st)))"

definition map_to_basic_stat :: "string_map \<Rightarrow> pbr_basic_stat result" where
  "map_to_basic_stat m =
     (let st = read_text m ''policy_name'' (\<lambda>t s. s\<lparr>policy_name := t\<rparr>) default_pbr_basic_stat;
          st = read_text m ''rule_name'' (\<lambda>t s. s\<lparr>rule_name := t\<rparr>) st
      in bind_result (read_counter m ''/fib-stats/byte-count''
           (\<lambda>n s. s\<lparr>byte_count := n\<rparr>) st) (\<lambda>st.
         bind_result (read_counter m ''/fib-stats/packet-count''
           (\<lambda>n s. s\<lparr>packet_count := n\<rparr>) st) (\<lambda>st.
         bind_result (read_counter m ''/fib-stats/collection-timestamp/seconds''
           (\<lambda>n s. s\<lparr>collection_timestamp_seconds := n\<rparr>) st) (\<lambda>st.
         bind_result (read_counter m ''/fib-stats/collection-timestamp/nano-seconds''
           (\<lambda>n s. s\<lparr>collection_timestamp_nanoseconds := n\<rparr>) st) (\<lambda>st.
         let st = read_text m ''/paction/policy-rule-action/act-un/path-grp-name''
                    (\<lambda>t s. s\<lparr>path_grp_name := t\<rparr>) st;
             st = read_text m ''/paction/policy-rule-action/act-un/type''
                    (\<lambda>t s. s\<lparr>policy_action_type := t\<rparr>) st
         in Inr st)))))"

text \<open>\<^verbatim>\<open>PBRBasic::unordered_map_to_stats\<close> returns the record behind a pointer to its base class.\<close>

definition unordered_map_to_stats :: "string_map \<Rightarrow> ipbr_stat option result" where
  "unordered_map_to_stats m = bind_result (map_to_basic_stat m) (\<lambda>st. Inr (Some (BasicStat st)))"

section \<open>Keys and paths\<close>

record pbr_key =
  key_policy :: string
  key_rule :: string

definition path_origin :: string where
  "path_origin = ''Cisco-IOS-XR-pbr-fwd-stats-oper''"

definition pbr_key_path :: "pbr_key \<Rightarrow> string" where
  "pbr_key_path key =
     path_origin @ '':pbr-stats/policy-maps/policy-map[policy-name='' @ key_policy key @
     '']/rule-names/rule-name[rule-name='' @ key_rule key @ '']/''"

definition get_gnmi_paths :: "pbr_key list \<Rightarrow> string list" where
  "get_gnmi_paths ks = map pbr_key_path ks"

section \<open>The counter object and its virtual functions\<close>

record pbr_basic =
  pbr_keys :: "pbr_key list"
  pbr_stats :: "pbr_basic_stat list"

definition add_stats :: "ipbr_stat option \<Rightarrow> pbr_basic \<Rightarrow> log_entry list \<times> pbr_basic" where
  "add_stats p c =
     (case p of
        Some (BasicStat st) \<Rightarrow> ([], c\<lparr>pbr_stats := pbr_stats c @ [st]\<rparr>)
      | _ \<Rightarrow> ([(''Failed to add stat: incompatible type.'', ERROR)], c))"

text \<open>The name, the paths, the conversion and the insertion, over counter objects \<open>'c\<close> and statistics \<open>'s\<close>.\<close>

record ('c, 's) pbr_vtable =
  vt_name :: "'c \<Rightarrow> string"
  vt_paths :: "'c \<Rightarrow> string list"
  vt_to_stats :: "'c \<Rightarrow> string_map \<Rightarrow> 's option result"
  vt_add_stats :: "'s option \<Rightarrow> 'c \<Rightarrow> log_entry list \<times> 'c"

definition pbr_basic_vt :: "(pbr_basic, ipbr_stat) pbr_vtable" where
  "pbr_basic_vt =
     \<lparr>vt_name = (\<lambda>_. ''pbr''),
      vt_paths = (\<lambda>c. get_gnmi_paths (pbr_keys c)),
      vt_to_stats = (\<lambda>_. unordered_map_to_stats),
      vt_add_stats = add_stats\<rparr>"

lemma pbr_basic_vt_simps [simp]:
  "vt_name pbr_basic_vt c = ''pbr''"
  "vt_paths pbr_basic_vt c = get_gnmi_paths (pbr_keys c)"
  "vt_to_stats pbr_basic_vt c = unordered_map_to_stats"
  "vt_add_stats pbr_basic_vt = add_stats"
  by (simp_all add: pbr_basic_vt_def)

text \<open>
  What a client may rely on: the records of an object are a list (\<open>records\<close>), inserting what a
  conversion returned appends exactly the record the map describes (\<open>conv\<close>) and reports nothing,
  and an insertion changes neither the name nor the paths.
\<close>

locale pbr_base =
  fixes vt :: "('c, 's) pbr_vtable"
    and records :: "'c \<Rightarrow> 'r list"
    and conv :: "string_map \<Rightarrow> 'r result"
  assumes to_stats_fails: "vt_to_stats vt c m = Inl e \<longleftrightarrow> conv m = Inl e"
    and add_converted: "vt_to_stats vt c m = Inr s \<Longrightarrow> conv m = Inr r \<Longrightarrow>
      records (snd (vt_add_stats vt s c')) = records c' @ [r] \<and> fst (vt_add_stats vt s c') = []"
    and add_keeps_name: "vt_name vt (snd (vt_add_stats vt s c)) = vt_name vt c"
    and add_keeps_paths: "vt_paths vt (snd (vt_add_stats vt s c)) = vt_paths vt c"
begin

lemma to_stats_converts: "vt_to_stats vt c m = Inr s \<Longrightarrow> \<exists>r. conv m = Inr r"
  by (metis old.sum.exhaust sum.distinct(1) to_stats_fails)

lemma add_appends:
  assumes "vt_to_stats vt c m = Inr s"
  obtains r where "conv m = Inr r" "records (snd (vt_add_stats vt s c')) = records c' @ [r]"
    "fst (vt_add_stats vt s c') = []"
  using assms to_stats_converts add_converted by metis

end

interpretation basic_counters: pbr_base pbr_basic_vt pbr_stats map_to_basic_stat
  by unfold_locales
    (auto simp: pbr_basic_vt_def unordered_map_to_stats_def add_stats_def result_simps
      split: ipbr_stat.splits option.splits)

section \<open>What a record holds\<close>

definition text_or_empty :: "string_map \<Rightarrow> string \<Rightarrow> string" where
  "text_or_empty m key = (case m key of None \<Rightarrow> '''' | Some text \<Rightarrow> text)"

definition counter_or_zero :: "string_map \<Rightarrow> string \<Rightarrow> (64 word) result" where
  "counter_or_zero m key = (case m key of None \<Rightarrow> Inr 0 | Some text \<Rightarrow> stoull text)"

definition counter_keys :: "string list" where
  "counter_keys =
     [''/fib-stats/byte-count'', ''/fib-stats/packet-count'',
      ''/fib-stats/collection-timestamp/seconds'',
      ''/fib-stats/collection-timestamp/nano-seconds'']"

definition describes :: "string_map \<Rightarrow> pbr_basic_stat \<Rightarrow> bool" where
  "describes m st \<longleftrightarrow>
     policy_name st = text_or_empty m ''policy_name'' \<and>
     rule_name st = text_or_empty m ''rule_name'' \<and>
     counter_or_zero m ''/fib-stats/byte-count'' = Inr (byte_count st) \<and>
     counter_or_zero m ''/fib-stats/packet-count'' = Inr (packet_count st) \<and>
     counter_or_zero m ''/fib-stats/collection-timestamp/seconds'' =
       Inr (collection_timestamp_seconds st) \<and>
     counter_or_zero m ''/fib-stats/collection-timestamp/nano-seconds'' =
       Inr (collection_timestamp_nanoseconds st) \<and>
     path_grp_name st = text_or_empty m ''/paction/policy-rule-action/act-un/path-grp-name'' \<and>
     policy_action_type st = text_or_empty m ''/paction/policy-rule-action/act-un/type''"

lemma read_text_eq: "assign '''' st = st \<Longrightarrow> read_text m key assign st = assign (text_or_empty m key) st"
  by (simp add: read_text_def text_or_empty_def split: option.splits)

lemma read_counter_eq: "assign 0 st = st \<Longrightarrow>
    read_counter m key assign st =
      bind_result (counter_or_zero m key) (\<lambda>n. Inr (assign n st))"
  by (simp add: read_counter_def counter_or_zero_def split: option.splits)

text \<open>The eight lookups in closed form: four counters in order, then the record.\<close>

lemma map_to_basic_stat_eq:
  "map_to_basic_stat m =
     bind_result (counter_or_zero m ''/fib-stats/byte-count'') (\<lambda>b.
     bind_result (counter_or_zero m ''/fib-stats/packet-count'') (\<lambda>p.
     bind_result (counter_or_zero m ''/fib-stats/collection-timestamp/seconds'') (\<lambda>s.
     bind_result (counter_or_zero m ''/fib-stats/collection-timestamp/nano-seconds'') (\<lambda>n.
     Inr \<lparr>policy_name = text_or_empty m ''policy_name'',
          rule_name = text_or_empty m ''rule_name'',
          byte_count = b, packet_count = p,
          collection_timestamp_seconds = s, collection_timestamp_nanoseconds = n,
          path_grp_name = text_or_empty m ''/paction/policy-rule-action/act-un/path-grp-name'',
          policy_action_type = text_or_empty m ''/paction/policy-rule-action/act-un/type''\<rparr>))))"
  by (simp add: map_to_basic_stat_def default_pbr_basic_stat_def read_text_eq read_counter_eq
      result_simps Let_def)

lemma map_to_basic_stat_Inr_iff: "map_to_basic_stat m = Inr st \<longleftrightarrow> describes m st"
  by (cases st) (auto simp: map_to_basic_stat_eq describes_def result_simps)

lemma map_to_basic_stat_Inl:
  "map_to_basic_stat m = Inl e \<Longrightarrow> \<exists>k \<in> set counter_keys. counter_or_zero m k = Inl e"
  by (auto simp: map_to_basic_stat_eq counter_keys_def result_simps)

lemma map_to_basic_stat_fails_iff:
  "(\<exists>e. map_to_basic_stat m = Inl e) \<longleftrightarrow> (\<exists>k \<in> set counter_keys. \<exists>e. counter_or_zero m k = Inl e)"
proof
  assume "\<exists>k \<in> set counter_keys. \<exists>e. counter_or_zero m k = Inl e"
  then have "\<nexists>st. map_to_basic_stat m = Inr st"
    by (auto simp: map_to_basic_stat_Inr_iff describes_def counter_keys_def)
  then show "\<exists>e. map_to_basic_stat m = Inl e"
    by (metis old.sum.exhaust)
qed (blast dest: map_to_basic_stat_Inl)

lemma unordered_map_to_stats_describes_eq:
  "unordered_map_to_stats m = Inr (Some (BasicStat st)) \<longleftrightarrow> describes m st"
  by (auto simp: unordered_map_to_stats_def result_simps map_to_basic_stat_Inr_iff)

text \<open>
  C15: a record describes its map. The conversion returns a record exactly when the two names, the
  group and the action are the texts of the map (empty where a key is missing) and each of the four
  counters is what \<open>std::stoull\<close> reads (zero where its key is missing); no other key matters.
\<close>

theorem unordered_map_to_stats_describes:
  "unordered_map_to_stats m = Inr (Some (BasicStat st)) \<longleftrightarrow> describes m st"
  by (rule unordered_map_to_stats_describes_eq)

text \<open>
  C32: the conversion throws exactly when one of the four counter texts is no number or exceeds 64
  bits, and what it throws is the exception of \<open>std::stoull\<close>: a text the decoders put there for a
  value of another type (\<open>unsupported_type\<close>, \<open>true\<close>, a group name) is enough.
\<close>

theorem unordered_map_to_stats_throws_iff:
  "(\<exists>e. unordered_map_to_stats m = Inl e) \<longleftrightarrow>
     (\<exists>k \<in> set counter_keys. \<exists>t. m k = Some t \<and>
        (stoull t = Inl (Invalid_argument ''stoull'') \<or> stoull t = Inl (Out_of_range ''stoull'')))"
proof -
  have "(\<exists>e. counter_or_zero m k = Inl e) \<longleftrightarrow> (\<exists>t. m k = Some t \<and>
        (stoull t = Inl (Invalid_argument ''stoull'') \<or> stoull t = Inl (Out_of_range ''stoull'')))" for k
    by (auto simp: counter_or_zero_def stoull_def Let_def split: option.splits prod.splits if_splits)
  then show ?thesis
    by (simp add: unordered_map_to_stats_def result_simps map_to_basic_stat_fails_iff)
qed

section \<open>The paths of the keys\<close>

text \<open>The path a key stands for; a key is plain when the notation can carry its two parts.\<close>

definition pbr_request_path :: "pbr_key \<Rightarrow> gnmi_path" where
  "pbr_request_path key = \<lparr>path_origin_of = '''', path_elems =
     [\<lparr>elem_name = path_origin @ '':pbr-stats'', elem_key = []\<rparr>,
      \<lparr>elem_name = ''policy-maps'', elem_key = []\<rparr>,
      \<lparr>elem_name = ''policy-map'', elem_key = [(''policy-name'', key_policy key)]\<rparr>,
      \<lparr>elem_name = ''rule-names'', elem_key = []\<rparr>,
      \<lparr>elem_name = ''rule-name'', elem_key = [(''rule-name'', key_rule key)]\<rparr>]\<rparr>"

definition plain_key :: "pbr_key \<Rightarrow> bool" where
  "plain_key key \<longleftrightarrow>
     key_policy key \<noteq> '''' \<and> CHR ''/'' \<notin> set (key_policy key) \<and> CHR '']'' \<notin> set (key_policy key) \<and>
     key_rule key \<noteq> '''' \<and> CHR ''/'' \<notin> set (key_rule key) \<and> CHR '']'' \<notin> set (key_rule key)"

lemma pbr_key_path_segments:
  assumes "CHR ''/'' \<notin> set (key_policy key)" "CHR ''/'' \<notin> set (key_rule key)"
  shows "path_segments (pbr_key_path key) =
    [path_origin @ '':pbr-stats'', ''policy-maps'',
     ''policy-map['' @ (''policy-name='' @ key_policy key) @ '']'' @ [],
     ''rule-names'',
     ''rule-name['' @ (''rule-name='' @ key_rule key) @ '']'' @ []]"
proof -
  define a where "a = path_origin @ '':pbr-stats''"
  define b where "b = ''policy-maps''"
  define c where "c = ''policy-map['' @ (''policy-name='' @ key_policy key) @ '']'' @ []"
  define d where "d = ''rule-names''"
  define e where "e = ''rule-name['' @ (''rule-name='' @ key_rule key) @ '']'' @ []"
  note defs = a_def b_def c_def d_def e_def
  have path: "pbr_key_path key = a @ CHR ''/'' # b @ CHR ''/'' # c @ CHR ''/'' # d @ CHR ''/'' # e @ CHR ''/'' # []"
    by (simp add: pbr_key_path_def defs)
  have no_slash: "CHR ''/'' \<notin> set a" "CHR ''/'' \<notin> set b" "CHR ''/'' \<notin> set c" "CHR ''/'' \<notin> set d"
    "CHR ''/'' \<notin> set e"
    using assms by (simp_all add: defs path_origin_def)
  have "\<exists>r. pbr_key_path key = CHR ''C'' # r"
    by (simp add: pbr_key_path_def path_origin_def)
  then have "path_segments (pbr_key_path key) = split_slash (pbr_key_path key)"
    by (auto simp: path_segments_def)
  also have "\<dots> = [a, b, c, d, e]"
    using no_slash by (simp add: path)
  finally show ?thesis by (simp only: defs)
qed

lemma parse_keyed_value:
  assumes "CHR ''['' \<notin> set n" "CHR '']'' \<notin> set n" "n \<noteq> []"
    "CHR ''='' \<notin> set k" "CHR '']'' \<notin> set k" "k \<noteq> []" "CHR '']'' \<notin> set v" "v \<noteq> []"
    "fits (n @ ''['' @ (k @ ''='' @ v) @ '']'' @ [])"
  shows "parse_elem (n @ ''['' @ (k @ ''='' @ v) @ '']'' @ []) =
    Inr \<lparr>elem_name = n, elem_key = [(k, v)]\<rparr>"
  using assms parse_elem_keyed [of n "k @ ''='' @ v" "[]"] parse_pair_accepts [of k v n] by simp

lemma parse_pbr_key_path:
  assumes "plain_key key" "fits (pbr_key_path key)"
  shows "string_to_gnmipath (pbr_key_path key) = Inr (pbr_request_path key)"
proof -
  have segments: "path_segments (pbr_key_path key) =
    [path_origin @ '':pbr-stats'', ''policy-maps'',
     ''policy-map'' @ ''['' @ (''policy-name'' @ ''='' @ key_policy key) @ '']'' @ [],
     ''rule-names'',
     ''rule-name'' @ ''['' @ (''rule-name'' @ ''='' @ key_rule key) @ '']'' @ []]"
    using pbr_key_path_segments [of key] assms(1) by (simp add: plain_key_def)
  have size: "length (key_policy key) + length (key_rule key) + 50 < 2 ^ 63"
    using assms(2) by (simp add: pbr_key_path_def path_origin_def)
  have policy: "parse_elem (''policy-map'' @ ''['' @ (''policy-name'' @ ''='' @ key_policy key) @ '']'' @ []) =
      Inr \<lparr>elem_name = ''policy-map'', elem_key = [(''policy-name'', key_policy key)]\<rparr>"
    using assms(1) size by (intro parse_keyed_value) (simp_all add: plain_key_def)
  have rule: "parse_elem (''rule-name'' @ ''['' @ (''rule-name'' @ ''='' @ key_rule key) @ '']'' @ []) =
      Inr \<lparr>elem_name = ''rule-name'', elem_key = [(''rule-name'', key_rule key)]\<rparr>"
    using assms(1) size by (intro parse_keyed_value) (simp_all add: plain_key_def)

  have plain: "parse_elem (path_origin @ '':pbr-stats'') =
      Inr \<lparr>elem_name = path_origin @ '':pbr-stats'', elem_key = []\<rparr>"
    "parse_elem ''policy-maps'' = Inr \<lparr>elem_name = ''policy-maps'', elem_key = []\<rparr>"
    "parse_elem ''rule-names'' = Inr \<lparr>elem_name = ''rule-names'', elem_key = []\<rparr>"
    by (intro parse_elem_plain; simp add: path_origin_def)+
  show ?thesis
    unfolding string_to_gnmipath_spec segments traverse.simps policy rule plain
    by (simp add: pbr_request_path_def)
qed

end
