(* ===== verification/Gnmi_Decode.thy ===== *)
theory Gnmi_Decode
  imports Pbr
begin

text \<open>
  The class \<^verbatim>\<open>GnmiClientDetails\<close> (\<^verbatim>\<open>mgbl_api/src/mgbl_api.cpp\<close>, \<^verbatim>\<open>mgbl_api_impl.h\<close>): filling
  the subscription request, decoding the updates of a notification into a map of texts, finding the
  names of the policy and the rule, and checking a response. Every function returns the messages
  it logs before its result. The JSON library is not part of the sources: it is the parameter
  \<open>json_api\<close>, and \<open>json_pointer_keys\<close> is what the library documents about \<^verbatim>\<open>flatten\<close>.
\<close>

section \<open>The JSON library\<close>

text \<open>
  Over an abstract type of JSON values: parsing (or the exception it throws), the entries of the
  flattened value in iteration order, the content of a string value, and the serialised text.
\<close>

record 'j json_api =
  json_parse :: "string \<Rightarrow> 'j result"
  json_flatten :: "'j \<Rightarrow> (string \<times> 'j) list"
  json_string :: "'j \<Rightarrow> string option"
  json_dump :: "'j \<Rightarrow> string"

text \<open>The keys of a flattened value are JSON pointers: empty, or starting with a slash.\<close>

definition is_pointer :: "string \<Rightarrow> bool" where
  "is_pointer k \<longleftrightarrow> (case k of [] \<Rightarrow> True | c # _ \<Rightarrow> c = CHR ''/'')"

definition json_pointer_keys :: "'j json_api \<Rightarrow> bool" where
  "json_pointer_keys api \<longleftrightarrow> (\<forall>j. \<forall>(k, v) \<in> set (json_flatten api j). is_pointer k)"

section \<open>The request\<close>

fun what :: "fault \<Rightarrow> string" where
  "what (Invalid_argument w) = w"
| "what (Out_of_range w) = w"
| "what (Json_exception w) = w"
| "what (Std_exception w) = w"
| "what Bad_function_call = ''bad_function_call''"
| "what (Undefined_behaviour w) = w"

text \<open>
  One iteration of the loop over the paths of interest. The handler catches
  \<^verbatim>\<open>std::invalid_argument\<close>, the only type \<^verbatim>\<open>string_to_gnmipath\<close> throws (\<open>parse_elem_throws\<close>); the
  path allocated before the call then stays empty and is set all the same.
\<close>

definition path_subscription :: "rpc_args \<Rightarrow> string \<Rightarrow> log_entry list \<times> subscription" where
  "path_subscription args path =
     (let sub = default_subscription
            \<lparr>sub_mode := SAMPLE, sub_sample_interval := sample_interval_nsec args\<rparr>
      in case string_to_gnmipath path of
           Inr p \<Rightarrow> ([], sub\<lparr>sub_path := Some p\<rparr>)
         | Inl e \<Rightarrow>
             ([(''Invalid argument while attempting to convert gnmi path to string: '' @ what e,
                WARNING)],
              sub\<lparr>sub_path := Some default_path\<rparr>))"

fun add_subscriptions ::
  "rpc_args \<Rightarrow> string list \<Rightarrow> subscription_list \<Rightarrow> log_entry list \<times> subscription_list" where
  "add_subscriptions args [] sl = ([], sl)"
| "add_subscriptions args (path # paths) sl =
     (let (logs, sub) = path_subscription args path;
          (logs', sl') = add_subscriptions args paths
            (sl\<lparr>sl_subscription := sl_subscription sl @ [sub]\<rparr>)
      in (logs @ logs', sl'))"

definition subscribe_request_helper ::
  "subscribe_request \<Rightarrow> rpc_args \<Rightarrow> rpc_stream_args \<Rightarrow>
     log_entry list \<times> subscribe_request \<times> internal_error_code" where
  "subscribe_request_helper request args info =
     (let sl = (mutable_subscribe request)\<lparr>sl_mode := list_mode_of (args_mode args)\<rparr> in
      if args_encoding args = JSON_IETF \<or> args_encoding args = PROTO
      then (let (logs, sl') = add_subscriptions args (paths_of_interest info)
                  (sl\<lparr>sl_encoding := args_encoding args\<rparr>)
            in (logs, Some sl', SUCCESS))
      else ([(''Unknown encoding: '' @ decimal (encoding_value (args_encoding args)), ERROR)],
            Some sl, UNSUPPORTED_ENCODING))"

section \<open>Decoding an update\<close>

text \<open>\<^verbatim>\<open>std::regex_replace(key, std::regex("/0/"), "/")\<close>: every match, left to right, without overlap.\<close>

fun replace_zero_index :: "string \<Rightarrow> string" where
  "replace_zero_index [] = []"
| "replace_zero_index (c # s) =
     (if c = CHR ''/'' \<and> take 2 s = ''0/'' then CHR ''/'' # replace_zero_index (drop 2 s)
      else c # replace_zero_index s)"

definition json_new_key :: "string \<Rightarrow> string" where
  "json_new_key key = (if contains_sub ''/0/'' key then replace_zero_index key else key)"

definition json_entry :: "'j json_api \<Rightarrow> string \<times> 'j \<Rightarrow> string \<times> string" where
  "json_entry api kv =
     (json_new_key (fst kv),
      case json_string api (snd kv) of Some s \<Rightarrow> s | None \<Rightarrow> json_dump api (snd kv))"

definition json_ietf_val :: "gnmi_update \<Rightarrow> string" where
  "json_ietf_val u = (case update_val u of Some (JsonIetfVal s) \<Rightarrow> s | _ \<Rightarrow> '''')"

definition assign_entry :: "string \<times> string \<Rightarrow> string_map \<Rightarrow> string_map" where
  "assign_entry kv m = m(fst kv \<mapsto> snd kv)"

text \<open>
  The entries go into a fresh map, where a later one overwrites; that map is then inserted into the
  caller's, where \<^verbatim>\<open>unordered_map::insert\<close> keeps the values already there.
\<close>

definition gnmi_decode_json_ietf ::
  "'j json_api \<Rightarrow> gnmi_update \<Rightarrow> string_map \<Rightarrow> string_map result" where
  "gnmi_decode_json_ietf api u flattened_json =
     bind_result (json_parse api (json_ietf_val u)) (\<lambda>json_struct.
       let result = fold assign_entry (map (json_entry api) (json_flatten api json_struct)) Map.empty
       in Inr (result ++ flattened_json))"

definition typed_value_text :: "typed_value \<Rightarrow> string" where
  "typed_value_text v =
     (case v of
        UintVal w \<Rightarrow> to_string_u64 w
      | IntVal w \<Rightarrow> to_string_i64 w
      | StringVal s \<Rightarrow> s
      | BoolVal b \<Rightarrow> (if b then ''true'' else ''false'')
      | DoubleVal w \<Rightarrow> to_string_double w
      | _ \<Rightarrow> ''unsupported_type'')"

definition get_path :: "gnmi_update \<Rightarrow> gnmi_path" where
  "get_path u = (case update_path u of None \<Rightarrow> default_path | Some p \<Rightarrow> p)"

definition get_val :: "gnmi_update \<Rightarrow> typed_value" where
  "get_val u = (case update_val u of None \<Rightarrow> ValueNotSet | Some v \<Rightarrow> v)"

definition gnmi_decode_proto :: "gnmi_update \<Rightarrow> string_map \<Rightarrow> string_map" where
  "gnmi_decode_proto u flattened_proto =
     flattened_proto(gnmipath_to_string (get_path u) \<mapsto> typed_value_text (get_val u))"

section \<open>Parsing a notification\<close>

text \<open>The local variables of the loop over the updates.\<close>

record parse_state =
  ps_result :: string_map
  ps_encoding :: encoding
  ps_path :: gnmi_path
  ps_logs :: "log_entry list"

definition has_json_ietf_val :: "gnmi_update \<Rightarrow> bool" where
  "has_json_ietf_val u \<longleftrightarrow> (case update_val u of Some (JsonIetfVal _) \<Rightarrow> True | _ \<Rightarrow> False)"

definition json_exception_message :: "fault \<Rightarrow> string" where
  "json_exception_message e =
     (case e of
        Json_exception w \<Rightarrow> ''Json exception while parsing update as Json IETF: '' @ w
      | _ \<Rightarrow> ''Exception while parsing update as Json IETF: '' @ what e)"

definition parse_update :: "'j json_api \<Rightarrow> gnmi_update \<Rightarrow> parse_state \<Rightarrow> parse_state" where
  "parse_update api u s =
     (if update_path u = None then s
      else if update_val u \<noteq> None
      then (if has_json_ietf_val u
            then (let s = s\<lparr>ps_encoding := JSON_IETF, ps_path := get_path u\<rparr> in
                  case gnmi_decode_json_ietf api u (ps_result s) of
                    Inr m \<Rightarrow> s\<lparr>ps_result := m\<rparr>
                  | Inl e \<Rightarrow> s\<lparr>ps_logs := ps_logs s @ [(json_exception_message e, WARNING)]\<rparr>)
            else s\<lparr>ps_encoding := PROTO, ps_result := gnmi_decode_proto u (ps_result s)\<rparr>)
      else s)"

definition parse_start :: parse_state where
  "parse_start = \<lparr>ps_result = Map.empty, ps_encoding = PROTO, ps_path = default_path, ps_logs = []\<rparr>"

text \<open>One element of the path that carries the names.\<close>

definition name_from_elem :: "path_elem \<Rightarrow> string_map \<Rightarrow> string_map" where
  "name_from_elem e m =
     (if elem_name e = ''policy-map''
      then (case map_of (elem_key e) ''policy-name'' of
              Some v \<Rightarrow> m(''policy_name'' \<mapsto> v) | None \<Rightarrow> m)
      else if elem_name e = ''rule-name''
      then (case map_of (elem_key e) ''rule-name'' of
              Some v \<Rightarrow> m(''rule_name'' \<mapsto> v) | None \<Rightarrow> m)
      else m)"

text \<open>\<^verbatim>\<open>m[key]\<close> reads a value and inserts an empty one where there is none.\<close>

definition map_index :: "string_map \<Rightarrow> string \<Rightarrow> string \<times> string_map" where
  "map_index m key = (case m key of Some v \<Rightarrow> (v, m) | None \<Rightarrow> ('''', m(key \<mapsto> '''')))"

definition gnmi_parse_response ::
  "'j json_api \<Rightarrow> notification \<Rightarrow> string \<Rightarrow>
     log_entry list \<times> string_map option \<times> internal_error_code" where
  "gnmi_parse_response api n origin =
     (case notif_prefix n of
        None \<Rightarrow> ([(''Response contained no prefix'', ERROR)], None, NO_PREFIX_IN_RESPONSE)
      | Some pre \<Rightarrow>
          if \<not> contains_sub origin (path_origin_of pre)
          then ([(''Response contained wrong prefix'', ERROR)], None, UNKNOWN_ERROR)
          else if notif_update n = []
          then ([(''Update does not exist.'', VERBOSE)], None, NO_UPDATE_IN_NOTIFICATION)
          else
            (let s = fold (parse_update api) (notif_update n) parse_start;
                 printed_path = (if ps_encoding s = PROTO then pre else ps_path s);
                 m = fold name_from_elem (path_elems printed_path) (ps_result s);
                 (policy, m) = map_index m ''policy_name''
             in if policy = ''''
                then (ps_logs s @ [(''Could not find policy name on return path'', ERROR)],
                      None, NO_POLICY_NAME_IN_RESPONSE)
                else
                  (let (rule, m) = map_index m ''rule_name''
                   in if rule = ''''
                      then (ps_logs s @ [(''Could not find rule name on return path'', ERROR)],
                            None, NO_RULE_NAME_IN_RESPONSE)
                      else (ps_logs s, Some m, SUCCESS))))"

section \<open>Checking a response\<close>

definition sync_response :: "subscribe_response \<Rightarrow> bool" where
  "sync_response r = (case r of ResponseSync b \<Rightarrow> b | _ \<Rightarrow> False)"

definition check_response ::
  "'j json_api \<Rightarrow> ('c, 's) pbr_vtable \<Rightarrow> subscribe_response \<Rightarrow> 'c \<Rightarrow>
     log_entry list \<times> ('s option \<times> internal_error_code) result" where
  "check_response api vt response counter =
     (let logs = (if sync_response response
                  then [(''Target has sent all values associated with the subscription at least once.'',
                         VERBOSE)]
                  else [])
      in case response of
           ResponseUpdate n \<Rightarrow>
             (let (logs', expected, code) = gnmi_parse_response api n path_origin
              in if code \<noteq> SUCCESS then (logs @ logs', Inr (None, code))
                 else case expected of
                        None \<Rightarrow> (logs @ logs', Inl (Undefined_behaviour ''null map dereferenced''))
                      | Some m \<Rightarrow>
                          (logs @ logs',
                           bind_result (vt_to_stats vt counter m) (\<lambda>p. Inr (p, SUCCESS))))
         | _ \<Rightarrow> (logs @ [(''No new Notifications'', VERBOSE)], Inr (None, NO_NOTIFICATION)))"

section \<open>The request that is built\<close>

lemma add_subscriptions_eq:
  "add_subscriptions args paths sl =
     (concat (map (\<lambda>p. fst (path_subscription args p)) paths),
      sl\<lparr>sl_subscription := sl_subscription sl @ map (\<lambda>p. snd (path_subscription args p)) paths\<rparr>)"
  by (induction paths arbitrary: sl) (simp_all add: case_prod_unfold Let_def)

definition sample_subscription :: "rpc_args \<Rightarrow> gnmi_path \<Rightarrow> subscription" where
  "sample_subscription args p =
     \<lparr>sub_path = Some p, sub_mode = SAMPLE, sub_sample_interval = sample_interval_nsec args\<rparr>"

lemma path_subscription_ok: "string_to_gnmipath path = Inr p \<Longrightarrow>
    path_subscription args path = ([], sample_subscription args p)"
  by (simp add: path_subscription_def default_subscription_def sample_subscription_def)

lemma path_subscription_malformed: "string_to_gnmipath path = Inl e \<Longrightarrow>
    path_subscription args path =
      ([(''Invalid argument while attempting to convert gnmi path to string: '' @ what e, WARNING)],
       sample_subscription args default_path)"
  by (simp add: path_subscription_def default_subscription_def sample_subscription_def)

definition sample_list :: "rpc_args \<Rightarrow> gnmi_path list \<Rightarrow> subscription_list" where
  "sample_list args ps =
     \<lparr>sl_prefix = None, sl_subscription = map (sample_subscription args) ps,
      sl_mode = list_mode_of (args_mode args), sl_encoding = args_encoding args\<rparr>"

definition servable :: "pbr_key \<Rightarrow> bool" where
  "servable key \<longleftrightarrow> plain_key key \<and> fits (pbr_key_path key)"

lemma subscribe_request_helper_keys:
  assumes "list_all servable ks"
    and "args_encoding args = PROTO \<or> args_encoding args = JSON_IETF"
    and "paths_of_interest info = get_gnmi_paths ks"
  shows "subscribe_request_helper None args info =
     ([], Some (sample_list args (map pbr_request_path ks)), SUCCESS)"
proof -
  have "path_subscription args (pbr_key_path k) = ([], sample_subscription args (pbr_request_path k))"
    if "k \<in> set ks" for k
    using that assms(1) by (intro path_subscription_ok parse_pbr_key_path)
      (auto simp: list_all_iff servable_def)
  then have "map (\<lambda>p. snd (path_subscription args p)) (get_gnmi_paths ks) =
      map (sample_subscription args) (map pbr_request_path ks)"
    and "concat (map (\<lambda>p. fst (path_subscription args p)) (get_gnmi_paths ks)) = []"
    by (auto simp: get_gnmi_paths_def)
  then show ?thesis
    using assms(2,3)
    by (auto simp: subscribe_request_helper_def mutable_subscribe_def default_subscription_list_def
        add_subscriptions_eq sample_list_def Let_def)
qed

text \<open>
  The request of a counter object asks for exactly its keys. With a supported encoding and keys
  whose two parts the path notation can carry, the paths of the object become one sampled
  subscription each, in order, with the policy and the rule as the keys of the path elements, the
  interval, mode and encoding of the arguments, and nothing is logged.
\<close>

lemma request_asks_for_keys:
  assumes "list_all servable ks"
    and "args_encoding args = PROTO \<or> args_encoding args = JSON_IETF"
  shows "subscribe_request_helper None args
           \<lparr>rsa_prefix = path_origin, paths_of_interest = get_gnmi_paths ks\<rparr> =
         ([], Some (sample_list args (map pbr_request_path ks)), SUCCESS)"
  using assms by (intro subscribe_request_helper_keys) simp_all

definition key_p1_r3 :: pbr_key where
  "key_p1_r3 = \<lparr>key_policy = ''p1'', key_rule = ''r3_p1''\<rparr>"

lemma servable_key_p1_r3: "servable key_p1_r3"
  by (simp add: servable_def key_p1_r3_def plain_key_def pbr_key_path_def path_origin_def)

lemma request_asks_for_keys_example:
  "subscribe_request_helper None default_rpc_args
     \<lparr>rsa_prefix = path_origin, paths_of_interest = get_gnmi_paths [key_p1_r3]\<rparr> =
   ([], Some (sample_list default_rpc_args [pbr_request_path key_p1_r3]), SUCCESS)"
  using request_asks_for_keys [of "[key_p1_r3]" default_rpc_args] servable_key_p1_r3
  by (simp add: default_rpc_args_def)

text \<open>
  A key without a policy name subscribes to everything. Its path is malformed; the error is
  only logged as a warning, and the subscription is sent with the empty path, which in gNMI denotes
  the root of the data tree.
\<close>

lemma empty_policy_subscribes_to_root:
  assumes "key_policy key = ''''" and "CHR ''/'' \<notin> set (key_rule key)"
  shows "path_subscription args (pbr_key_path key) =
    ([(''Invalid argument while attempting to convert gnmi path to string: '' @ what bad_pair,
       WARNING)],
     sample_subscription args default_path)"
proof -
  have policy: "parse_elem (''policy-map['' @ (''policy-name='' @ key_policy key) @ '']'' @ []) =
      Inl bad_pair"
    using parse_elem_keyed [of "''policy-map''" "''policy-name=''" "[]"] assms(1)
    by (simp add: parse_pair_def find_from_def)
  have plain: "parse_elem (path_origin @ '':pbr-stats'') =
      Inr \<lparr>elem_name = path_origin @ '':pbr-stats'', elem_key = []\<rparr>"
    "parse_elem ''policy-maps'' = Inr \<lparr>elem_name = ''policy-maps'', elem_key = []\<rparr>"
    by (intro parse_elem_plain; simp add: path_origin_def)+
  have no_slash: "CHR ''/'' \<notin> set (key_policy key)" by (simp add: assms(1))
  have "string_to_gnmipath (pbr_key_path key) = Inl bad_pair"
    unfolding string_to_gnmipath_spec pbr_key_path_segments [OF no_slash assms(2)]
      traverse.simps policy plain by simp
  then show ?thesis by (rule path_subscription_malformed)
qed

lemma empty_policy_subscribes_to_root_example:
  "snd (path_subscription default_rpc_args (pbr_key_path \<lparr>key_policy = '''', key_rule = ''r1''\<rparr>)) =
     sample_subscription default_rpc_args default_path"
  using empty_policy_subscribes_to_root [of "\<lparr>key_policy = '''', key_rule = ''r1''\<rparr>" default_rpc_args]
  by simp

section \<open>The map of a notification\<close>

text \<open>
  What the loop computes. An update counts when it has a path and a value; the last such update
  decides which path carries the names: its own when its value is JSON, else the prefix.
\<close>

definition valued :: "gnmi_update \<Rightarrow> bool" where
  "valued u \<longleftrightarrow> update_path u \<noteq> None \<and> update_val u \<noteq> None"

definition naming_path :: "gnmi_path \<Rightarrow> gnmi_update list \<Rightarrow> gnmi_path" where
  "naming_path pre us =
     (case rev (filter valued us) of
        [] \<Rightarrow> pre
      | u # _ \<Rightarrow> if has_json_ietf_val u then get_path u else pre)"

definition key_values :: "string \<Rightarrow> string \<Rightarrow> path_elem list \<Rightarrow> string list" where
  "key_values name key es =
     List.map_filter (\<lambda>e. if elem_name e = name then map_of (elem_key e) key else None) es"

definition last_or_empty :: "string list \<Rightarrow> string" where
  "last_or_empty vs = (if vs = [] then '''' else last vs)"

lemma parse_update_skips: "\<not> valued u \<Longrightarrow> parse_update api u s = s"
  by (auto simp: parse_update_def valued_def)

lemma parse_update_encoding: "valued u \<Longrightarrow>
    ps_encoding (parse_update api u s) = (if has_json_ietf_val u then JSON_IETF else PROTO)"
  by (auto simp: parse_update_def valued_def Let_def split: sum.splits)

lemma parse_update_path: "valued u \<Longrightarrow> has_json_ietf_val u \<Longrightarrow>
    ps_path (parse_update api u s) = get_path u"
  by (auto simp: parse_update_def valued_def Let_def split: sum.splits)

lemma fold_parse_naming_path:
  "(let s = fold (parse_update api) us parse_start in
    if ps_encoding s = PROTO then pre else ps_path s) = naming_path pre us"
proof (induction us rule: rev_induct)
  case Nil
  then show ?case by (simp add: parse_start_def naming_path_def)
next
  case (snoc u us)
  show ?case
  proof (cases "valued u")
    case True
    then show ?thesis
      by (simp add: naming_path_def parse_update_encoding parse_update_path)
  next
    case False
    with snoc show ?thesis
      by (simp add: naming_path_def parse_update_skips)
  qed
qed

lemma name_from_elem_other: "k \<noteq> ''policy_name'' \<Longrightarrow> k \<noteq> ''rule_name'' \<Longrightarrow>
    fold name_from_elem es m k = m k"
  by (induction es arbitrary: m) (auto simp: name_from_elem_def split: option.splits)

lemma key_values_append [simp]: "key_values n k (xs @ ys) = key_values n k xs @ key_values n k ys"
  by (simp add: key_values_def map_filter_def)

lemma key_values_Nil [simp]: "key_values n k [] = []"
  by (simp add: key_values_def map_filter_def)

lemma key_values_single [simp]: "key_values n k [e] =
    (if elem_name e = n then (case map_of (elem_key e) k of None \<Rightarrow> [] | Some v \<Rightarrow> [v]) else [])"
  by (auto simp: key_values_def map_filter_def split: option.splits)

lemma fold_name_policy:
  "fold name_from_elem es m ''policy_name'' =
     (let vs = key_values ''policy-map'' ''policy-name'' es
      in if vs = [] then m ''policy_name'' else Some (last vs))"
  by (induction es rule: rev_induct) (auto simp: name_from_elem_def Let_def split: option.splits)

lemma fold_name_rule:
  "fold name_from_elem es m ''rule_name'' =
     (let vs = key_values ''rule-name'' ''rule-name'' es
      in if vs = [] then m ''rule_name'' else Some (last vs))"
  by (induction es rule: rev_induct) (auto simp: name_from_elem_def Let_def split: option.splits)

text \<open>The decoders write pointers only, so they never write the two names.\<close>

lemma is_pointer_simps [simp]: "is_pointer []" "is_pointer (c # s) \<longleftrightarrow> c = CHR ''/''"
  by (simp_all add: is_pointer_def)

lemma is_pointer_gnmipath [simp]: "is_pointer (gnmipath_to_string p)"
  by (cases "path_elems p") (simp_all add: gnmipath_to_string_def elem_to_string_def)

lemma is_pointer_new_key: "is_pointer k \<Longrightarrow> is_pointer (json_new_key k)"
  by (cases k) (simp_all add: json_new_key_def)

lemma fold_assign_dom: "dom (fold assign_entry kvs m) = dom m \<union> fst ` set kvs"
  by (induction kvs arbitrary: m) (auto simp: assign_entry_def)

definition pointer_map :: "string_map \<Rightarrow> bool" where
  "pointer_map m \<longleftrightarrow> (\<forall>k \<in> dom m. is_pointer k)"

lemma decode_json_pointer_map:
  assumes "json_pointer_keys api" "pointer_map m" "gnmi_decode_json_ietf api u m = Inr m'"
  shows "pointer_map m'"
proof -
  from assms(3) obtain j
    where m': "m' = fold assign_entry (map (json_entry api) (json_flatten api j)) Map.empty ++ m"
    by (auto simp: gnmi_decode_json_ietf_def result_simps Let_def)
  have "is_pointer k" if "k \<in> fst ` json_entry api ` set (json_flatten api j)" for k
    using that assms(1)
    by (fastforce simp: json_entry_def json_pointer_keys_def intro: is_pointer_new_key)
  with assms(2) show ?thesis
    unfolding m' pointer_map_def dom_map_add fold_assign_dom by auto
qed

lemma parse_update_pointer_map:
  assumes "json_pointer_keys api" "pointer_map (ps_result s)"
  shows "pointer_map (ps_result (parse_update api u s))"
  using assms decode_json_pointer_map [OF assms]
  by (auto simp: parse_update_def Let_def gnmi_decode_proto_def pointer_map_def
      split: sum.splits)

lemma fold_parse_pointer_map:
  "json_pointer_keys api \<Longrightarrow> pointer_map (ps_result s) \<Longrightarrow>
     pointer_map (ps_result (fold (parse_update api) us s))"
  by (induction us arbitrary: s) (simp_all add: parse_update_pointer_map)

lemma pointer_map_no_names:
  "pointer_map m \<Longrightarrow> m ''policy_name'' = None \<and> m ''rule_name'' = None"
  by (force simp: pointer_map_def dom_def)

text \<open>The decision of \<open>gnmi_parse_response\<close>, and the map it returns.\<close>

definition response_code :: "string \<Rightarrow> notification \<Rightarrow> internal_error_code" where
  "response_code origin n =
     (case notif_prefix n of
        None \<Rightarrow> NO_PREFIX_IN_RESPONSE
      | Some pre \<Rightarrow>
          let es = path_elems (naming_path pre (notif_update n)) in
          if \<not> sublist origin (path_origin_of pre) then UNKNOWN_ERROR
          else if notif_update n = [] then NO_UPDATE_IN_NOTIFICATION
          else if last_or_empty (key_values ''policy-map'' ''policy-name'' es) = ''''
          then NO_POLICY_NAME_IN_RESPONSE
          else if last_or_empty (key_values ''rule-name'' ''rule-name'' es) = ''''
          then NO_RULE_NAME_IN_RESPONSE
          else SUCCESS)"

definition response_map :: "'j json_api \<Rightarrow> notification \<Rightarrow> string_map" where
  "response_map api n =
     (case notif_prefix n of
        None \<Rightarrow> Map.empty
      | Some pre \<Rightarrow>
          let es = path_elems (naming_path pre (notif_update n)) in
          (ps_result (fold (parse_update api) (notif_update n) parse_start))
            (''policy_name'' \<mapsto> last_or_empty (key_values ''policy-map'' ''policy-name'' es),
             ''rule_name'' \<mapsto> last_or_empty (key_values ''rule-name'' ''rule-name'' es)))"

lemma fold_names_lookup:
  assumes "pointer_map m"
  shows "map_index (fold name_from_elem es m) ''policy_name'' =
     (last_or_empty (key_values ''policy-map'' ''policy-name'' es),
      (fold name_from_elem es m)
        (''policy_name'' \<mapsto> last_or_empty (key_values ''policy-map'' ''policy-name'' es)))"
    and "map_index ((fold name_from_elem es m)(''policy_name'' \<mapsto> p)) ''rule_name'' =
     (last_or_empty (key_values ''rule-name'' ''rule-name'' es),
      (fold name_from_elem es m)(''policy_name'' \<mapsto> p,
        ''rule_name'' \<mapsto> last_or_empty (key_values ''rule-name'' ''rule-name'' es)))"
  using pointer_map_no_names [OF assms]
  by (auto simp: map_index_def fold_name_policy fold_name_rule last_or_empty_def Let_def
      fun_upd_triv fun_upd_twist)

lemma fold_names_map:
  "(fold name_from_elem es m)(''policy_name'' \<mapsto> p, ''rule_name'' \<mapsto> r) =
     m(''policy_name'' \<mapsto> p, ''rule_name'' \<mapsto> r)"
  by (rule ext) (simp add: name_from_elem_other)

lemma pointer_map_start: "pointer_map (ps_result parse_start)"
  by (simp add: pointer_map_def parse_start_def)

lemma gnmi_parse_response_outcome:
  assumes "json_pointer_keys api"
  shows "snd (gnmi_parse_response api n origin) =
    (if response_code origin n = SUCCESS then Some (response_map api n) else None,
     response_code origin n)"
proof (cases "notif_prefix n")
  case None
  then show ?thesis by (simp add: gnmi_parse_response_def response_code_def)
next
  case (Some pre)
  define s where "s = fold (parse_update api) (notif_update n) parse_start"
  define es where "es = path_elems (naming_path pre (notif_update n))"
  have elems: "path_elems (if ps_encoding s = PROTO then pre else ps_path s) = es"
    using fold_parse_naming_path [of api "notif_update n" pre] by (simp only: s_def es_def Let_def)
  have "pointer_map (ps_result s)"
    unfolding s_def using assms pointer_map_start by (rule fold_parse_pointer_map)
  note names = fold_names_lookup [OF this, of es]
  show ?thesis
  proof (cases "sublist origin (path_origin_of pre) \<and> notif_update n \<noteq> []")
    case False
    with Some show ?thesis
      by (auto simp: gnmi_parse_response_def response_code_def contains_sub_iff_sublist Let_def)
  next
    case True
    then show ?thesis
      by (simp add: gnmi_parse_response_def response_code_def response_map_def Some Let_def
          contains_sub_iff_sublist s_def [symmetric] elems names es_def [symmetric] fold_names_map)
  qed
qed

lemmas parse_response_simps = gnmi_parse_response_outcome response_code_def response_map_def

text \<open>Updates that carry no JSON: the map is written in order, a later update overwrites.\<close>

definition proto_update :: "gnmi_update \<Rightarrow> bool" where
  "proto_update u \<longleftrightarrow> valued u \<and> \<not> has_json_ietf_val u"

lemma parse_update_proto: "proto_update u \<Longrightarrow>
    parse_update api u s =
      s\<lparr>ps_encoding := PROTO, ps_result := gnmi_decode_proto u (ps_result s)\<rparr>"
  by (auto simp: parse_update_def proto_update_def valued_def)

lemma fold_parse_proto: "list_all proto_update us \<Longrightarrow>
    ps_result (fold (parse_update api) us s) = fold gnmi_decode_proto us (ps_result s) \<and>
    ps_logs (fold (parse_update api) us s) = ps_logs s"
  by (induction us arbitrary: s) (simp_all add: parse_update_proto)

lemma naming_path_proto: "list_all proto_update us \<Longrightarrow> naming_path pre us = pre"
proof (induction us rule: rev_induct)
  case (snoc u us)
  then have "valued u" "\<not> has_json_ietf_val u" by (simp_all add: proto_update_def)
  then show ?case by (simp add: naming_path_def)
qed (simp add: naming_path_def)

lemma fold_decode_proto_other:
  "\<forall>u \<in> set us. gnmipath_to_string (get_path u) \<noteq> k \<Longrightarrow> fold gnmi_decode_proto us m k = m k"
  by (induction us arbitrary: m) (auto simp: gnmi_decode_proto_def)

lemma fold_decode_proto_last:
  assumes "us = xs @ u # ys" "gnmipath_to_string (get_path u) = k"
    "\<forall>u' \<in> set ys. gnmipath_to_string (get_path u') \<noteq> k"
  shows "fold gnmi_decode_proto us m k = Some (typed_value_text (get_val u))"
  using assms by (simp add: fold_decode_proto_other) (auto simp: gnmi_decode_proto_def)

lemma gnmi_parse_response_logs:
  assumes "snd (snd (gnmi_parse_response api n origin)) = SUCCESS"
  shows "fst (gnmi_parse_response api n origin) =
    ps_logs (fold (parse_update api) (notif_update n) parse_start)"
  using assms
  by (auto simp: gnmi_parse_response_def Let_def split: option.splits if_splits prod.splits)

section \<open>Properties of the decoders\<close>

text \<open>
  A JSON library for concrete inputs: every non-empty text is one number, whose flattened form is the
  single entry with the empty pointer.
\<close>

definition number_json :: "string json_api" where
  "number_json =
     \<lparr>json_parse = (\<lambda>s. if s = '''' then Inl (Json_exception ''empty input'') else Inr s),
      json_flatten = (\<lambda>j. [('''', j)]), json_string = (\<lambda>_. None), json_dump = (\<lambda>j. j)\<rparr>"

lemma number_json_pointer_keys: "json_pointer_keys number_json"
  by (simp add: json_pointer_keys_def number_json_def)

text \<open>
  C12: the code of a notification is decided by its prefix and by the path that carries the names,
  in this order: no prefix, an origin that does not contain the expected one, no update, no policy
  name, no rule name, success. On success, and only then, a map is returned; in it the two names are
  those of the last matching path elements, whatever the decoded values are.
\<close>

theorem gnmi_parse_response_decides:
  assumes "json_pointer_keys api"
  shows "snd (gnmi_parse_response api n origin) =
    (if response_code origin n = SUCCESS then Some (response_map api n) else None,
     response_code origin n)"
  using assms by (rule gnmi_parse_response_outcome)

text \<open>
  The paths and values of a sample the target sends in PROTO encoding for one key: the prefix holds
  the origin and the keys, each update one leaf.
\<close>

definition leaf_update :: "string list \<Rightarrow> typed_value \<Rightarrow> gnmi_update" where
  "leaf_update names v =
     \<lparr>update_path = Some \<lparr>path_origin_of = '''',
        path_elems = map (\<lambda>n. \<lparr>elem_name = n, elem_key = []\<rparr>) names\<rparr>,
      update_val = Some v\<rparr>"

definition sample_prefix :: "pbr_key \<Rightarrow> gnmi_path" where
  "sample_prefix key = (pbr_request_path key)\<lparr>path_origin_of := path_origin\<rparr>"

definition sample_updates ::
  "64 word \<Rightarrow> 64 word \<Rightarrow> 64 word \<Rightarrow> 64 word \<Rightarrow> string \<Rightarrow> string \<Rightarrow> gnmi_update list" where
  "sample_updates b p s n grp act =
     [leaf_update [''fib-stats'', ''byte-count''] (UintVal b),
      leaf_update [''fib-stats'', ''packet-count''] (UintVal p),
      leaf_update [''fib-stats'', ''collection-timestamp'', ''seconds''] (UintVal s),
      leaf_update [''fib-stats'', ''collection-timestamp'', ''nano-seconds''] (UintVal n),
      leaf_update [''paction'', ''policy-rule-action'', ''act-un'', ''path-grp-name''] (StringVal grp),
      leaf_update [''paction'', ''policy-rule-action'', ''act-un'', ''type''] (StringVal act)]"

lemma leaf_update_simps [simp]:
  "proto_update (leaf_update names v) \<longleftrightarrow> (case v of JsonIetfVal _ \<Rightarrow> False | _ \<Rightarrow> True)"
  "get_val (leaf_update names v) = v"
  "gnmipath_to_string (get_path (leaf_update names v)) = concat (map (\<lambda>n. ''/'' @ n) names)"
  by (auto simp: leaf_update_def proto_update_def valued_def has_json_ietf_val_def get_val_def
      get_path_def gnmipath_to_string_def elem_to_string_def comp_def split: typed_value.splits)

lemma sample_prefix_names:
  "path_elems (sample_prefix key) = path_elems (pbr_request_path key)"
  "path_origin_of (sample_prefix key) = path_origin"
  "key_values ''policy-map'' ''policy-name'' (path_elems (pbr_request_path key)) = [key_policy key]"
  "key_values ''rule-name'' ''rule-name'' (path_elems (pbr_request_path key)) = [key_rule key]"
  by (simp_all add: sample_prefix_def pbr_request_path_def key_values_def map_filter_def
      path_origin_def)

lemma check_response_update:
  assumes "json_pointer_keys api" "response_code path_origin n = SUCCESS"
  shows "check_response api vt (ResponseUpdate n) c =
    (ps_logs (fold (parse_update api) (notif_update n) parse_start),
     bind_result (vt_to_stats vt c (response_map api n)) (\<lambda>p. Inr (p, SUCCESS)))"
proof -
  obtain logs where "gnmi_parse_response api n path_origin = (logs, Some (response_map api n), SUCCESS)"
    using gnmi_parse_response_outcome [OF assms(1), of n path_origin] assms(2)
    by (cases "gnmi_parse_response api n path_origin") simp
  moreover from this have "logs = ps_logs (fold (parse_update api) (notif_update n) parse_start)"
    using gnmi_parse_response_logs [of api n path_origin] by simp
  ultimately show ?thesis
    by (simp add: check_response_def sync_response_def)
qed

lemma proto_response_map:
  assumes "list_all proto_update us" "us \<noteq> []"
    and "key_policy key \<noteq> ''''" "key_rule key \<noteq> ''''"
    and n: "n = \<lparr>notif_prefix = Some (sample_prefix key), notif_update = us\<rparr>"
  shows "response_code path_origin n = SUCCESS"
    and "response_map api n = (fold gnmi_decode_proto us Map.empty)
        (''policy_name'' \<mapsto> key_policy key, ''rule_name'' \<mapsto> key_rule key)"
  using assms fold_parse_proto [of us api parse_start]
  by (simp_all add: response_code_def response_map_def naming_path_proto sample_prefix_names
      last_or_empty_def parse_start_def)

lemma proto_response:
  assumes "json_pointer_keys api" "list_all proto_update us" "us \<noteq> []"
    and "key_policy key \<noteq> ''''" "key_rule key \<noteq> ''''"
    and n: "n = \<lparr>notif_prefix = Some (sample_prefix key), notif_update = us\<rparr>"
  shows "check_response api vt (ResponseUpdate n) c =
    ([], bind_result
      (vt_to_stats vt c ((fold gnmi_decode_proto us Map.empty)
        (''policy_name'' \<mapsto> key_policy key, ''rule_name'' \<mapsto> key_rule key)))
      (\<lambda>p. Inr (p, SUCCESS)))"
proof -
  note proto_response_map(1) [OF assms(2-5) n] proto_response_map(2) [OF assms(2-5) n, of api]
  moreover have "ps_logs (fold (parse_update api) (notif_update n) parse_start) = []"
    using assms fold_parse_proto [of us api parse_start] by (simp add: parse_start_def)
  ultimately show ?thesis
    using check_response_update [OF assms(1), of n vt c] by simp
qed

definition sample_stat ::
  "pbr_key \<Rightarrow> 64 word \<Rightarrow> 64 word \<Rightarrow> 64 word \<Rightarrow> 64 word \<Rightarrow> string \<Rightarrow> string \<Rightarrow> pbr_basic_stat" where
  "sample_stat key b p s n grp act =
     \<lparr>policy_name = key_policy key, rule_name = key_rule key, byte_count = b, packet_count = p,
      collection_timestamp_seconds = s, collection_timestamp_nanoseconds = n,
      path_grp_name = grp, policy_action_type = act\<rparr>"

lemma sample_updates_proto:
  "list_all proto_update (sample_updates b p s n grp act)" "sample_updates b p s n grp act \<noteq> []"
  by (simp_all add: sample_updates_def)

lemma sample_map_decodes:
  "map_to_basic_stat ((fold gnmi_decode_proto (sample_updates b p s n grp act) Map.empty)
     (''policy_name'' \<mapsto> key_policy key, ''rule_name'' \<mapsto> key_rule key)) =
   Inr (sample_stat key b p s n grp act)"
  unfolding map_to_basic_stat_Inr_iff describes_def sample_stat_def
  by (simp add: sample_updates_def gnmi_decode_proto_def typed_value_text_def text_or_empty_def
      counter_or_zero_def)

text \<open>
  C13: a PROTO sample arrives unchanged. For every key with two non-empty parts and every value of
  the four 64-bit counters and two texts, checking the response that carries them yields a record
  with exactly these values, without a message: printing a counter and reading it back is exact over
  the whole range.
\<close>

theorem proto_sample_decodes:
  assumes "json_pointer_keys api" and "key_policy key \<noteq> ''''" and "key_rule key \<noteq> ''''"
  shows "check_response api pbr_basic_vt
     (ResponseUpdate \<lparr>notif_prefix = Some (sample_prefix key),
                      notif_update = sample_updates b p s n grp act\<rparr>) c =
   ([], Inr (Some (BasicStat
     \<lparr>policy_name = key_policy key, rule_name = key_rule key, byte_count = b, packet_count = p,
      collection_timestamp_seconds = s, collection_timestamp_nanoseconds = n,
      path_grp_name = grp, policy_action_type = act\<rparr>), SUCCESS))"
  using proto_response [OF assms(1) sample_updates_proto [of b p s n grp act] assms(2,3) refl,
      of pbr_basic_vt c] sample_map_decodes [of b p s n grp act key]
  by (simp add: unordered_map_to_stats_def sample_stat_def)

theorem proto_sample_decodes_witness:
  "check_response number_json pbr_basic_vt
     (ResponseUpdate \<lparr>notif_prefix = Some (sample_prefix key_p1_r3),
                      notif_update = sample_updates (- 1) 500 7 9 ''grp'' ''fwd''\<rparr>)
     \<lparr>pbr_keys = [key_p1_r3], pbr_stats = []\<rparr> =
   ([], Inr (Some (BasicStat
     \<lparr>policy_name = ''p1'', rule_name = ''r3_p1'', byte_count = - 1, packet_count = 500,
      collection_timestamp_seconds = 7, collection_timestamp_nanoseconds = 9,
      path_grp_name = ''grp'', policy_action_type = ''fwd''\<rparr>), SUCCESS))"
  using proto_sample_decodes [OF number_json_pointer_keys, of key_p1_r3]
  by (simp add: key_p1_r3_def)

theorem gnmi_parse_response_decides_witness:
  "snd (gnmi_parse_response number_json
     \<lparr>notif_prefix = Some (sample_prefix key_p1_r3), notif_update = []\<rparr> path_origin) =
   (None, NO_UPDATE_IN_NOTIFICATION)"
  using gnmi_parse_response_decides [OF number_json_pointer_keys,
      of "\<lparr>notif_prefix = Some (sample_prefix key_p1_r3), notif_update = []\<rparr>" path_origin]
  by (simp add: response_code_def sample_prefix_names)

text \<open>
  The JSON decoder never overwrites: a key the map already holds keeps its value, and any other key gets
  the last entry of the flattened value whose pointer becomes that key once the zero indices are removed.
\<close>

lemma gnmi_decode_json_ietf_keeps_first:
  "gnmi_decode_json_ietf api u m =
     (case json_parse api (json_ietf_val u) of
        Inl e \<Rightarrow> Inl e
      | Inr j \<Rightarrow> Inr (\<lambda>k. case m k of
          Some v \<Rightarrow> Some v
        | None \<Rightarrow> map_of (rev (map (json_entry api) (json_flatten api j))) k))"
proof -
  have last: "fold assign_entry kvs Map.empty = map_of (rev kvs)" for kvs
    by (induction kvs rule: rev_induct) (auto simp: assign_entry_def)
  show ?thesis
    by (auto simp: gnmi_decode_json_ietf_def Let_def last map_add_def split: sum.splits)
qed

lemma json_update_read:
  assumes "json_pointer_keys api" "sublist path_origin (path_origin_of pre)"
    and "json_parse api txt = Inr j" "path_elems p = path_elems (pbr_request_path key)"
    and "key_policy key \<noteq> ''''" "key_rule key \<noteq> ''''"
  shows "check_response api vt (ResponseUpdate \<lparr>notif_prefix = Some pre,
      notif_update = [\<lparr>update_path = Some p, update_val = Some (JsonIetfVal txt)\<rparr>]\<rparr>) c =
    ([], bind_result
      (vt_to_stats vt c ((map_of (rev (map (json_entry api) (json_flatten api j))))
        (''policy_name'' \<mapsto> key_policy key, ''rule_name'' \<mapsto> key_rule key)))
      (\<lambda>p. Inr (p, SUCCESS)))"
proof -
  let ?u = "\<lparr>update_path = Some p, update_val = Some (JsonIetfVal txt)\<rparr>"
  let ?n = "\<lparr>notif_prefix = Some pre, notif_update = [?u]\<rparr>"
  let ?m = "map_of (rev (map (json_entry api) (json_flatten api j)))"
  have naming: "naming_path pre [?u] = p"
    by (simp add: naming_path_def valued_def has_json_ietf_val_def get_path_def)
  have parsed: "gnmi_decode_json_ietf api ?u Map.empty = Inr ?m"
    using assms(3) by (simp add: gnmi_decode_json_ietf_keeps_first json_ietf_val_def)
  have state: "ps_result (parse_update api ?u parse_start) = ?m" "ps_logs (parse_update api ?u parse_start) = []"
    using parsed by (simp_all add: parse_update_def parse_start_def has_json_ietf_val_def Let_def)
  have "response_code path_origin ?n = SUCCESS"
    using assms(2,4-6) by (simp add: response_code_def naming sample_prefix_names last_or_empty_def)
  moreover have "response_map api ?n =
      ?m(''policy_name'' \<mapsto> key_policy key, ''rule_name'' \<mapsto> key_rule key)"
    using assms(4) by (simp add: response_map_def naming state sample_prefix_names last_or_empty_def)
  ultimately show ?thesis
    using check_response_update [OF assms(1), of ?n vt c] state(2) by simp
qed

text \<open>
  C14: a JSON response arrives as its text says. When the text of the update parses, the update's path
  carries the two names, and the flattened entries (a later one first, zero indices removed)
  describe a record, then checking the response yields exactly that record, without a message; the
  origin of the prefix has to contain the expected one, its elements do not matter.
\<close>

theorem json_response_decodes:
  assumes "json_pointer_keys api" and "sublist path_origin (path_origin_of pre)"
    and "json_parse api txt = Inr j" and "path_elems p = path_elems (pbr_request_path key)"
    and "key_policy key \<noteq> ''''" and "key_rule key \<noteq> ''''"
    and "describes ((map_of (rev (map (json_entry api) (json_flatten api j))))
           (''policy_name'' \<mapsto> key_policy key, ''rule_name'' \<mapsto> key_rule key)) st"
  shows "check_response api pbr_basic_vt (ResponseUpdate
     \<lparr>notif_prefix = Some pre,
      notif_update = [\<lparr>update_path = Some p, update_val = Some (JsonIetfVal txt)\<rparr>]\<rparr>) c =
   ([], Inr (Some (BasicStat st), SUCCESS))"
  using json_update_read [OF assms(1-6), of pbr_basic_vt c] assms(7)
  by (simp add: unordered_map_to_stats_def map_to_basic_stat_Inr_iff [symmetric])

text \<open>A JSON library that knows one object, an array with one entry.\<close>

definition object_json :: "(string \<times> string) list json_api" where
  "object_json =
     \<lparr>json_parse = (\<lambda>_. Inr [(''/0/fib-stats/byte-count'', ''5''), (''/0/fib-stats/packet-count'', ''7'')]),
      json_flatten = (\<lambda>j. map (\<lambda>(k, v). (k, [(k, v)])) (filter (\<lambda>(k, v). is_pointer k) j)),
      json_string = (\<lambda>j. case j of [(k, v)] \<Rightarrow> Some v | _ \<Rightarrow> None), json_dump = (\<lambda>_. '''')\<rparr>"

lemma object_json_pointer_keys: "json_pointer_keys object_json"
  by (auto simp: json_pointer_keys_def object_json_def)

lemma object_json_describes:
  "describes ((map_of (rev (map (json_entry object_json) (json_flatten object_json
       [(''/0/fib-stats/byte-count'', ''5''), (''/0/fib-stats/packet-count'', ''7'')]))))
     (''policy_name'' \<mapsto> key_policy key_p1_r3, ''rule_name'' \<mapsto> key_rule key_p1_r3))
     (sample_stat key_p1_r3 5 7 0 0 '''' '''')"
proof -
  have "map (json_entry object_json) (json_flatten object_json
        [(''/0/fib-stats/byte-count'', ''5''), (''/0/fib-stats/packet-count'', ''7'')]) =
      [(''/fib-stats/byte-count'', ''5''), (''/fib-stats/packet-count'', ''7'')]"
    by (simp add: json_entry_def object_json_def json_new_key_def)
  moreover have "stoull ''5'' = Inr 5" "stoull ''7'' = Inr 7"
    by (simp_all add: stoull_def is_space_def is_digit_def decimal_value_def digit_val_def)
  ultimately show ?thesis
    by (simp add: describes_def sample_stat_def text_or_empty_def counter_or_zero_def)
qed

theorem json_response_decodes_witness:
  "check_response object_json pbr_basic_vt (ResponseUpdate
     \<lparr>notif_prefix = Some (sample_prefix key_p1_r3),
      notif_update = [\<lparr>update_path = Some (pbr_request_path key_p1_r3),
                       update_val = Some (JsonIetfVal ''text'')\<rparr>]\<rparr>)
     \<lparr>pbr_keys = [], pbr_stats = []\<rparr> =
   ([], Inr (Some (BasicStat (sample_stat key_p1_r3 5 7 0 0 '''' '''')), SUCCESS))"
proof -
  have "path_origin_of (sample_prefix key_p1_r3) = path_origin" by (simp add: sample_prefix_names)
  then have origin: "sublist path_origin (path_origin_of (sample_prefix key_p1_r3))" by simp
  have "json_parse object_json ''text'' =
      Inr [(''/0/fib-stats/byte-count'', ''5''), (''/0/fib-stats/packet-count'', ''7'')]"
    by (simp add: object_json_def)
  from json_response_decodes [OF object_json_pointer_keys origin this refl _ _ object_json_describes]
  show ?thesis by (simp add: key_p1_r3_def)
qed

text \<open>
  The two encodings agree. A JSON response whose flattened entries and names describe a record is
  checked exactly as the PROTO response that carries the values of the record leaf by leaf: with the
  same record, the same code and the same messages.
\<close>

lemma json_and_proto_agree:
  assumes "json_pointer_keys api" and "sublist path_origin (path_origin_of pre)"
    and "json_parse api txt = Inr j" and "path_elems p = path_elems (pbr_request_path key)"
    and "key_policy key \<noteq> ''''" and "key_rule key \<noteq> ''''"
    and "describes ((map_of (rev (map (json_entry api) (json_flatten api j))))
           (''policy_name'' \<mapsto> key_policy key, ''rule_name'' \<mapsto> key_rule key)) st"
  shows "check_response api pbr_basic_vt (ResponseUpdate
       \<lparr>notif_prefix = Some pre,
        notif_update = [\<lparr>update_path = Some p, update_val = Some (JsonIetfVal txt)\<rparr>]\<rparr>) c =
     check_response api pbr_basic_vt (ResponseUpdate
       \<lparr>notif_prefix = Some (sample_prefix key),
        notif_update = sample_updates (byte_count st) (packet_count st) (collection_timestamp_seconds st)
          (collection_timestamp_nanoseconds st) (path_grp_name st) (policy_action_type st)\<rparr>) c"
proof -
  let ?u = "sample_updates (byte_count st) (packet_count st) (collection_timestamp_seconds st)
    (collection_timestamp_nanoseconds st) (path_grp_name st) (policy_action_type st)"
  have "policy_name st = key_policy key" "rule_name st = key_rule key"
    using assms(7) by (simp_all add: describes_def text_or_empty_def)
  then have st: "sample_stat key (byte_count st) (packet_count st) (collection_timestamp_seconds st)
      (collection_timestamp_nanoseconds st) (path_grp_name st) (policy_action_type st) = st"
    by (simp add: sample_stat_def)
  have "check_response api pbr_basic_vt
      (ResponseUpdate \<lparr>notif_prefix = Some (sample_prefix key), notif_update = ?u\<rparr>) c =
    ([], Inr (Some (BasicStat st), SUCCESS))"
    using proto_response [OF assms(1) sample_updates_proto [of "byte_count st" "packet_count st"
          "collection_timestamp_seconds st" "collection_timestamp_nanoseconds st" "path_grp_name st"
          "policy_action_type st"] assms(5,6) refl, of pbr_basic_vt c]
      sample_map_decodes [of "byte_count st" "packet_count st" "collection_timestamp_seconds st"
          "collection_timestamp_nanoseconds st" "path_grp_name st" "policy_action_type st" key]
    by (simp add: unordered_map_to_stats_def st)
  then show ?thesis
    using json_update_read [OF assms(1-6), of pbr_basic_vt c] assms(7)
    by (simp add: unordered_map_to_stats_def map_to_basic_stat_Inr_iff [symmetric])
qed

lemma json_and_proto_agree_example:
  "check_response object_json pbr_basic_vt (ResponseUpdate
     \<lparr>notif_prefix = Some (sample_prefix key_p1_r3),
      notif_update = [\<lparr>update_path = Some (pbr_request_path key_p1_r3),
                       update_val = Some (JsonIetfVal ''text'')\<rparr>]\<rparr>)
     \<lparr>pbr_keys = [], pbr_stats = []\<rparr> =
   check_response object_json pbr_basic_vt (ResponseUpdate
     \<lparr>notif_prefix = Some (sample_prefix key_p1_r3),
      notif_update = sample_updates 5 7 0 0 '''' ''''\<rparr>)
     \<lparr>pbr_keys = [], pbr_stats = []\<rparr>"
proof -
  have "path_origin_of (sample_prefix key_p1_r3) = path_origin" by (simp add: sample_prefix_names)
  then have origin: "sublist path_origin (path_origin_of (sample_prefix key_p1_r3))" by simp
  have "json_parse object_json ''text'' =
      Inr [(''/0/fib-stats/byte-count'', ''5''), (''/0/fib-stats/packet-count'', ''7'')]"
    by (simp add: object_json_def)
  from json_and_proto_agree [OF object_json_pointer_keys origin this refl _ _ object_json_describes]
  show ?thesis by (simp add: key_p1_r3_def sample_stat_def)
qed

text \<open>
  An update without JSON does overwrite. Among PROTO updates, the value of a leaf is that of
  the last update whose path is the leaf, so a response that repeats the byte count reports the
  later one.
\<close>

lemma proto_last_update_wins:
  assumes "json_pointer_keys api" and "key_policy key \<noteq> ''''" and "key_rule key \<noteq> ''''"
    and "list_all proto_update (xs @ leaf_update [''fib-stats'', ''byte-count''] (UintVal b) # ys)"
    and "list_all (\<lambda>u. gnmipath_to_string (get_path u) \<noteq> ''/fib-stats/byte-count'') ys"
    and "snd (check_response api pbr_basic_vt (ResponseUpdate
           \<lparr>notif_prefix = Some (sample_prefix key),
            notif_update = xs @ leaf_update [''fib-stats'', ''byte-count''] (UintVal b) # ys\<rparr>) c) =
         Inr (Some (BasicStat st), SUCCESS)"
  shows "byte_count st = b"
proof -
  let ?u = "leaf_update [''fib-stats'', ''byte-count''] (UintVal b)"
  let ?us = "xs @ ?u # ys"
  let ?m = "(fold gnmi_decode_proto ?us Map.empty)
    (''policy_name'' \<mapsto> key_policy key, ''rule_name'' \<mapsto> key_rule key)"
  have "check_response api pbr_basic_vt (ResponseUpdate
      \<lparr>notif_prefix = Some (sample_prefix key), notif_update = ?us\<rparr>) c =
    ([], bind_result (unordered_map_to_stats ?m) (\<lambda>p. Inr (p, SUCCESS)))"
    using proto_response [OF assms(1,4) _ assms(2,3) refl, of pbr_basic_vt c] by simp
  with assms(6) have "describes ?m st"
    by (simp add: result_simps unordered_map_to_stats_describes_eq)
  moreover have "fold gnmi_decode_proto ?us Map.empty ''/fib-stats/byte-count'' =
      Some (typed_value_text (UintVal b))"
    using fold_decode_proto_last [OF refl, of ?u "''/fib-stats/byte-count''" ys xs Map.empty]
      assms(5) by (simp add: list_all_iff)
  ultimately show ?thesis
    by (simp add: describes_def counter_or_zero_def typed_value_text_def)
qed

lemma proto_last_update_wins_example:
  "snd (check_response number_json pbr_basic_vt (ResponseUpdate
      \<lparr>notif_prefix = Some (sample_prefix key_p1_r3),
       notif_update = [leaf_update [''fib-stats'', ''byte-count''] (UintVal 1),
                       leaf_update [''fib-stats'', ''byte-count''] (UintVal 2)]\<rparr>)
      \<lparr>pbr_keys = [], pbr_stats = []\<rparr>) =
    Inr (Some (BasicStat (default_pbr_basic_stat
      \<lparr>policy_name := ''p1'', rule_name := ''r3_p1'', byte_count := 2\<rparr>)), SUCCESS) \<and>
   byte_count (default_pbr_basic_stat
      \<lparr>policy_name := ''p1'', rule_name := ''r3_p1'', byte_count := 2\<rparr>) = (2 :: 64 word)"
  (is "?check = Inr (Some (BasicStat ?st), SUCCESS) \<and> _")
proof -
  have result: "?check = Inr (Some (BasicStat ?st), SUCCESS)"
  proof -
    have "describes ((fold gnmi_decode_proto [leaf_update [''fib-stats'', ''byte-count''] (UintVal 1),
                       leaf_update [''fib-stats'', ''byte-count''] (UintVal 2)] Map.empty)
        (''policy_name'' \<mapsto> ''p1'', ''rule_name'' \<mapsto> ''r3_p1'')) ?st"
      by (simp add: describes_def gnmi_decode_proto_def typed_value_text_def text_or_empty_def
        counter_or_zero_def default_pbr_basic_stat_def)
    then show ?thesis
      using proto_response [OF number_json_pointer_keys _ _ _ _ refl,
          of "[leaf_update [''fib-stats'', ''byte-count''] (UintVal 1),
               leaf_update [''fib-stats'', ''byte-count''] (UintVal 2)]" key_p1_r3 pbr_basic_vt
             "\<lparr>pbr_keys = [], pbr_stats = []\<rparr>"]
      by (simp add: key_p1_r3_def unordered_map_to_stats_describes_eq [symmetric])
  qed
  have "byte_count ?st = 2"
    by (rule proto_last_update_wins [OF number_json_pointer_keys, where key = key_p1_r3 and ys = "[]"
          and xs = "[leaf_update [''fib-stats'', ''byte-count''] (UintVal 1)]"
          and c = "\<lparr>pbr_keys = [], pbr_stats = []\<rparr>"])
      (use result in \<open>simp_all add: key_p1_r3_def\<close>)
  with result show ?thesis by blast
qed

lemma unsupported_map_fails:
  assumes "typed_value_text v = ''unsupported_type''"
  shows "map_to_basic_stat ((fold gnmi_decode_proto
      [leaf_update [''fib-stats'', ''byte-count''] v] Map.empty)
        (''policy_name'' \<mapsto> p, ''rule_name'' \<mapsto> r)) = Inl (Invalid_argument ''stoull'')"
proof -
  have "stoull ''unsupported_type'' = Inl (Invalid_argument ''stoull'')"
    by (intro stoull_no_digit) (simp add: is_space_def is_digit_def)
  then show ?thesis
    using assms by (simp add: map_to_basic_stat_eq counter_or_zero_def gnmi_decode_proto_def)
qed

text \<open>
  One value of an unexpected type makes the check throw. When the byte count of a sample carries
  any value the decoder has no text for (bytes, a list, a float, no value), the text
  \<open>unsupported_type\<close> reaches \<open>std::stoull\<close>, whose exception leaves \<open>check_response\<close>.
\<close>

lemma unsupported_counter_value_throws:
  assumes "json_pointer_keys api" and "key_policy key \<noteq> ''''" and "key_rule key \<noteq> ''''"
    and "typed_value_text v = ''unsupported_type''" and "\<forall>s. v \<noteq> JsonIetfVal s"
  shows "check_response api pbr_basic_vt
     (ResponseUpdate \<lparr>notif_prefix = Some (sample_prefix key),
                      notif_update = [leaf_update [''fib-stats'', ''byte-count''] v]\<rparr>) c =
   ([], Inl (Invalid_argument ''stoull''))"
proof -
  let ?u = "leaf_update [''fib-stats'', ''byte-count''] v"
  let ?m = "(fold gnmi_decode_proto [?u] Map.empty)
    (''policy_name'' \<mapsto> key_policy key, ''rule_name'' \<mapsto> key_rule key)"
  have "proto_update ?u"
    using assms(5) by (simp split: typed_value.splits)
  then have "check_response api pbr_basic_vt (ResponseUpdate \<lparr>notif_prefix = Some (sample_prefix key), notif_update = [?u]\<rparr>) c =
    ([], bind_result (unordered_map_to_stats ?m) (\<lambda>p. Inr (p, SUCCESS)))"
    using proto_response [OF assms(1) _ _ assms(2,3) refl, of "[?u]" pbr_basic_vt c] by simp
  then show ?thesis
    using unsupported_map_fails [OF assms(4), of "key_policy key" "key_rule key"]
    by (simp add: unordered_map_to_stats_def)
qed

lemma unsupported_counter_value_throws_example:
  "check_response number_json pbr_basic_vt
     (ResponseUpdate \<lparr>notif_prefix = Some (sample_prefix key_p1_r3),
                      notif_update = [leaf_update [''fib-stats'', ''byte-count''] (LeaflistVal [])]\<rparr>)
     \<lparr>pbr_keys = [key_p1_r3], pbr_stats = []\<rparr> =
   ([], Inl (Invalid_argument ''stoull''))"
  by (rule unsupported_counter_value_throws [OF number_json_pointer_keys])
    (simp_all add: key_p1_r3_def typed_value_text_def)

lemma check_response_cases:
  assumes "json_pointer_keys api"
  shows "snd (check_response api vt r c) =
    (case r of
       ResponseUpdate n \<Rightarrow>
         if response_code path_origin n = SUCCESS
         then bind_result (vt_to_stats vt c (response_map api n)) (\<lambda>p. Inr (p, SUCCESS))
         else Inr (None, response_code path_origin n)
     | _ \<Rightarrow> Inr (None, NO_NOTIFICATION))"
proof (cases r)
  case (ResponseUpdate n)
  show ?thesis
  proof (cases "response_code path_origin n = SUCCESS")
    case True
    then show ?thesis
      using check_response_update [OF assms True, of vt c] ResponseUpdate by simp
  next
    case False
    then obtain logs where
      "gnmi_parse_response api n path_origin = (logs, None, response_code path_origin n)"
      using gnmi_parse_response_outcome [OF assms, of n path_origin]
      by (cases "gnmi_parse_response api n path_origin") simp
    with False ResponseUpdate show ?thesis
      by (simp add: check_response_def)
  qed
qed (simp_all add: check_response_def)

lemma response_code_values: "response_code origin n \<noteq> NO_NOTIFICATION \<and>
    response_code origin n \<noteq> UNSUPPORTED_ENCODING"
  by (simp add: response_code_def Let_def split: option.splits)

text \<open>
  A check returns \<open>SUCCESS\<close> only with the pointer the counter object made of the decoded map,
  and a null pointer with every other code; \<open>NO_NOTIFICATION\<close> is returned exactly for a response
  without a notification (a sync response included), and the only exceptions are those of the
  conversion of the counter object, so the null map is never dereferenced.
\<close>

lemma check_response_result_discipline:
  assumes "json_pointer_keys api"
  shows "case snd (check_response api vt r c) of
      Inl e \<Rightarrow> \<exists>n. r = ResponseUpdate n \<and> vt_to_stats vt c (response_map api n) = Inl e
    | Inr (p, code) \<Rightarrow>
        (code = NO_NOTIFICATION \<longleftrightarrow> (\<forall>n. r \<noteq> ResponseUpdate n)) \<and>
        (if code = SUCCESS
         then \<exists>n. r = ResponseUpdate n \<and> vt_to_stats vt c (response_map api n) = Inr p
         else p = None)"
  unfolding check_response_cases [OF assms]
  using response_code_values
  by (cases r) (auto simp: result_simps split: sum.splits prod.splits)

lemma check_response_result_discipline_example:
  "snd (check_response number_json pbr_basic_vt (ResponseSync True) \<lparr>pbr_keys = [], pbr_stats = []\<rparr>) =
     Inr (None, NO_NOTIFICATION) \<and>
   NO_NOTIFICATION \<noteq> SUCCESS"
  using check_response_result_discipline [OF number_json_pointer_keys, where vt = pbr_basic_vt and
      r = "ResponseSync True" and c = "\<lparr>pbr_keys = [], pbr_stats = []\<rparr>"]
  by (simp add: check_response_def)

end
