(* ===== verification/Gnmi_Client.thy ===== *)
theory Gnmi_Client
  imports Gnmi_Decode
begin

text \<open>
  The class \<^verbatim>\<open>GnmiClient\<close> (\<^verbatim>\<open>mgbl_api/include/gnmi/mgbl_gnmi_client.h\<close>, \<^verbatim>\<open>mgbl_api.cpp\<close>): the
  counter object it is made for, the paths of a counter, and the blocking call
  \<^verbatim>\<open>rpc_register_stats_once\<close>. The gRPC library is a parameter: \<open>stream_api\<close> holds the operations of
  one \<^verbatim>\<open>ClientReaderWriter\<close> over a state \<open>'g\<close>. The concurrent part of the class is in
  \<open>Client_Stream\<close>.
\<close>

section \<open>The gRPC library\<close>

record grpc_status =
  status_code :: nat
  status_message :: string

definition ok_status :: grpc_status where
  "ok_status = \<lparr>status_code = 0, status_message = ''''\<rparr>"

definition status_ok :: "grpc_status \<Rightarrow> bool" where
  "status_ok st \<longleftrightarrow> status_code st = 0"

record client_context =
  ctx_metadata :: "(string \<times> string) list"
  ctx_deadline :: "int option"

text \<open>\<^verbatim>\<open>Subscribe\<close> on the stub, then \<^verbatim>\<open>Write\<close>, \<^verbatim>\<open>Read\<close> (\<open>None\<close> is false), \<^verbatim>\<open>WritesDone\<close>, \<^verbatim>\<open>Finish\<close>.\<close>

record 'g stream_api =
  rpc_subscribe :: "client_context \<Rightarrow> 'g"
  rw_write :: "subscribe_request \<Rightarrow> 'g \<Rightarrow> bool \<times> 'g"
  rw_read :: "'g \<Rightarrow> subscribe_response option \<times> 'g"
  rw_writes_done :: "'g \<Rightarrow> bool \<times> 'g"
  rw_finish :: "'g \<Rightarrow> grpc_status \<times> 'g"

definition make_context :: "client_context_args \<Rightarrow> client_context" where
  "make_context a =
     \<lparr>ctx_metadata = [(''username'', username a), (''password'', password a)],
      ctx_deadline = (if set_deadline a then Some (deadline a) else None)\<rparr>"

section \<open>The counter object\<close>

text \<open>
  A \<^verbatim>\<open>GnmiCounters\<close> object either derives from \<^verbatim>\<open>PBRBase\<close>, and is then reached through its virtual
  functions, or it does not, and then it has a name and a type name. The client's shared pointer
  to it is an option.
\<close>

datatype 'c gnmi_counters = PbrCounters 'c | OtherCounters string string

definition counters_name :: "('c, 's) pbr_vtable \<Rightarrow> 'c gnmi_counters \<Rightarrow> string" where
  "counters_name vt i = (case i of PbrCounters c \<Rightarrow> vt_name vt c | OtherCounters nm _ \<Rightarrow> nm)"

text \<open>
  The handler of the failed cast logs and then leaves a function that has to return a value.
\<close>

definition get_counter_gnmi_paths ::
  "('c, 's) pbr_vtable \<Rightarrow> 'c gnmi_counters \<Rightarrow> log_entry list \<times> string list result" where
  "get_counter_gnmi_paths vt counter =
     (case counter of
        PbrCounters c \<Rightarrow> ([], Inr (vt_paths vt c))
      | OtherCounters _ type_name \<Rightarrow>
          ([(''Bad cast exception from GnmiCounters to the required derived class. Actual class: ''
               @ type_name, ERROR)],
           Inl (Undefined_behaviour ''no value returned'')))"

section \<open>The blocking call\<close>

text \<open>
  The loop over \<^verbatim>\<open>Read\<close>: it returns the messages, the counter object, the stream, and the exception
  that left it, if any. A server that never ends the stream is the value \<open>None\<close>.
\<close>

partial_function (option) once_reads ::
  "'g stream_api \<Rightarrow> 'j json_api \<Rightarrow> ('c, 's) pbr_vtable \<Rightarrow> 'c \<Rightarrow> 'g \<Rightarrow> log_entry list \<Rightarrow>
     (log_entry list \<times> 'c \<times> 'g \<times> fault option) option" where
  "once_reads sapi japi vt c g logs =
     (case rw_read sapi g of
        (None, g') \<Rightarrow> Some (logs, c, g', None)
      | (Some response, g') \<Rightarrow>
          (case check_response japi vt response c of
             (l, Inl e) \<Rightarrow> Some (logs @ l, c, g', Some e)
           | (l, Inr (p, code)) \<Rightarrow>
               if code = SUCCESS
               then (case vt_add_stats vt p c of
                       (l', c') \<Rightarrow>
                         once_reads sapi japi vt c' g'
                           (logs @ l @ [(''Client received a response.'', VERBOSE)] @ l'))
               else once_reads sapi japi vt c g' (logs @ l)))"

record ('c, 'g) once_result =
  or_logs :: "log_entry list"
  or_counters :: "'c gnmi_counters option"
  or_args :: rpc_args
  or_stream :: "'g option"
  or_return :: "(error_code \<times> grpc_status) result"

definition once_finish ::
  "'g stream_api \<Rightarrow> rpc_args \<Rightarrow> log_entry list \<Rightarrow> 'c \<Rightarrow> 'g \<Rightarrow> ('c, 'g) once_result" where
  "once_finish sapi args logs c g =
     (let (done, g1) = rw_writes_done sapi g;
          l1 = (if done then []
                else [(''Signal to server that we are done writing, was unsuccessful'', WARNING)]);
          (status, g2) = rw_finish sapi g1;
          (l2, code) =
            (if \<not> status_ok status
             then ([(''Subscribe rpc failed: '' @ status_message status, ERROR)], RPC_FAILURE)
             else ([(''Subscribe rpc passed '', INFO)], RPC_SUCCESS))
      in \<lparr>or_logs = logs @ l1 @ l2, or_counters = Some (PbrCounters c), or_args = args,
          or_stream = Some g2, or_return = Inr (code, status)\<rparr>)"

definition once_refused ::
  "'c gnmi_counters option \<Rightarrow> rpc_args \<Rightarrow> log_entry list \<Rightarrow> (error_code \<times> grpc_status) result \<Rightarrow>
     ('c, 'g) once_result" where
  "once_refused i args logs ret =
     \<lparr>or_logs = logs, or_counters = i, or_args = args, or_stream = None, or_return = ret\<rparr>"

definition rpc_register_stats_once ::
  "'g stream_api \<Rightarrow> 'j json_api \<Rightarrow> ('c, 's) pbr_vtable \<Rightarrow> client_context_args \<Rightarrow> rpc_args \<Rightarrow>
     'c gnmi_counters option \<Rightarrow> ('c, 'g) once_result option" where
  "rpc_register_stats_once sapi japi vt context_args args interface =
     (case interface of
        None \<Rightarrow> Some (once_refused interface args [] (Inl (Undefined_behaviour ''null interface'')))
      | Some i \<Rightarrow>
          if counters_name vt i \<noteq> ''pbr''
          then Some (once_refused interface args
                 [(''Error, this client can only do one type of request. Current request type is ''
                     @ counters_name vt i @ ''\<newline>'', ERROR)]
                 (Inr (CLIENT_TYPE_FAILURE, ok_status)))
          else if username context_args = '''' \<or> password context_args = ''''
          then Some (once_refused interface args [(''Username or password is empty'', ERROR)]
                 (Inr (CLIENT_TYPE_FAILURE, ok_status)))
          else
            (case i of
               OtherCounters _ _ \<Rightarrow>
                 Some (once_refused interface args [] (Inl (Undefined_behaviour ''null pbr_interface'')))
             | PbrCounters c \<Rightarrow>
                 (let info = \<lparr>rsa_prefix = path_origin, paths_of_interest = vt_paths vt c\<rparr>;
                      args' = args\<lparr>args_mode := ONCE\<rparr>;
                      (l1, request, _) = subscribe_request_helper None args' info;
                      (written, g) = rw_write sapi request
                        (rpc_subscribe sapi (make_context context_args));
                      l2 = (if written
                            then [(''Subscribe Once Request: Write operation succeeded'', INFO)]
                            else [(''Subscribe Once Request: Write operation failed'', ERROR)])
                  in case once_reads sapi japi vt c g (l1 @ l2) of
                       None \<Rightarrow> None
                     | Some (logs, c', g', Some e) \<Rightarrow>
                         Some \<lparr>or_logs = logs, or_counters = Some (PbrCounters c'), or_args = args',
                               or_stream = Some g', or_return = Inl e\<rparr>
                     | Some (logs, c', g', None) \<Rightarrow> Some (once_finish sapi args' logs c' g'))))"

section \<open>What the loop does with a sequence of responses\<close>

text \<open>The stream after it has delivered the given responses, in order.\<close>

fun after_reads :: "'g stream_api \<Rightarrow> subscribe_response list \<Rightarrow> 'g \<Rightarrow> 'g option" where
  "after_reads sapi [] g = Some g"
| "after_reads sapi (r # rs) g =
     (case rw_read sapi g of
        (Some r', g') \<Rightarrow> if r' = r then after_reads sapi rs g' else None
      | (None, _) \<Rightarrow> None)"

text \<open>The messages, the counter object and the exception after a list of responses.\<close>

fun take_responses ::
  "'j json_api \<Rightarrow> ('c, 's) pbr_vtable \<Rightarrow> subscribe_response list \<Rightarrow> 'c \<Rightarrow>
     log_entry list \<times> 'c \<times> fault option" where
  "take_responses japi vt [] c = ([], c, None)"
| "take_responses japi vt (r # rs) c =
     (case check_response japi vt r c of
        (l, Inl e) \<Rightarrow> (l, c, Some e)
      | (l, Inr (p, code)) \<Rightarrow>
          (let (l', c') = (if code = SUCCESS then vt_add_stats vt p c else ([], c));
               m = (if code = SUCCESS then [(''Client received a response.'', VERBOSE)] else []);
               (l'', c'', e) = take_responses japi vt rs c'
           in (l @ m @ l' @ l'', c'', e)))"

text \<open>The maps the successful responses are decoded to.\<close>

definition successful_map :: "'j json_api \<Rightarrow> subscribe_response \<Rightarrow> string_map option" where
  "successful_map japi r =
     (case r of
        ResponseUpdate n \<Rightarrow>
          if response_code path_origin n = SUCCESS then Some (response_map japi n) else None
      | _ \<Rightarrow> None)"

definition successful_maps :: "'j json_api \<Rightarrow> subscribe_response list \<Rightarrow> string_map list" where
  "successful_maps japi rs = List.map_filter (successful_map japi) rs"

lemma successful_maps_simps [simp]:
  "successful_maps japi [] = []"
  "successful_maps japi (r # rs) =
     (case successful_map japi r of None \<Rightarrow> [] | Some m \<Rightarrow> [m]) @ successful_maps japi rs"
  by (simp_all add: successful_maps_def map_filter_simps split: option.splits)

lemma check_response_successful:
  assumes "json_pointer_keys japi"
  shows "successful_map japi r = None \<Longrightarrow>
      \<exists>l code. check_response japi vt r c = (l, Inr (None, code)) \<and> code \<noteq> SUCCESS"
    and "successful_map japi r = Some m \<Longrightarrow>
      \<exists>l. check_response japi vt r c =
        (l, bind_result (vt_to_stats vt c m) (\<lambda>p. Inr (p, SUCCESS)))"
  using check_response_cases [OF assms, of vt r c] response_code_values [of path_origin]
  by (cases "check_response japi vt r c"; auto simp: successful_map_def
      split: subscribe_response.splits if_splits)+

lemma once_reads_take:
  assumes "after_reads sapi rs g = Some g'"
    and "take_responses japi vt rs c = (l, c', None)"
  shows "once_reads sapi japi vt c g logs = once_reads sapi japi vt c' g' (logs @ l)"
  using assms
proof (induction rs arbitrary: c g l logs)
  case (Cons r rs)
  obtain g1 where read: "rw_read sapi g = (Some r, g1)" "after_reads sapi rs g1 = Some g'"
    using Cons.prems(1) by (auto split: prod.splits option.splits if_splits)
  obtain l0 p code where check: "check_response japi vt r c = (l0, Inr (p, code))"
    using Cons.prems(2) by (auto split: prod.splits sum.splits)
  obtain l1 c1 where add: "(if code = SUCCESS then vt_add_stats vt p c else ([], c)) = (l1, c1)"
    by fastforce
  obtain l2 where rest: "take_responses japi vt rs c1 = (l2, c', None)"
    and l: "l = l0 @ (if code = SUCCESS then [(''Client received a response.'', VERBOSE)] else []) @ l1 @ l2"
    using Cons.prems(2) check add by (auto split: prod.splits)
  have step: "once_reads sapi japi vt c g logs =
      once_reads sapi japi vt c1 g1
        (logs @ l0 @ (if code = SUCCESS then [(''Client received a response.'', VERBOSE)] else []) @ l1)"
    using add by (cases "code = SUCCESS"; subst once_reads.simps) (use check in \<open>simp_all add: read\<close>)
  show ?case
    unfolding step Cons.IH [OF read(2) rest] l by simp
qed simp

lemma once_reads_ends: "rw_read sapi g = (None, g') \<Longrightarrow>
    once_reads sapi japi vt c g logs = Some (logs, c, g', None)"
  by (subst once_reads.simps) simp

lemma once_reads_throws: "rw_read sapi g = (Some r, g') \<Longrightarrow>
    check_response japi vt r c = (l, Inl e) \<Longrightarrow>
    once_reads sapi japi vt c g logs = Some (logs @ l, c, g', Some e)"
  by (subst once_reads.simps) simp

text \<open>Every client of a counter object gets one record per successful response, in order.\<close>

context pbr_base
begin

lemma take_responses_records:
  assumes "json_pointer_keys japi"
    and "traverse conv (successful_maps japi rs) = Inr sts"
  shows "\<exists>l c'. take_responses japi vt rs c = (l, c', None) \<and> records c' = records c @ sts \<and>
    vt_name vt c' = vt_name vt c \<and> vt_paths vt c' = vt_paths vt c"
  using assms(2)
proof (induction rs arbitrary: c sts)
  case (Cons r rs)
  show ?case
  proof (cases "successful_map japi r")
    case None
    obtain l code where "check_response japi vt r c = (l, Inr (None, code))" "code \<noteq> SUCCESS"
      using check_response_successful(1) [OF assms(1) None, of vt c] by (elim exE conjE)
    with Cons.IH [of sts c] Cons.prems None show ?thesis by (auto split: prod.splits)
  next
    case (Some m)
    then obtain st sts' where st: "conv m = Inr st" "traverse conv (successful_maps japi rs) = Inr sts'"
      and sts: "sts = st # sts'"
      using Cons.prems by (auto simp: result_simps)
    obtain s where s: "vt_to_stats vt c m = Inr s"
      using st(1) to_stats_fails [of c m] by (cases "vt_to_stats vt c m") auto
    obtain l where check: "check_response japi vt r c = (l, Inr (s, SUCCESS))"
      using check_response_successful(2) [OF assms(1) Some, of vt c] s by auto
    obtain l1 c1 where add: "vt_add_stats vt s c = (l1, c1)" by fastforce
    then have "records c1 = records c @ [st]" "vt_name vt c1 = vt_name vt c" "vt_paths vt c1 = vt_paths vt c"
      using add_converted [OF s st(1), of c] add_keeps_name [of s c] add_keeps_paths [of s c] by simp_all
    with Cons.IH [OF st(2), of c1] check add sts show ?thesis by (auto split: prod.splits)
  qed
qed simp

lemma check_response_throws:
  assumes "json_pointer_keys japi" "successful_map japi r = Some m" "conv m = Inl e"
  shows "\<exists>l. check_response japi vt r c = (l, Inl e)"
  using check_response_successful(2) [OF assms(1,2), of vt c] assms(3) to_stats_fails [of c m e] by auto

end

section \<open>Properties of the blocking call\<close>

text \<open>The request for a list of keys, and the stream once it has been written.\<close>

definition once_args :: "rpc_args \<Rightarrow> rpc_args" where
  "once_args args = args\<lparr>args_mode := ONCE\<rparr>"

definition credentials_given :: "client_context_args \<Rightarrow> bool" where
  "credentials_given ctx \<longleftrightarrow> username ctx \<noteq> '''' \<and> password ctx \<noteq> ''''"

definition after_write ::
  "'g stream_api \<Rightarrow> client_context_args \<Rightarrow> subscribe_request \<Rightarrow> 'g" where
  "after_write sapi ctx request = snd (rw_write sapi request (rpc_subscribe sapi (make_context ctx)))"

definition decodable :: "encoding \<Rightarrow> bool" where
  "decodable e \<longleftrightarrow> e = PROTO \<or> e = JSON_IETF"

text \<open>Whatever the request is, an accepted call is the loop on the stream it was written to.\<close>

lemma once_accepted:
  assumes "vt_name vt c = ''pbr''" "credentials_given ctx"
    and "subscribe_request_helper None (once_args args)
      \<lparr>rsa_prefix = path_origin, paths_of_interest = vt_paths vt c\<rparr> = (l1, request, code)"
  shows "\<exists>l. rpc_register_stats_once sapi japi vt ctx args (Some (PbrCounters c)) =
    (case once_reads sapi japi vt c (after_write sapi ctx request) l of
       None \<Rightarrow> None
     | Some (logs, c', g', Some e) \<Rightarrow>
         Some \<lparr>or_logs = logs, or_counters = Some (PbrCounters c'), or_args = once_args args,
               or_stream = Some g', or_return = Inl e\<rparr>
     | Some (logs, c', g', None) \<Rightarrow> Some (once_finish sapi (once_args args) logs c' g'))"
  using assms unfolding once_args_def
  by (cases "rw_write sapi request (rpc_subscribe sapi (make_context ctx))")
    (auto simp: rpc_register_stats_once_def counters_name_def credentials_given_def after_write_def
      Let_def intro: exI)

lemma once_finish_fields:
  "or_counters (once_finish sapi args logs c g) = Some (PbrCounters c) \<and>
   or_args (once_finish sapi args logs c g) = args \<and>
   or_stream (once_finish sapi args logs c g) =
     Some (snd (rw_finish sapi (snd (rw_writes_done sapi g)))) \<and>
   or_return (once_finish sapi args logs c g) =
     (let status = fst (rw_finish sapi (snd (rw_writes_done sapi g)))
      in Inr (if status_ok status then RPC_SUCCESS else RPC_FAILURE, status))"
  by (simp add: once_finish_def Let_def split: prod.splits)

lemma once_completes:
  assumes "vt_name vt c = ''pbr''" "credentials_given ctx"
    and "subscribe_request_helper None (once_args args)
      \<lparr>rsa_prefix = path_origin, paths_of_interest = vt_paths vt c\<rparr> = (l1, request, code)"
    and "after_reads sapi rs (after_write sapi ctx request) = Some g" "rw_read sapi g = (None, g')"
    and "take_responses japi vt rs c = (l, c', None)"
  shows "\<exists>logs. rpc_register_stats_once sapi japi vt ctx args (Some (PbrCounters c)) =
    Some (once_finish sapi (once_args args) logs c' g')"
proof -
  obtain l0 where "rpc_register_stats_once sapi japi vt ctx args (Some (PbrCounters c)) =
    (case once_reads sapi japi vt c (after_write sapi ctx request) l0 of
       None \<Rightarrow> None
     | Some (logs, c', g', Some e) \<Rightarrow>
         Some \<lparr>or_logs = logs, or_counters = Some (PbrCounters c'), or_args = once_args args,
               or_stream = Some g', or_return = Inl e\<rparr>
     | Some (logs, c', g', None) \<Rightarrow> Some (once_finish sapi (once_args args) logs c' g'))"
    using once_accepted [OF assms(1-3), of sapi japi] by blast
  then show ?thesis
    by (intro exI [of _ "l0 @ l"]) (simp add: once_reads_take [OF assms(4,6)] once_reads_ends [OF assms(5)])
qed

lemma once_request:
  assumes "decodable (args_encoding args)" "list_all servable (pbr_keys c)"
  shows "subscribe_request_helper None (once_args args)
      \<lparr>rsa_prefix = path_origin, paths_of_interest = vt_paths pbr_basic_vt c\<rparr> =
    ([], Some (sample_list (once_args args) (map pbr_request_path (pbr_keys c))), SUCCESS)"
  using assms by (intro subscribe_request_helper_keys) (auto simp: once_args_def decodable_def)

text \<open>What a blocking call has collected when a server delivered a list of responses.\<close>

lemma once_gains:
  assumes "json_pointer_keys japi" "credentials_given ctx" "decodable (args_encoding args)"
    and "list_all servable (pbr_keys c)"
    and "after_reads sapi rs (after_write sapi ctx
           (Some (sample_list (once_args args) (map pbr_request_path (pbr_keys c))))) = Some g"
    and "rw_read sapi g = (None, g')"
    and "traverse map_to_basic_stat (successful_maps japi rs) = Inr sts"
  shows "\<exists>r c'. rpc_register_stats_once sapi japi pbr_basic_vt ctx args (Some (PbrCounters c)) = Some r \<and>
    or_counters r = Some (PbrCounters c') \<and> pbr_stats c' = pbr_stats c @ sts"
proof -
  obtain l c' where take: "take_responses japi pbr_basic_vt rs c = (l, c', None)"
    and c': "pbr_stats c' = pbr_stats c @ sts"
    using basic_counters.take_responses_records [OF assms(1,7), of c] by auto
  obtain logs where "rpc_register_stats_once sapi japi pbr_basic_vt ctx args (Some (PbrCounters c)) =
      Some (once_finish sapi (once_args args) logs c' g')"
    using once_completes [OF _ assms(2) once_request [OF assms(3,4)] assms(5,6) take] by auto
  with c' once_finish_fields [of sapi "once_args args" logs c' g'] show ?thesis by auto
qed

text \<open>
  C1: the blocking call collects what the server sent. When the server delivers any responses and
  then ends the stream, and every successful response describes a record, the call returns: the
  request for exactly the keys of the object was written once to a stream opened with the
  credentials, the object gains those records in order and nothing else, and the stream was then
  told that writing is done and finished once, in this order, whose status decides the result.
\<close>

theorem once_collects_records:
  assumes "json_pointer_keys japi" "credentials_given ctx" "decodable (args_encoding args)"
    and "list_all servable (pbr_keys c)"
    and "after_reads sapi rs (after_write sapi ctx
           (Some (sample_list (once_args args) (map pbr_request_path (pbr_keys c))))) = Some g"
    and "rw_read sapi g = (None, g')"
    and "traverse map_to_basic_stat (successful_maps japi rs) = Inr sts"
  shows "\<exists>r c'. rpc_register_stats_once sapi japi pbr_basic_vt ctx args (Some (PbrCounters c)) = Some r \<and>
    or_counters r = Some (PbrCounters c') \<and> pbr_stats c' = pbr_stats c @ sts \<and>
    get_gnmi_paths (pbr_keys c') = get_gnmi_paths (pbr_keys c) \<and>
    or_stream r = Some (snd (rw_finish sapi (snd (rw_writes_done sapi g')))) \<and>
    or_return r = (let status = fst (rw_finish sapi (snd (rw_writes_done sapi g')))
      in Inr (if status_ok status then RPC_SUCCESS else RPC_FAILURE, status))"
proof -
  obtain l c' where take: "take_responses japi pbr_basic_vt rs c = (l, c', None)"
    and c': "pbr_stats c' = pbr_stats c @ sts" "get_gnmi_paths (pbr_keys c') = get_gnmi_paths (pbr_keys c)"
    using basic_counters.take_responses_records [OF assms(1,7), of c] by auto
  note request = once_request [OF assms(3,4)]
  obtain logs where "rpc_register_stats_once sapi japi pbr_basic_vt ctx args (Some (PbrCounters c)) =
      Some (once_finish sapi (once_args args) logs c' g')"
    using once_completes [OF _ assms(2) request assms(5,6) take] by auto
  with c' once_finish_fields [of sapi "once_args args" logs c' g'] show ?thesis by auto
qed

text \<open>
  An exception leaves the stream open. When a successful response carries a counter text that
  is no number, the exception of \<open>std::stoull\<close> leaves the call right after that response was read:
  neither \<open>WritesDone\<close> nor \<open>Finish\<close> is called, and the records before it have been kept.
\<close>

lemma once_exception_skips_finish:
  assumes "json_pointer_keys japi" "credentials_given ctx" "decodable (args_encoding args)"
    and "list_all servable (pbr_keys c)"
    and "after_reads sapi rs (after_write sapi ctx
           (Some (sample_list (once_args args) (map pbr_request_path (pbr_keys c))))) = Some g"
    and "rw_read sapi g = (Some r, g')"
    and "traverse map_to_basic_stat (successful_maps japi rs) = Inr sts"
    and "successful_map japi r = Some m" "map_to_basic_stat m = Inl e"
  shows "\<exists>res c'. rpc_register_stats_once sapi japi pbr_basic_vt ctx args (Some (PbrCounters c)) = Some res \<and>
    or_counters res = Some (PbrCounters c') \<and> pbr_stats c' = pbr_stats c @ sts \<and>
    or_stream res = Some g' \<and> or_return res = Inl e"
proof -
  obtain l c' where take: "take_responses japi pbr_basic_vt rs c = (l, c', None)"
    and c': "pbr_stats c' = pbr_stats c @ sts"
    using basic_counters.take_responses_records [OF assms(1,7), of c] by auto
  obtain l' where throws: "check_response japi pbr_basic_vt r c' = (l', Inl e)"
    using basic_counters.check_response_throws [OF assms(1,8,9)] by auto
  note request = once_request [OF assms(3,4)]
  show ?thesis
    using once_accepted [OF _ assms(2) request, of sapi japi] c'
    by (auto simp: once_reads_take [OF assms(5) take] once_reads_throws [OF assms(6) throws])
qed

text \<open>A server with a script: it records the calls, delivers the pending responses, and ends with a status.\<close>

datatype rpc_call =
    CallSubscribe client_context
  | CallWrite subscribe_request
  | CallRead
  | CallWritesDone
  | CallFinish

record scripted =
  sc_calls :: "rpc_call list"
  sc_pending :: "subscribe_response list"

definition scripted_api :: "subscribe_response list \<Rightarrow> grpc_status \<Rightarrow> scripted stream_api" where
  "scripted_api rs status =
     \<lparr>rpc_subscribe = (\<lambda>ctx. \<lparr>sc_calls = [CallSubscribe ctx], sc_pending = rs\<rparr>),
      rw_write = (\<lambda>req g. (True, g\<lparr>sc_calls := sc_calls g @ [CallWrite req]\<rparr>)),
      rw_read = (\<lambda>g. case sc_pending g of
          [] \<Rightarrow> (None, g\<lparr>sc_calls := sc_calls g @ [CallRead]\<rparr>)
        | r # rs' \<Rightarrow> (Some r, g\<lparr>sc_calls := sc_calls g @ [CallRead], sc_pending := rs'\<rparr>)),
      rw_writes_done = (\<lambda>g. (True, g\<lparr>sc_calls := sc_calls g @ [CallWritesDone]\<rparr>)),
      rw_finish = (\<lambda>g. (status, g\<lparr>sc_calls := sc_calls g @ [CallFinish]\<rparr>))\<rparr>"

lemma scripted_api_simps [simp]:
  "rpc_subscribe (scripted_api rs st) ctx = \<lparr>sc_calls = [CallSubscribe ctx], sc_pending = rs\<rparr>"
  "rw_write (scripted_api rs st) req g = (True, g\<lparr>sc_calls := sc_calls g @ [CallWrite req]\<rparr>)"
  "rw_read (scripted_api rs st) \<lparr>sc_calls = cs, sc_pending = []\<rparr> =
     (None, \<lparr>sc_calls = cs @ [CallRead], sc_pending = []\<rparr>)"
  "rw_read (scripted_api rs st) \<lparr>sc_calls = cs, sc_pending = r # rs'\<rparr> =
     (Some r, \<lparr>sc_calls = cs @ [CallRead], sc_pending = rs'\<rparr>)"
  "rw_writes_done (scripted_api rs st) g = (True, g\<lparr>sc_calls := sc_calls g @ [CallWritesDone]\<rparr>)"
  "rw_finish (scripted_api rs st) g = (st, g\<lparr>sc_calls := sc_calls g @ [CallFinish]\<rparr>)"
  by (simp_all add: scripted_api_def)

definition sample_context :: client_context_args where
  "sample_context = \<lparr>username = ''u'', password = ''p'', set_deadline = False, deadline = 0\<rparr>"

definition sample_counters :: pbr_basic where
  "sample_counters = \<lparr>pbr_keys = [key_p1_r3], pbr_stats = []\<rparr>"

lemma scripted_status: "status_ok ok_status"
  by (simp add: status_ok_def ok_status_def)

lemma sample_counters_stats: "pbr_stats sample_counters = []"
  by (simp add: sample_counters_def)

definition sample_response :: subscribe_response where
  "sample_response = ResponseUpdate
     \<lparr>notif_prefix = Some (sample_prefix key_p1_r3), notif_update = sample_updates 1 2 3 4 ''g'' ''a''\<rparr>"

lemma sample_response_map: "\<exists>m. successful_map japi sample_response = Some m \<and>
    map_to_basic_stat m = Inr (sample_stat key_p1_r3 1 2 3 4 ''g'' ''a'')"
proof -
  let ?n = "\<lparr>notif_prefix = Some (sample_prefix key_p1_r3), notif_update = sample_updates 1 2 3 4 ''g'' ''a''\<rparr>"
  have key: "key_policy key_p1_r3 \<noteq> ''''" "key_rule key_p1_r3 \<noteq> ''''"
    by (simp_all add: key_p1_r3_def)
  show ?thesis
    using proto_response_map(1) [OF sample_updates_proto key refl, of 1 2 3 4 "''g''" "''a''"]
      proto_response_map(2) [OF sample_updates_proto key refl, of japi 1 2 3 4 "''g''" "''a''"]
      sample_map_decodes [of 1 2 3 4 "''g''" "''a''" key_p1_r3]
    by (simp add: successful_map_def sample_response_def)
qed

lemma sample_calls:
  "after_reads (scripted_api rs st) rs (after_write (scripted_api rs st) ctx req) =
     Some \<lparr>sc_calls = [CallSubscribe (make_context ctx), CallWrite req] @ replicate (length rs) CallRead,
           sc_pending = []\<rparr>"
proof -
  have "after_reads (scripted_api rs st) rs' \<lparr>sc_calls = cs, sc_pending = rs'\<rparr> =
      Some \<lparr>sc_calls = cs @ replicate (length rs') CallRead, sc_pending = []\<rparr>" for rs' cs
    by (induction rs' arbitrary: cs) (simp_all add: replicate_app_Cons_same)
  then show ?thesis by (simp add: after_write_def)
qed

theorem once_collects_records_witness:
  "\<exists>r c'. rpc_register_stats_once (scripted_api [sample_response, ResponseSync True] ok_status)
      number_json pbr_basic_vt sample_context default_rpc_args (Some (PbrCounters sample_counters)) = Some r \<and>
    or_counters r = Some (PbrCounters c') \<and>
    pbr_stats c' = [sample_stat key_p1_r3 1 2 3 4 ''g'' ''a''] \<and>
    or_stream r = Some \<lparr>sc_calls =
      [CallSubscribe (make_context sample_context),
       CallWrite (Some (sample_list (once_args default_rpc_args) [pbr_request_path key_p1_r3])),
       CallRead, CallRead, CallRead, CallWritesDone, CallFinish], sc_pending = []\<rparr> \<and>
    or_return r = Inr (RPC_SUCCESS, ok_status)"
proof -
  let ?api = "scripted_api [sample_response, ResponseSync True] ok_status"
  let ?req = "Some (sample_list (once_args default_rpc_args) [pbr_request_path key_p1_r3])"
  obtain m where m: "successful_map number_json sample_response = Some m"
    "map_to_basic_stat m = Inr (sample_stat key_p1_r3 1 2 3 4 ''g'' ''a'')"
    using sample_response_map by blast
  have maps: "traverse map_to_basic_stat (successful_maps number_json [sample_response, ResponseSync True]) =
      Inr [sample_stat key_p1_r3 1 2 3 4 ''g'' ''a'']"
    using m by (simp add: successful_map_def [of _ "ResponseSync _"])
  have ok: "credentials_given sample_context" "decodable (args_encoding default_rpc_args)"
    "list_all servable (pbr_keys sample_counters)"
    by (simp_all add: sample_context_def credentials_given_def decodable_def default_rpc_args_def
        sample_counters_def servable_key_p1_r3)
  have reads: "after_reads ?api [sample_response, ResponseSync True]
      (after_write ?api sample_context (Some (sample_list (once_args default_rpc_args)
        (map pbr_request_path (pbr_keys sample_counters))))) =
    Some \<lparr>sc_calls = [CallSubscribe (make_context sample_context), CallWrite ?req, CallRead, CallRead],
          sc_pending = []\<rparr>"
    unfolding sample_calls by (simp add: sample_counters_def numeral_2_eq_2)
  show ?thesis
    using once_collects_records [OF number_json_pointer_keys ok reads scripted_api_simps(3) maps]
    by (auto simp: scripted_status sample_counters_stats)
qed

definition bad_response :: subscribe_response where
  "bad_response = ResponseUpdate
     \<lparr>notif_prefix = Some (sample_prefix key_p1_r3),
      notif_update = [leaf_update [''fib-stats'', ''byte-count''] (LeaflistVal [])]\<rparr>"

lemma bad_response_map: "\<exists>m. successful_map japi bad_response = Some m \<and>
    map_to_basic_stat m = Inl (Invalid_argument ''stoull'')"
proof -
  have key: "key_policy key_p1_r3 \<noteq> ''''" "key_rule key_p1_r3 \<noteq> ''''"
    by (simp_all add: key_p1_r3_def)
  have us: "list_all proto_update [leaf_update [''fib-stats'', ''byte-count''] (LeaflistVal [])]"
    "[leaf_update [''fib-stats'', ''byte-count''] (LeaflistVal [])] \<noteq> []"
    by simp_all
  show ?thesis
    using proto_response_map(1) [OF us key refl] proto_response_map(2) [OF us key refl, of japi]
      unsupported_map_fails [of "LeaflistVal []" "key_policy key_p1_r3" "key_rule key_p1_r3"]
    by (simp add: successful_map_def bad_response_def typed_value_text_def)
qed

lemma once_exception_skips_finish_example:
  "\<exists>r c'. rpc_register_stats_once (scripted_api [bad_response, ResponseSync True] ok_status)
      number_json pbr_basic_vt sample_context default_rpc_args (Some (PbrCounters sample_counters)) = Some r \<and>
    or_counters r = Some (PbrCounters c') \<and> pbr_stats c' = [] \<and>
    or_stream r = Some \<lparr>sc_calls =
      [CallSubscribe (make_context sample_context),
       CallWrite (Some (sample_list (once_args default_rpc_args) [pbr_request_path key_p1_r3])),
       CallRead], sc_pending = [ResponseSync True]\<rparr> \<and>
    or_return r = Inl (Invalid_argument ''stoull'')"
proof -
  let ?api = "scripted_api [bad_response, ResponseSync True] ok_status"
  let ?req = "Some (sample_list (once_args default_rpc_args) [pbr_request_path key_p1_r3])"
  obtain m where m: "successful_map number_json bad_response = Some m"
    "map_to_basic_stat m = Inl (Invalid_argument ''stoull'')"
    using bad_response_map by blast
  have maps: "traverse map_to_basic_stat (successful_maps number_json []) = Inr []" by simp
  have ok: "credentials_given sample_context" "decodable (args_encoding default_rpc_args)"
    "list_all servable (pbr_keys sample_counters)"
    by (simp_all add: sample_context_def credentials_given_def decodable_def default_rpc_args_def
        sample_counters_def servable_key_p1_r3)
  have reads: "after_reads ?api []
      (after_write ?api sample_context (Some (sample_list (once_args default_rpc_args)
        (map pbr_request_path (pbr_keys sample_counters))))) =
    Some \<lparr>sc_calls = [CallSubscribe (make_context sample_context), CallWrite ?req],
          sc_pending = [bad_response, ResponseSync True]\<rparr>"
    by (simp add: after_write_def sample_counters_def)
  show ?thesis
    using once_exception_skips_finish [OF number_json_pointer_keys ok reads scripted_api_simps(4) maps m]
    by (simp add: sample_counters_stats)
qed

lemma once_return_code_cases:
  assumes "rpc_register_stats_once sapi japi vt ctx args (Some i) = Some r"
    and "or_return r = Inr (code, status)"
  shows "(code = CLIENT_TYPE_FAILURE \<longleftrightarrow> or_stream r = None) \<and>
    (code = CLIENT_TYPE_FAILURE \<longleftrightarrow> counters_name vt i \<noteq> ''pbr'' \<or> \<not> credentials_given ctx) \<and>
    (code = CLIENT_TYPE_FAILURE \<longrightarrow> or_counters r = Some i \<and> or_args r = args \<and> status = ok_status) \<and>
    (code = RPC_FAILURE \<longleftrightarrow> \<not> status_ok status) \<and> code \<noteq> WRITES_FAILED"
proof (cases "counters_name vt i \<noteq> ''pbr'' \<or> \<not> credentials_given ctx")
  case True
  then show ?thesis
    using assms by (auto simp: rpc_register_stats_once_def once_refused_def credentials_given_def
        status_ok_def ok_status_def split: if_splits)
next
  case False
  then obtain c where i: "i = PbrCounters c" "vt_name vt c = ''pbr''"
    using assms by (cases i) (auto simp: rpc_register_stats_once_def once_refused_def
        counters_name_def credentials_given_def)
  obtain l1 request cd where "subscribe_request_helper None (once_args args)
      \<lparr>rsa_prefix = path_origin, paths_of_interest = vt_paths vt c\<rparr> = (l1, request, cd)"
    by (cases "subscribe_request_helper None (once_args args)
      \<lparr>rsa_prefix = path_origin, paths_of_interest = vt_paths vt c\<rparr>")
  then obtain l where "rpc_register_stats_once sapi japi vt ctx args (Some (PbrCounters c)) =
    (case once_reads sapi japi vt c (after_write sapi ctx request) l of
       None \<Rightarrow> None
     | Some (logs, c', g', Some e) \<Rightarrow>
         Some \<lparr>or_logs = logs, or_counters = Some (PbrCounters c'), or_args = once_args args,
               or_stream = Some g', or_return = Inl e\<rparr>
     | Some (logs, c', g', None) \<Rightarrow> Some (once_finish sapi (once_args args) logs c' g'))"
    using once_accepted [OF i(2)] False by blast
  then obtain logs c' g' where r: "r = once_finish sapi (once_args args) logs c' g'"
    using assms by (auto simp: i split: option.splits)
  show ?thesis
    using False assms(2) once_finish_fields [of sapi "once_args args" logs c' g']
    by (auto simp: r Let_def split: if_splits)
qed

text \<open>
  What the returned code says. \<open>CLIENT_TYPE_FAILURE\<close> is returned exactly when no stream was
  opened (another counter type, or empty credentials), and then nothing has changed;
  \<open>RPC_FAILURE\<close> exactly when the final status is not OK; a failed write is never reported.
\<close>

lemma once_return_codes:
  assumes "rpc_register_stats_once sapi japi vt ctx args (Some i) = Some r"
    and "or_return r = Inr (code, status)"
  shows "(code = CLIENT_TYPE_FAILURE \<longleftrightarrow> or_stream r = None) \<and>
    (code = CLIENT_TYPE_FAILURE \<longleftrightarrow> counters_name vt i \<noteq> ''pbr'' \<or> \<not> credentials_given ctx) \<and>
    (code = CLIENT_TYPE_FAILURE \<longrightarrow> or_counters r = Some i \<and> or_args r = args \<and> status = ok_status) \<and>
    (code = RPC_FAILURE \<longleftrightarrow> \<not> status_ok status) \<and> code \<noteq> WRITES_FAILED"
  using assms by (rule once_return_code_cases)

lemma once_return_codes_example:
  "or_stream (the (rpc_register_stats_once (scripted_api [] ok_status) number_json pbr_basic_vt
     (sample_context\<lparr>password := ''''\<rparr>) default_rpc_args (Some (PbrCounters sample_counters)))) = None"
proof -
  let ?ctx = "sample_context\<lparr>password := ''''\<rparr>"
  obtain r where r: "rpc_register_stats_once (scripted_api [] ok_status) number_json pbr_basic_vt
      ?ctx default_rpc_args (Some (PbrCounters sample_counters)) = Some r"
    and code: "or_return r = Inr (CLIENT_TYPE_FAILURE, ok_status)"
    by (simp add: rpc_register_stats_once_def counters_name_def once_refused_def)
  then show ?thesis
    using once_return_codes [OF r code] by simp
qed

definition empty_once_request :: subscribe_request where
  "empty_once_request = Some \<lparr>sl_prefix = None, sl_subscription = [], sl_mode = ListOnce,
     sl_encoding = JSON\<rparr>"

text \<open>
  An encoding the helper refuses is still sent. The code of the helper is ignored: a request
  without a subscription is written to a new stream, and when the server ends it with an OK status
  the call reports success.
\<close>

lemma once_sends_refused_request:
  assumes "vt_name vt c = ''pbr''" "credentials_given ctx" "\<not> decodable (args_encoding args)"
    and "rw_read sapi (after_write sapi ctx empty_once_request) = (None, g')"
  shows "\<exists>r. rpc_register_stats_once sapi japi vt ctx args (Some (PbrCounters c)) = Some r \<and>
    or_stream r = Some (snd (rw_finish sapi (snd (rw_writes_done sapi g')))) \<and>
    or_return r = (let status = fst (rw_finish sapi (snd (rw_writes_done sapi g')))
      in Inr (if status_ok status then RPC_SUCCESS else RPC_FAILURE, status))"
proof -
  have request: "subscribe_request_helper None (once_args args)
      \<lparr>rsa_prefix = path_origin, paths_of_interest = vt_paths vt c\<rparr> =
    ([(''Unknown encoding: '' @ decimal (encoding_value (args_encoding args)), ERROR)],
     empty_once_request, UNSUPPORTED_ENCODING)"
    using assms(3) by (simp add: subscribe_request_helper_def once_args_def decodable_def
        mutable_subscribe_def default_subscription_list_def empty_once_request_def Let_def)
  obtain logs where "rpc_register_stats_once sapi japi vt ctx args (Some (PbrCounters c)) =
      Some (once_finish sapi (once_args args) logs c g')"
    using once_completes [OF assms(1,2) request _ assms(4), where rs = "[]" and japi = japi and c' = c]
    by auto
  with once_finish_fields [of sapi "once_args args" logs c g'] show ?thesis by auto
qed

lemma once_sends_refused_request_example:
  "\<exists>r. rpc_register_stats_once (scripted_api [] ok_status) number_json pbr_basic_vt sample_context
      (default_rpc_args\<lparr>args_encoding := ASCII\<rparr>) (Some (PbrCounters sample_counters)) = Some r \<and>
    or_stream r = Some \<lparr>sc_calls = [CallSubscribe (make_context sample_context),
      CallWrite empty_once_request, CallRead, CallWritesDone, CallFinish], sc_pending = []\<rparr> \<and>
    or_return r = Inr (RPC_SUCCESS, ok_status)"
proof -
  have ok: "credentials_given sample_context"
    "\<not> decodable (args_encoding (default_rpc_args\<lparr>args_encoding := ASCII\<rparr>))"
    by (simp_all add: sample_context_def credentials_given_def decodable_def)
  have read: "rw_read (scripted_api [] ok_status)
      (after_write (scripted_api [] ok_status) sample_context empty_once_request) =
    (None, \<lparr>sc_calls = [CallSubscribe (make_context sample_context), CallWrite empty_once_request,
        CallRead], sc_pending = []\<rparr>)"
    by (simp add: after_write_def)
  show ?thesis
    using once_sends_refused_request [OF pbr_basic_vt_simps(1) ok read, of number_json sample_counters]
    by (simp add: scripted_status)
qed

text \<open>
  \<open>get_counter_gnmi_paths\<close> returns the paths of a PBR object without a message, and has no
  defined result for any other object: its handler logs and falls off the end of the function.
\<close>

lemma get_counter_gnmi_paths_defined_iff:
  "(get_counter_gnmi_paths vt counter = (logs, Inr paths) \<longleftrightarrow>
      (\<exists>c. counter = PbrCounters c \<and> logs = [] \<and> paths = vt_paths vt c)) \<and>
   ((\<exists>w. snd (get_counter_gnmi_paths vt counter) = Inl (Undefined_behaviour w)) \<longleftrightarrow>
      (\<exists>nm ty. counter = OtherCounters nm ty))"
  by (auto simp: get_counter_gnmi_paths_def split: gnmi_counters.splits)

end
