(* ===== verification/Tutorial_Console.thy ===== *)
theory Tutorial_Console
  imports Gnmi_Client Connection
begin

text \<open>
  What the two example programs under \<^verbatim>\<open>examples/\<close> share: the logger that writes to the console, the
  lines they print for a record, the integers of the error codes, and the status codes of gRPC they
  tell apart.
\<close>

section \<open>Output\<close>

text \<open>\<^verbatim>\<open>console_logger\<close> writes a line per message; \<^verbatim>\<open>print_pbr\<close> nine lines per record.\<close>

definition console_line :: "log_entry \<Rightarrow> string" where
  "console_line e = log_level_to_string (log_level_value (snd e)) @ '': '' @ fst e"

definition stat_lines :: "pbr_basic_stat \<Rightarrow> string list" where
  "stat_lines st =
     [''       policy-name:  '' @ policy_name st,
      ''       rule-name:    '' @ rule_name st,
      ''       byte-count:   '' @ to_string_u64 (byte_count st),
      ''       packet-count: '' @ to_string_u64 (packet_count st),
      ''       collection-timestamp seconds:     '' @ to_string_u64 (collection_timestamp_seconds st),
      ''       collection-timestamp nanoseconds: '' @
        to_string_u64 (collection_timestamp_nanoseconds st),
      ''       path_grp_name:      '' @ path_grp_name st,
      ''       policy_action_type: '' @ policy_action_type st]"

fun print_pbr :: "pbr_basic_stat list \<Rightarrow> string list" where
  "print_pbr [] = []"
| "print_pbr (st # sts) =
     [''Here are the Pbr stats listed: SubscribeResponse ''] @ stat_lines st @ print_pbr sts"

section \<open>Codes and times\<close>

fun error_code_value :: "error_code \<Rightarrow> nat" where
  "error_code_value RPC_SUCCESS = 0"
| "error_code_value CLIENT_TYPE_FAILURE = 1"
| "error_code_value WRITES_FAILED = 2"
| "error_code_value RPC_FAILURE = 3"

text \<open>A clock tick is a nanosecond.\<close>

definition seconds :: "int \<Rightarrow> int" where
  "seconds n = n * 1000000000"

definition newline :: string where
  "newline = [CHR 0x0A]"

definition deadline_exceeded :: nat where "deadline_exceeded = 4"
definition unavailable_code :: nat where "unavailable_code = 14"
definition unauthenticated :: nat where "unauthenticated = 16"

end
