(* ===== verification/Once_Tutorial.thy ===== *)
theory Once_Tutorial
  imports Tutorial_Console
begin

text \<open>
  The example program \<^verbatim>\<open>examples/mgbl_api_pbr_once_tutorial.cpp\<close>: it waits for the server, makes one
  blocking call, and retries it once for three of the status codes. The channels and the streams of
  gRPC are the parameters of the modelled calls; the readings of the clock are arguments.
\<close>

section \<open>The program\<close>

text \<open>What the program has done: the lines of \<^verbatim>\<open>print_pbr\<close>, the messages, the number of calls, and the exception that ended it.\<close>

record once_run =
  ow_lines :: "string list"
  ow_logs :: "log_entry list"
  ow_calls :: nat
  ow_fault :: "fault option"

definition failure_message :: "error_code \<Rightarrow> grpc_status \<Rightarrow> string" where
  "failure_message code st =
     ''Stream once error code: '' @ decimal (error_code_value code) @ '' '' @ newline @
     ''grpcStatus error_code: '' @ decimal (status_code st) @ '' '' @ newline @
     ''error message: '' @ status_message st @ '' '' @ newline"

definition retry_failure_message :: "error_code \<Rightarrow> grpc_status \<Rightarrow> string" where
  "retry_failure_message code st =
     ''Retry of Stream once error code: '' @ decimal (error_code_value code) @ newline @
     ''grpcStatus error_code: '' @ decimal (status_code st) @ newline @
     ''error message: '' @ status_message st @ newline"

definition second_failure_message :: "error_code \<Rightarrow> grpc_status \<Rightarrow> string" where
  "second_failure_message code st =
     ''Failed on second, Stream once. Error code: '' @ decimal (error_code_value code) @ newline"

text \<open>A retry prints the vector \<^verbatim>\<open>retry_once\<close>, to which nothing is ever added.\<close>

definition once_retry ::
  "'g stream_api \<Rightarrow> 'j json_api \<Rightarrow> client_context_args \<Rightarrow> rpc_args \<Rightarrow> pbr_basic gnmi_counters option \<Rightarrow>
     (error_code \<Rightarrow> grpc_status \<Rightarrow> string) \<Rightarrow> once_run \<Rightarrow> once_run option" where
  "once_retry sapi japi context_args args i message run =
     (let retry_once = [] in
      case rpc_register_stats_once sapi japi pbr_basic_vt context_args args i of
        None \<Rightarrow> None
      | Some r \<Rightarrow>
          (let run = run\<lparr>ow_logs := ow_logs run @ or_logs r, ow_calls := ow_calls run + 1\<rparr> in
           Some (case or_return r of
              Inl e \<Rightarrow> run\<lparr>ow_fault := Some e\<rparr>
            | Inr (code, st) \<Rightarrow>
                if code = RPC_SUCCESS
                then run\<lparr>ow_lines := ow_lines run @ print_pbr retry_once\<rparr>
                else run\<lparr>ow_logs := ow_logs run @ [(message code st, ERROR)]\<rparr>)))"

definition once_channel_args :: rpc_channel_args where
  "once_channel_args =
     \<lparr>server_address = ''111.111.111.111:11111'', ssl_tls = False, pem_roots_certs_path = '''',
      pem_private_key_path = '''', pem_cert_chain_path = ''''\<rparr>"

definition once_context_args :: "int \<Rightarrow> client_context_args" where
  "once_context_args now =
     \<lparr>username = ''username'', password = ''password'', set_deadline = True,
      deadline = now + seconds 3\<rparr>"

definition once_rpc_args :: rpc_args where
  "once_rpc_args = default_rpc_args\<lparr>args_encoding := JSON_IETF\<rparr>"

definition once_counters :: "pbr_basic gnmi_counters option" where
  "once_counters = Some (PbrCounters
     \<lparr>pbr_keys = [\<lparr>key_policy = ''p1'', key_rule = ''r3_p1''\<rparr>], pbr_stats = []\<rparr>)"

text \<open>The branches on the result of the first call.\<close>

definition once_branches ::
  "'g stream_api \<Rightarrow> 'j json_api \<Rightarrow> int \<Rightarrow> int \<Rightarrow> client_context_args \<Rightarrow>
     (pbr_basic, 'g) once_result \<Rightarrow> once_run \<Rightarrow> once_run option" where
  "once_branches sapi japi now1 now2 context_args r run =
     (case or_return r of
        Inl e \<Rightarrow> Some (run\<lparr>ow_fault := Some e\<rparr>)
      | Inr (code, st) \<Rightarrow>
          if code = RPC_SUCCESS
          then Some (run\<lparr>ow_lines := ow_lines run @
                 (case or_counters r of
                    Some (PbrCounters c) \<Rightarrow> print_pbr (pbr_stats c) | _ \<Rightarrow> [])\<rparr>)
          else if code = CLIENT_TYPE_FAILURE
          then once_retry sapi japi context_args (or_args r) (or_counters r) second_failure_message
                 (run\<lparr>ow_logs := ow_logs run @ [(''Stream once error code: '' @
                    decimal (error_code_value code) @ newline, ERROR)]\<rparr>)
          else
            (let run = run\<lparr>ow_logs := ow_logs run @ [(failure_message code st, ERROR)]\<rparr>;
                 context_args = (if set_deadline context_args
                   then context_args\<lparr>deadline := now1 + seconds 5\<rparr> else context_args)
             in if status_code st = deadline_exceeded
                then once_retry sapi japi (context_args\<lparr>deadline := now2 + seconds 5\<rparr>)
                       (or_args r) (or_counters r) retry_failure_message run
                else if status_code st = unavailable_code
                then once_retry sapi japi context_args (or_args r) (or_counters r)
                       retry_failure_message run
                else if status_code st = unauthenticated
                then once_retry sapi japi context_args (or_args r) (or_counters r)
                       retry_failure_message run
                else Some run))"

text \<open>
  The channel of a connection is made by \<^verbatim>\<open>grpc::CreateChannel\<close>, from its target and its credentials;
  \<open>files\<close> is the file system the certificates would be read from.
\<close>

definition once_tutorial ::
  "(string \<rightharpoonup> string) \<Rightarrow> (string \<times> channel_credentials \<Rightarrow> 'h) \<Rightarrow> 'h channel_api \<Rightarrow> 'g stream_api \<Rightarrow>
     'j json_api \<Rightarrow> int \<Rightarrow> int \<Rightarrow> int \<Rightarrow> once_run option" where
  "once_tutorial files create_channel capi sapi japi now now1 now2 =
     (let context_args = once_context_args now in
      case gnmi_client_connection files once_channel_args of
        (l0, Inl e) \<Rightarrow> Some \<lparr>ow_lines = [], ow_logs = l0, ow_calls = 0, ow_fault = Some e\<rparr>
      | (l0, Inr conn) \<Rightarrow>
          (let (logs, connected, _) =
                 wait_for_grpc_server_connection capi 5 10 (create_channel (get_channel conn));
               logs = l0 @ logs
           in if connected
              then (case rpc_register_stats_once sapi japi pbr_basic_vt context_args once_rpc_args
                      once_counters of
                      None \<Rightarrow> None
                    | Some r \<Rightarrow> once_branches sapi japi now1 now2 context_args r
                        \<lparr>ow_lines = [], ow_logs = logs @ or_logs r, ow_calls = 1, ow_fault = None\<rparr>)
              else Some \<lparr>ow_lines = [],
                         ow_logs = logs @ [(''Initial connection attempts failed'', ERROR)],
                         ow_calls = 0, ow_fault = None\<rparr>))"

lemma once_connection: "gnmi_client_connection files once_channel_args =
    ([], Inr \<lparr>conn_target = ''111.111.111.111:11111'', conn_creds = InsecureChannelCredentials\<rparr>)"
  by (simp add: gnmi_client_connection_def once_channel_args_def)

section \<open>What it prints\<close>

lemma once_retry_run:
  assumes "once_retry sapi japi x args i message run = Some run'" "ow_lines run = []"
  shows "ow_calls run' = ow_calls run + 1 \<and> ow_lines run' = []"
  using assms by (auto simp: once_retry_def Let_def split: option.splits sum.splits prod.splits if_splits)

lemma once_call_codes:
  assumes "rpc_register_stats_once sapi japi pbr_basic_vt (once_context_args now) once_rpc_args
      once_counters = Some r" "or_return r = Inr (code, st)"
  shows "code = RPC_SUCCESS \<or> code = RPC_FAILURE"
proof -
  have "counters_name pbr_basic_vt (PbrCounters c) = ''pbr''" for c
    by (simp add: counters_name_def)
  moreover have "credentials_given (once_context_args now)"
    by (simp add: credentials_given_def once_context_args_def)
  ultimately show ?thesis
    using once_return_code_cases [of sapi japi pbr_basic_vt "once_context_args now" once_rpc_args _ r code st]
      assms by (cases code) (auto simp: once_counters_def)
qed

text \<open>
  C38: a retry never prints its records. The program calls at most twice; a second call is made only
  when the first one failed with one of the three status codes it knows, and then no record is
  printed, whatever the second call returned; records are printed only when the first call
  succeeds, and then exactly those the object holds.
\<close>

theorem once_tutorial_prints_first_call_only:
  assumes "once_tutorial files create_channel capi sapi japi now now1 now2 = Some run"
  shows "ow_calls run \<le> 2 \<and>
    (ow_calls run = 2 \<longrightarrow> ow_lines run = [] \<and>
      (\<exists>r st. rpc_register_stats_once sapi japi pbr_basic_vt (once_context_args now) once_rpc_args
          once_counters = Some r \<and> or_return r = Inr (RPC_FAILURE, st) \<and>
        status_code st \<in> {deadline_exceeded, unavailable_code, unauthenticated})) \<and>
    (ow_lines run \<noteq> [] \<longrightarrow>
      (\<exists>r st c. rpc_register_stats_once sapi japi pbr_basic_vt (once_context_args now) once_rpc_args
          once_counters = Some r \<and> or_return r = Inr (RPC_SUCCESS, st) \<and>
        or_counters r = Some (PbrCounters c) \<and> ow_lines run = print_pbr (pbr_stats c)))"
proof -
  obtain logs connected ch where
    wait: "wait_for_grpc_server_connection capi 5 10
      (create_channel (''111.111.111.111:11111'', InsecureChannelCredentials)) = (logs, connected, ch)"
    using prod_cases3 by blast
  show ?thesis
  proof (cases connected)
    case False
    then show ?thesis using assms by (auto simp: once_tutorial_def once_connection get_channel_def wait)
  next
    case True
    let ?x = "once_context_args now"
    let ?run = "\<lambda>r. \<lparr>ow_lines = [], ow_logs = logs @ or_logs r, ow_calls = 1, ow_fault = None\<rparr>"
    obtain r where call: "rpc_register_stats_once sapi japi pbr_basic_vt ?x once_rpc_args
        once_counters = Some r"
      and branches: "once_branches sapi japi now1 now2 ?x r (?run r) = Some run"
      using assms True by (auto simp: once_tutorial_def once_connection get_channel_def wait Let_def split: option.splits)
    show ?thesis
    proof (cases "or_return r")
      case (Inl e)
      then show ?thesis using branches by (auto simp: once_branches_def)
    next
      case (Inr res)
      obtain code st where res: "or_return r = Inr (code, st)"
        using Inr by (cases res) simp
      consider "code = RPC_SUCCESS" | "code = RPC_FAILURE"
        using once_call_codes [OF call res] by blast
      then show ?thesis
      proof cases
        case 1
        then show ?thesis
          using branches res call by (auto simp: once_branches_def split: option.splits gnmi_counters.splits)
      next
        case 2
        then show ?thesis
          using branches res call once_retry_run
          by (fastforce simp: once_branches_def Let_def split: if_splits)
      qed
    qed
  qed
qed

text \<open>A channel that is ready at once, and a server that ends every stream with one status.\<close>

definition ready_channel :: "unit channel_api" where
  "ready_channel = \<lparr>wait_for_connected = (\<lambda>_ g. g), get_state = (\<lambda>_. CHANNEL_READY)\<rparr>"

lemma ready_channel_waits: "wait_for_grpc_server_connection ready_channel 5 10 () = ([], True, ())"
  by (simp add: wait_for_grpc_server_connection_def retry_loop.simps [of _ 5 10 0] ready_channel_def)

definition down :: grpc_status where
  "down = \<lparr>status_code = unavailable_code, status_message = ''down''\<rparr>"

lemma scripted_once:
  assumes "credentials_given x" "\<not> status_ok st"
  shows "\<exists>r c. rpc_register_stats_once (scripted_api [] st) japi pbr_basic_vt x args
      (Some (PbrCounters c0)) = Some r \<and> or_return r = Inr (RPC_FAILURE, st) \<and>
    or_counters r = Some (PbrCounters c)"
proof -
  obtain l1 request code where request: "subscribe_request_helper None (once_args args)
      \<lparr>rsa_prefix = path_origin, paths_of_interest = vt_paths pbr_basic_vt c0\<rparr> = (l1, request, code)"
    using prod_cases3 by blast
  have reads: "after_reads (scripted_api [] st) [] (after_write (scripted_api [] st) x request) =
      Some \<lparr>sc_calls = [CallSubscribe (make_context x), CallWrite request], sc_pending = []\<rparr>"
    by (simp add: after_write_def)
  obtain logs where "rpc_register_stats_once (scripted_api [] st) japi pbr_basic_vt x args
      (Some (PbrCounters c0)) = Some (once_finish (scripted_api [] st) (once_args args) logs c0
        \<lparr>sc_calls = [CallSubscribe (make_context x), CallWrite request] @ [CallRead], sc_pending = []\<rparr>)"
    using once_completes [OF pbr_basic_vt_simps(1) assms(1) request reads scripted_api_simps(3),
        of japi "[]" c0] by auto
  then show ?thesis
    using assms(2) by (simp add: once_finish_def)
qed

theorem once_tutorial_prints_first_call_only_witness:
  "\<exists>run. once_tutorial Map.empty (\<lambda>_. ()) ready_channel (scripted_api [] down) number_json 0 0 0 = Some run \<and>
     ow_calls run = 2 \<and> ow_lines run = []"
proof -
  have creds: "credentials_given (once_context_args 0)"
    "credentials_given (once_context_args 0\<lparr>deadline := seconds 5\<rparr>)"
    by (simp_all add: credentials_given_def once_context_args_def)
  have failed: "\<not> status_ok down" by (simp add: status_ok_def down_def unavailable_code_def)
  obtain r c where r: "rpc_register_stats_once (scripted_api [] down) number_json pbr_basic_vt
      (once_context_args 0) once_rpc_args once_counters = Some r"
    "or_return r = Inr (RPC_FAILURE, down)" "or_counters r = Some (PbrCounters c)"
    using scripted_once [OF creds(1) failed] unfolding once_counters_def by blast
  obtain r' c' where r': "rpc_register_stats_once (scripted_api [] down) number_json pbr_basic_vt
      (once_context_args 0\<lparr>deadline := seconds 5\<rparr>) (or_args r) (Some (PbrCounters c)) = Some r'"
    "or_return r' = Inr (RPC_FAILURE, down)"
    using scripted_once [OF creds(2) failed] by blast
  have "set_deadline (once_context_args 0)" by (simp add: once_context_args_def)
  then obtain run where run: "once_tutorial Map.empty (\<lambda>_. ()) ready_channel (scripted_api [] down) number_json 0 0 0 = Some run"
    "ow_calls run = 2"
    using r r' by (simp add: once_tutorial_def once_connection ready_channel_waits once_branches_def once_retry_def
        down_def deadline_exceeded_def unavailable_code_def Let_def)
  show ?thesis
    using once_tutorial_prints_first_call_only [OF run(1)] run by blast
qed

end
