(* ===== verification/Client_Stream.thy ===== *)
theory Client_Stream
  imports Gnmi_Client
begin

text \<open>
  The streaming half of \<^verbatim>\<open>GnmiClient\<close>: \<^verbatim>\<open>rpc_register_stats_stream\<close>, the receive thread it
  starts, \<^verbatim>\<open>rpc_stream_close\<close> (which the destructor calls) and the two handler setters. The two
  threads share the members of \<^verbatim>\<open>GnmiClientDetails\<close>; each access to the mutex, each call of
  gRPC and each join is one step, and the steps of the threads interleave. What gRPC answers is up
  to the environment. The calls, messages, handler calls and returns are recorded in one history.
\<close>

section \<open>The shared state\<close>

datatype thread = Main_thread | Receive_thread

text \<open>Streams are numbered in the order they are opened.\<close>

datatype client_event =
    Ev_log log_entry
  | Ev_subscribe nat client_context
  | Ev_write nat subscribe_request bool
  | Ev_cancel
  | Ev_read nat "subscribe_response option"
  | Ev_writes_done nat bool
  | Ev_finish nat grpc_status
  | Ev_success_handler
  | Ev_failed_handler grpc_status
  | Ev_registered error_code
  | Ev_closed error_code

text \<open>Where the calling thread is: outside, or in \<^verbatim>\<open>rpc_register_stats_stream\<close> or \<^verbatim>\<open>rpc_stream_close\<close>.\<close>

datatype main_pc =
    Main_idle
  | Reg_lock_open client_context_args subscribe_request
  | Reg_open client_context_args subscribe_request
  | Reg_unlock subscribe_request
  | Reg_lock_write subscribe_request
  | Reg_write subscribe_request
  | Close_lock
  | Close_cancel
  | Close_join
  | Close_reset

datatype rx_pc =
    Rx_none
  | Rx_read
  | Rx_response subscribe_response
  | Rx_lock
  | Rx_writes_done
  | Rx_finish
  | Rx_status grpc_status
  | Rx_done

text \<open>
  \<open>cs_joinable\<close> is \<^verbatim>\<open>receive_thread.joinable()\<close>, \<open>cs_mtx\<close> the holder of
  \<^verbatim>\<open>subscription_mode_stream_mtx\<close>, \<open>cs_ctx\<close> and \<open>cs_rw\<close> the pointers \<^verbatim>\<open>stream_context\<close> and
  \<^verbatim>\<open>subscribe_stream_rw\<close>; the handlers are set or empty; \<open>cs_fault\<close> is what ended the process.
\<close>

record 'c client_state =
  cs_interface :: "'c gnmi_counters option"
  cs_success_set :: bool
  cs_failed_set :: bool
  cs_mtx :: "thread option"
  cs_joinable :: bool
  cs_ctx :: "client_context option"
  cs_rw :: "nat option"
  cs_streams :: nat
  cs_main :: main_pc
  cs_rx :: rx_pc
  cs_events :: "client_event list"
  cs_fault :: "fault option"

definition client_initial :: "'c gnmi_counters option \<Rightarrow> 'c client_state" where
  "client_initial i =
     \<lparr>cs_interface = i, cs_success_set = False, cs_failed_set = False, cs_mtx = None,
      cs_joinable = False, cs_ctx = None, cs_rw = None, cs_streams = 0, cs_main = Main_idle,
      cs_rx = Rx_none, cs_events = [], cs_fault = None\<rparr>"

definition emit :: "client_event list \<Rightarrow> 'c client_state \<Rightarrow> 'c client_state" where
  "emit es s = s\<lparr>cs_events := cs_events s @ es\<rparr>"

definition fail_with :: "fault \<Rightarrow> 'c client_state \<Rightarrow> 'c client_state" where
  "fail_with f s = s\<lparr>cs_fault := Some f\<rparr>"

definition null_stream :: fault where
  "null_stream = Undefined_behaviour ''null stream''"

text \<open>The handler setters of \<^verbatim>\<open>mgbl_gnmi_client.h\<close>; a handler may be an empty function.\<close>

definition set_rpc_success_handler :: "bool \<Rightarrow> 'c client_state \<Rightarrow> 'c client_state" where
  [simp]: "set_rpc_success_handler handler s = s\<lparr>cs_success_set := handler\<rparr>"

definition set_rpc_failed_handler :: "bool \<Rightarrow> 'c client_state \<Rightarrow> 'c client_state" where
  [simp]: "set_rpc_failed_handler handler s = s\<lparr>cs_failed_set := handler\<rparr>"

section \<open>rpc\_register\_stats\_stream\<close>

text \<open>Up to the test whether a receive thread is active; only the calling thread changes that.\<close>

definition register_enter ::
  "('c, 's) pbr_vtable \<Rightarrow> client_context_args \<Rightarrow> rpc_args \<Rightarrow> 'c client_state \<Rightarrow> 'c client_state" where
  "register_enter vt context_args args s =
     (case cs_interface s of
        None \<Rightarrow> fail_with (Undefined_behaviour ''null interface'') s
      | Some i \<Rightarrow>
          if counters_name vt i \<noteq> ''pbr''
          then emit [Ev_log (''Error, this client can only do one type of request. Current request type is ''
                       @ counters_name vt i, ERROR),
                     Ev_registered CLIENT_TYPE_FAILURE] s
          else
            (case i of
               OtherCounters _ _ \<Rightarrow> fail_with (Undefined_behaviour ''null pbr_interface'') s
             | PbrCounters c \<Rightarrow>
                 (let info = \<lparr>rsa_prefix = path_origin, paths_of_interest = vt_paths vt c\<rparr>;
                      (logs, request, _) =
                        subscribe_request_helper None (args\<lparr>args_mode := STREAM\<rparr>) info
                  in emit (map Ev_log logs)
                       (s\<lparr>cs_main := (if \<not> cs_joinable s then Reg_lock_open context_args request
                                      else Reg_lock_write request)\<rparr>))))"

text \<open>
  Under the lock: a new context, a new stream, a new thread. The thread is started and assigned to the
  member in one step; only a handler that calls the client could see the member in between.
\<close>

definition register_open ::
  "client_context_args \<Rightarrow> subscribe_request \<Rightarrow> 'c client_state \<Rightarrow> 'c client_state" where
  "register_open context_args request s =
     (let ctx = make_context context_args in
      emit [Ev_subscribe (cs_streams s) ctx]
        (s\<lparr>cs_ctx := Some ctx, cs_rw := Some (cs_streams s), cs_streams := cs_streams s + 1,
           cs_joinable := True, cs_rx := Rx_read, cs_main := Reg_unlock request\<rparr>))"

definition register_write :: "subscribe_request \<Rightarrow> bool \<Rightarrow> 'c client_state \<Rightarrow> 'c client_state" where
  "register_write request check_write s =
     (let done = s\<lparr>cs_mtx := None, cs_main := Main_idle\<rparr> in
      if cs_ctx s \<noteq> None
      then (case cs_rw s of
              None \<Rightarrow> fail_with null_stream s
            | Some n \<Rightarrow>
                if check_write
                then emit [Ev_write n request True,
                           Ev_log (''Subscribe Stream Request: Write operation succeeded'', INFO),
                           Ev_registered RPC_SUCCESS] done
                else emit [Ev_write n request False,
                           Ev_log (''Subscribe Stream Request: Write operation failed'', ERROR),
                           Ev_registered WRITES_FAILED] done)
      else emit [Ev_log (''Please close the stream. An rpc failure occurred'', ERROR),
                 Ev_registered RPC_FAILURE] done)"

section \<open>rpc\_stream\_close\<close>

definition close_enter :: "'c client_state \<Rightarrow> 'c client_state" where
  "close_enter s = s\<lparr>cs_main := (if cs_joinable s then Close_lock else Close_reset)\<rparr>"

definition close_cancel :: "'c client_state \<Rightarrow> 'c client_state" where
  "close_cancel s =
     (let s' = s\<lparr>cs_mtx := None, cs_main := Close_join\<rparr> in
      if cs_ctx s \<noteq> None then emit [Ev_cancel] s' else s')"

definition close_joined :: "'c client_state \<Rightarrow> 'c client_state" where
  "close_joined s = s\<lparr>cs_joinable := False, cs_rx := Rx_none, cs_main := Close_reset\<rparr>"

text \<open>
  \<^verbatim>\<open>std::thread::join\<close> on \<^verbatim>\<open>receive_thread\<close>: it throws when the object is not joinable, and when the thread
  it stands for is the caller; otherwise it waits for the end of that thread (\<open>None\<close>).
\<close>

definition joined_no_thread :: fault where
  "joined_no_thread = Std_exception ''Invalid argument''"

definition self_join :: fault where
  "self_join = Std_exception ''Resource deadlock avoided''"

definition thread_join :: "thread \<Rightarrow> 'c client_state \<Rightarrow> 'c client_state option" where
  "thread_join caller s =
     (if \<not> cs_joinable s then Some (fail_with joined_no_thread s)
      else if caller = Receive_thread then Some (fail_with self_join s)
      else if cs_rx s = Rx_done then Some (s\<lparr>cs_joinable := False, cs_rx := Rx_none\<rparr>)
      else None)"

definition close_reset :: "'c client_state \<Rightarrow> 'c client_state" where
  "close_reset s = emit [Ev_closed RPC_SUCCESS] (s\<lparr>cs_rw := None, cs_main := Main_idle\<rparr>)"

text \<open>
  The destructor of the client begins with \<^verbatim>\<open>rpc_stream_close\<close>; the destructor of \<^verbatim>\<open>GnmiClientDetails\<close>,
  which runs last, joins a thread that is still there, and waits for its end.
\<close>

definition client_destructor :: "'c client_state \<Rightarrow> 'c client_state" where
  "client_destructor s = close_enter s"

definition details_destructor :: "'c client_state \<Rightarrow> 'c client_state option" where
  "details_destructor s =
     (if cs_joinable s
      then (if cs_rx s = Rx_done then Some (s\<lparr>cs_joinable := False, cs_rx := Rx_none\<rparr>) else None)
      else Some s)"

section \<open>The receive thread\<close>

definition rx_read :: "subscribe_response option \<Rightarrow> 'c client_state \<Rightarrow> 'c client_state" where
  "rx_read answer s =
     (case cs_rw s of
        None \<Rightarrow> fail_with null_stream s
      | Some n \<Rightarrow>
          emit [Ev_read n answer]
            (s\<lparr>cs_rx := (case answer of Some r \<Rightarrow> Rx_response r | None \<Rightarrow> Rx_lock)\<rparr>))"

text \<open>An exception no handler catches, and the call of an empty handler, end the process.\<close>

definition rx_response ::
  "'j json_api \<Rightarrow> ('c, 's) pbr_vtable \<Rightarrow> subscribe_response \<Rightarrow> 'c client_state \<Rightarrow> 'c client_state" where
  "rx_response japi vt response s =
     (let s = s\<lparr>cs_rx := Rx_read\<rparr> in
      case cs_interface s of
        Some (PbrCounters c) \<Rightarrow>
          (case check_response japi vt response c of
             (l, Inl e) \<Rightarrow> fail_with e (emit (map Ev_log l) s)
           | (l, Inr (p, code)) \<Rightarrow>
               if code = SUCCESS
               then (let (l', c') = vt_add_stats vt p c;
                         s = emit (map Ev_log (l @ [(''Client received a response.'', VERBOSE)] @ l'))
                               (s\<lparr>cs_interface := Some (PbrCounters c')\<rparr>)
                     in if cs_success_set s then emit [Ev_success_handler] s
                        else fail_with Bad_function_call s)
               else emit (map Ev_log (l @ [(''Error while processing response: '' @
                      decimal (internal_error_value code), ERROR)])) s)
      | _ \<Rightarrow> s)"

definition rx_writes_done :: "bool \<Rightarrow> 'c client_state \<Rightarrow> 'c client_state" where
  "rx_writes_done answer s =
     (case cs_rw s of
        None \<Rightarrow> fail_with null_stream s
      | Some n \<Rightarrow> emit [Ev_writes_done n answer] (s\<lparr>cs_rx := Rx_finish\<rparr>))"

definition rx_finish :: "grpc_status \<Rightarrow> 'c client_state \<Rightarrow> 'c client_state" where
  "rx_finish status s =
     (case cs_rw s of
        None \<Rightarrow> fail_with null_stream s
      | Some n \<Rightarrow> emit [Ev_finish n status] (s\<lparr>cs_rx := Rx_status status\<rparr>))"

definition status_cancelled :: "grpc_status \<Rightarrow> bool" where
  "status_cancelled st \<longleftrightarrow> status_code st = 1"

definition rx_status :: "grpc_status \<Rightarrow> 'c client_state \<Rightarrow> 'c client_state" where
  "rx_status status s =
     (let done = s\<lparr>cs_mtx := None, cs_rx := Rx_done\<rparr> in
      if \<not> status_ok status
      then (if \<not> status_cancelled status
            then (let msg = Ev_log (''Subscribe stream RPC failed with error: '' @
                        status_message status, ERROR)
                  in if cs_failed_set s then emit [msg, Ev_failed_handler status] done
                     else fail_with Bad_function_call (emit [msg] s))
            else emit [Ev_log (''Subscribe rpc passed: '' @ status_message status, INFO)] done)
      else emit [Ev_log (''Subscribe rpc passed.'', INFO)] done)"

section \<open>Interleaving\<close>

text \<open>
  One action is one step of a thread with the answer it gets from outside: the arguments of a call,
  what gRPC answers, whether a handler is a function. An action that cannot happen gives \<open>None\<close>: the
  thread is elsewhere, the mutex is taken, the thread to join still runs, or the process has ended.
\<close>

datatype client_action =
    Set_success_handler bool
  | Set_failed_handler bool
  | Call_register client_context_args rpc_args
  | Call_close
  | Main_acquire
  | Main_open
  | Main_release
  | Main_write bool
  | Main_cancel
  | Main_join
  | Main_reset
  | Rx_receive "subscribe_response option"
  | Rx_handle
  | Rx_acquire
  | Rx_half_close bool
  | Rx_end grpc_status
  | Rx_report

fun acquired :: "main_pc \<Rightarrow> main_pc option" where
  "acquired (Reg_lock_open x r) = Some (Reg_open x r)"
| "acquired (Reg_lock_write r) = Some (Reg_write r)"
| "acquired Close_lock = Some Close_cancel"
| "acquired _ = None"

definition act_main ::
  "('c, 's) pbr_vtable \<Rightarrow> client_action \<Rightarrow> 'c client_state \<Rightarrow> 'c client_state option" where
  "act_main vt a s =
     (case a of
        Set_success_handler b \<Rightarrow>
          if cs_main s = Main_idle then Some (set_rpc_success_handler b s) else None
      | Set_failed_handler b \<Rightarrow>
          if cs_main s = Main_idle then Some (set_rpc_failed_handler b s) else None
      | Call_register x args \<Rightarrow>
          if cs_main s = Main_idle then Some (register_enter vt x args s) else None
      | Call_close \<Rightarrow> if cs_main s = Main_idle then Some (close_enter s) else None
      | Main_acquire \<Rightarrow>
          (case acquired (cs_main s) of
             Some pc \<Rightarrow>
               if cs_mtx s = None then Some (s\<lparr>cs_mtx := Some Main_thread, cs_main := pc\<rparr>) else None
           | None \<Rightarrow> None)
      | Main_open \<Rightarrow> (case cs_main s of Reg_open x r \<Rightarrow> Some (register_open x r s) | _ \<Rightarrow> None)
      | Main_release \<Rightarrow>
          (case cs_main s of
             Reg_unlock r \<Rightarrow> Some (s\<lparr>cs_mtx := None, cs_main := Reg_lock_write r\<rparr>)
           | _ \<Rightarrow> None)
      | Main_write b \<Rightarrow> (case cs_main s of Reg_write r \<Rightarrow> Some (register_write r b s) | _ \<Rightarrow> None)
      | Main_cancel \<Rightarrow> if cs_main s = Close_cancel then Some (close_cancel s) else None
      | Main_join \<Rightarrow>
          if cs_main s = Close_join \<and> cs_rx s = Rx_done then Some (close_joined s) else None
      | Main_reset \<Rightarrow> if cs_main s = Close_reset then Some (close_reset s) else None
      | _ \<Rightarrow> None)"

definition act_rx ::
  "'j json_api \<Rightarrow> ('c, 's) pbr_vtable \<Rightarrow> client_action \<Rightarrow> 'c client_state \<Rightarrow> 'c client_state option" where
  "act_rx japi vt a s =
     (case a of
        Rx_receive answer \<Rightarrow> if cs_rx s = Rx_read then Some (rx_read answer s) else None
      | Rx_handle \<Rightarrow>
          (case cs_rx s of Rx_response r \<Rightarrow> Some (rx_response japi vt r s) | _ \<Rightarrow> None)
      | Rx_acquire \<Rightarrow>
          if cs_rx s = Rx_lock \<and> cs_mtx s = None
          then Some (s\<lparr>cs_mtx := Some Receive_thread, cs_rx := Rx_writes_done\<rparr>) else None
      | Rx_half_close b \<Rightarrow> if cs_rx s = Rx_writes_done then Some (rx_writes_done b s) else None
      | Rx_end st \<Rightarrow> if cs_rx s = Rx_finish then Some (rx_finish st s) else None
      | Rx_report \<Rightarrow> (case cs_rx s of Rx_status st \<Rightarrow> Some (rx_status st s) | _ \<Rightarrow> None)
      | _ \<Rightarrow> None)"

definition is_main :: "client_action \<Rightarrow> bool" where
  "is_main a \<longleftrightarrow>
     (case a of
        Rx_receive _ \<Rightarrow> False | Rx_handle \<Rightarrow> False | Rx_acquire \<Rightarrow> False
      | Rx_half_close _ \<Rightarrow> False | Rx_end _ \<Rightarrow> False | Rx_report \<Rightarrow> False | _ \<Rightarrow> True)"

definition client_act ::
  "'j json_api \<Rightarrow> ('c, 's) pbr_vtable \<Rightarrow> client_action \<Rightarrow> 'c client_state \<Rightarrow> 'c client_state option" where
  "client_act japi vt a s =
     (if cs_fault s \<noteq> None then None
      else if is_main a then act_main vt a s else act_rx japi vt a s)"

fun client_run ::
  "'j json_api \<Rightarrow> ('c, 's) pbr_vtable \<Rightarrow> client_action list \<Rightarrow> 'c client_state \<Rightarrow> 'c client_state option" where
  "client_run japi vt [] s = Some s"
| "client_run japi vt (a # as) s =
     (case client_act japi vt a s of None \<Rightarrow> None | Some s' \<Rightarrow> client_run japi vt as s')"

inductive client_step ::
  "'j json_api \<Rightarrow> ('c, 's) pbr_vtable \<Rightarrow> 'c client_state \<Rightarrow> 'c client_state \<Rightarrow> bool"
  for japi vt where
  step_act: "client_act japi vt a s = Some s' \<Longrightarrow> client_step japi vt s s'"

inductive client_reachable ::
  "'j json_api \<Rightarrow> ('c, 's) pbr_vtable \<Rightarrow> 'c gnmi_counters option \<Rightarrow> 'c client_state \<Rightarrow> bool"
  for japi vt i where
  reach_initial: "client_reachable japi vt i (client_initial i)"
| reach_step: "client_reachable japi vt i s \<Longrightarrow> client_step japi vt s s' \<Longrightarrow>
    client_reachable japi vt i s'"

inductive_cases client_stepE: "client_step japi vt s s'"

lemma client_run_reachable:
  "client_reachable japi vt i s \<Longrightarrow> client_run japi vt as s = Some s' \<Longrightarrow>
     client_reachable japi vt i s'"
  by (induction as arbitrary: s) (auto split: option.splits, blast intro: reach_step step_act)

lemma client_run_initial: "client_run japi vt as (client_initial i) = Some s \<Longrightarrow>
    client_reachable japi vt i s"
  by (rule client_run_reachable [OF reach_initial])

text \<open>The steps of each thread, one case per operation.\<close>

lemma act_main_cases:
  assumes "act_main vt a s = Some s'"
  obtains (success) b where "cs_main s = Main_idle" "s' = s\<lparr>cs_success_set := b\<rparr>"
    | (failed) b where "cs_main s = Main_idle" "s' = s\<lparr>cs_failed_set := b\<rparr>"
    | (register) x args where "a = Call_register x args" "cs_main s = Main_idle"
        "s' = register_enter vt x args s"
    | (closing) "cs_main s = Main_idle" "s' = close_enter s"
    | (acquire) pc where "acquired (cs_main s) = Some pc" "cs_mtx s = None"
        "s' = s\<lparr>cs_mtx := Some Main_thread, cs_main := pc\<rparr>"
    | (open_stream) x r where "cs_main s = Reg_open x r" "s' = register_open x r s"
    | (release) r where "cs_main s = Reg_unlock r"
        "s' = s\<lparr>cs_mtx := None, cs_main := Reg_lock_write r\<rparr>"
    | (writing) r b where "cs_main s = Reg_write r" "s' = register_write r b s"
    | (cancel) "cs_main s = Close_cancel" "s' = close_cancel s"
    | (join) "cs_main s = Close_join" "cs_rx s = Rx_done" "s' = close_joined s"
    | (reset) "cs_main s = Close_reset" "s' = close_reset s"
proof (cases a)
  case (Set_success_handler b)
  with assms show ?thesis
    by (auto simp: act_main_def intro: that(1) split: if_splits option.splits main_pc.splits)
next
  case (Set_failed_handler b)
  with assms show ?thesis
    by (auto simp: act_main_def intro: that(2) split: if_splits option.splits main_pc.splits)
next
  case (Call_register x args)
  with assms show ?thesis
    by (auto simp: act_main_def intro: that(3) split: if_splits option.splits main_pc.splits)
next
  case Call_close
  with assms show ?thesis
    by (auto simp: act_main_def intro: that(4) split: if_splits option.splits main_pc.splits)
next
  case Main_acquire
  with assms show ?thesis
    by (auto simp: act_main_def intro: that(5) split: if_splits option.splits main_pc.splits)
next
  case Main_open
  with assms show ?thesis
    by (auto simp: act_main_def intro: that(6) split: if_splits option.splits main_pc.splits)
next
  case Main_release
  with assms show ?thesis
    by (auto simp: act_main_def intro: that(7) split: if_splits option.splits main_pc.splits)
next
  case (Main_write b)
  with assms show ?thesis
    by (auto simp: act_main_def intro: that(8) split: if_splits option.splits main_pc.splits)
next
  case Main_cancel
  with assms show ?thesis
    by (auto simp: act_main_def intro: that(9) split: if_splits option.splits main_pc.splits)
next
  case Main_join
  with assms show ?thesis
    by (auto simp: act_main_def intro: that(10) split: if_splits option.splits main_pc.splits)
next
  case Main_reset
  with assms show ?thesis
    by (auto simp: act_main_def intro: that(11) split: if_splits option.splits main_pc.splits)
qed (use assms in \<open>simp_all add: act_main_def\<close>)

lemma act_main_joins:
  assumes "cs_main s = Close_join" "cs_joinable s"
  shows "act_main vt Main_join s =
    map_option (\<lambda>s'. s'\<lparr>cs_main := Close_reset\<rparr>) (thread_join Main_thread s)"
  using assms by (simp add: act_main_def thread_join_def close_joined_def)

lemma act_rx_cases:
  assumes "act_rx japi vt a s = Some s'"
  obtains (read) answer where "cs_rx s = Rx_read" "s' = rx_read answer s"
    | (response) r where "cs_rx s = Rx_response r" "s' = rx_response japi vt r s"
    | (acquire) "cs_rx s = Rx_lock" "cs_mtx s = None"
        "s' = s\<lparr>cs_mtx := Some Receive_thread, cs_rx := Rx_writes_done\<rparr>"
    | (writes_done) b where "cs_rx s = Rx_writes_done" "s' = rx_writes_done b s"
    | (finish) st where "cs_rx s = Rx_finish" "s' = rx_finish st s"
    | (status) st where "cs_rx s = Rx_status st" "s' = rx_status st s"
proof (cases a)
  case (Rx_receive answer)
  with assms show ?thesis
    by (auto simp: act_rx_def intro: that(1) split: if_splits rx_pc.splits)
next
  case Rx_handle
  with assms show ?thesis
    by (auto simp: act_rx_def intro: that(2) split: if_splits rx_pc.splits)
next
  case Rx_acquire
  with assms show ?thesis
    by (auto simp: act_rx_def intro: that(3) split: if_splits rx_pc.splits)
next
  case (Rx_half_close b)
  with assms show ?thesis
    by (auto simp: act_rx_def intro: that(4) split: if_splits rx_pc.splits)
next
  case (Rx_end st)
  with assms show ?thesis
    by (auto simp: act_rx_def intro: that(5) split: if_splits rx_pc.splits)
next
  case Rx_report
  with assms show ?thesis
    by (auto simp: act_rx_def intro: that(6) split: if_splits rx_pc.splits)
qed (use assms in \<open>simp_all add: act_rx_def\<close>)

section \<open>The invariant\<close>

fun main_holds :: "main_pc \<Rightarrow> bool" where
  "main_holds (Reg_open _ _) = True"
| "main_holds (Reg_unlock _) = True"
| "main_holds (Reg_write _) = True"
| "main_holds Close_cancel = True"
| "main_holds _ = False"

fun rx_holds :: "rx_pc \<Rightarrow> bool" where
  "rx_holds Rx_writes_done = True"
| "rx_holds Rx_finish = True"
| "rx_holds (Rx_status _) = True"
| "rx_holds _ = False"

text \<open>What the calling thread knows of \<open>joinable\<close> at a point, when it knows anything.\<close>

fun main_expects :: "main_pc \<Rightarrow> bool option" where
  "main_expects Main_idle = None"
| "main_expects (Reg_lock_open _ _) = Some False"
| "main_expects (Reg_open _ _) = Some False"
| "main_expects Close_reset = Some False"
| "main_expects _ = Some True"

definition lock_inv :: "'c client_state \<Rightarrow> bool" where
  "lock_inv s \<longleftrightarrow>
     (cs_mtx s = Some Main_thread \<longleftrightarrow> main_holds (cs_main s)) \<and>
     (cs_mtx s = Some Receive_thread \<longleftrightarrow> rx_holds (cs_rx s))"

definition stream_inv :: "'c client_state \<Rightarrow> bool" where
  "stream_inv s \<longleftrightarrow>
     (cs_joinable s \<longleftrightarrow> cs_rx s \<noteq> Rx_none) \<and>
     (cs_joinable s \<longrightarrow> cs_ctx s \<noteq> None \<and> (\<exists>n. cs_rw s = Some n \<and> cs_streams s = Suc n)) \<and>
     (case main_expects (cs_main s) of None \<Rightarrow> True | Some b \<Rightarrow> cs_joinable s = b)"

lemmas main_ops = register_enter_def register_open_def register_write_def close_enter_def
  close_cancel_def close_joined_def close_reset_def emit_def fail_with_def

lemmas rx_ops = rx_read_def rx_response_def rx_writes_done_def rx_finish_def rx_status_def
  emit_def fail_with_def

lemma acquired_points:
  assumes "acquired pc = Some pc'"
  shows "main_holds pc'" "\<not> main_holds pc" "main_expects pc' = main_expects pc"
  using assms by (cases pc; auto)+

lemma act_main_lock_inv: "lock_inv s \<Longrightarrow> act_main vt a s = Some s' \<Longrightarrow> lock_inv s'"
  by (cases a) (auto simp: act_main_def main_ops lock_inv_def Let_def acquired_points
      split: if_splits option.splits main_pc.splits gnmi_counters.splits prod.splits)

lemma act_rx_lock_inv: "lock_inv s \<Longrightarrow> act_rx japi vt a s = Some s' \<Longrightarrow> lock_inv s'"
  by (cases a) (auto simp: act_rx_def rx_ops lock_inv_def Let_def
      split: if_splits option.splits rx_pc.splits gnmi_counters.splits prod.splits sum.splits)

lemma act_main_stream_inv: "stream_inv s \<Longrightarrow> act_main vt a s = Some s' \<Longrightarrow> stream_inv s'"
  by (cases a) (auto simp: act_main_def main_ops stream_inv_def Let_def acquired_points
      split: if_splits option.splits main_pc.splits gnmi_counters.splits prod.splits)

lemma act_rx_stream_inv: "stream_inv s \<Longrightarrow> act_rx japi vt a s = Some s' \<Longrightarrow> stream_inv s'"
  by (cases a) (auto simp: act_rx_def rx_ops stream_inv_def Let_def
      split: if_splits option.splits rx_pc.splits gnmi_counters.splits prod.splits sum.splits)

lemma client_act_cases:
  assumes "client_act japi vt a s = Some s'"
  obtains (main) "cs_fault s = None" "is_main a" "act_main vt a s = Some s'"
    | (rx) "cs_fault s = None" "\<not> is_main a" "act_rx japi vt a s = Some s'"
  using assms by (auto simp: client_act_def split: if_splits)

lemma reachable_inv:
  "client_reachable japi vt i s \<Longrightarrow> lock_inv s \<and> stream_inv s"
proof (induction rule: client_reachable.induct)
  case reach_initial
  then show ?case by (simp add: client_initial_def lock_inv_def stream_inv_def)
next
  case (reach_step s s')
  from reach_step(2) obtain a where "client_act japi vt a s = Some s'" by (elim client_stepE)
  then show ?case
    using reach_step.IH act_main_lock_inv act_rx_lock_inv act_main_stream_inv act_rx_stream_inv
    by (elim client_act_cases) blast+
qed

lemma reachable_invariant:
  assumes "client_reachable japi vt i s" "P (client_initial i)"
    and "\<And>a s s'. client_reachable japi vt i s \<Longrightarrow> cs_fault s = None \<Longrightarrow> P s \<Longrightarrow>
      act_main vt a s = Some s' \<Longrightarrow> P s'"
    and "\<And>a s s'. client_reachable japi vt i s \<Longrightarrow> cs_fault s = None \<Longrightarrow> P s \<Longrightarrow>
      act_rx japi vt a s = Some s' \<Longrightarrow> P s'"
  shows "P s"
  using assms(1)
proof (induction rule: client_reachable.induct)
  case reach_initial
  show ?case by (rule assms(2))
next
  case (reach_step s s')
  from reach_step(2) obtain a where "client_act japi vt a s = Some s'" by (elim client_stepE)
  then show ?case
    using reach_step.IH reach_step.hyps(1) assms(3,4) by (elim client_act_cases) blast+
qed

section \<open>The life of a stream\<close>

text \<open>
  The protocol of one stream, as a machine over the history: it is opened once, read until the read
  that ends it, then half-closed once and finished once. A write may come at any time after the
  opening, even behind the end (\<open>register_writes_to_finished_stream\<close>).
\<close>

datatype stream_phase = Unopened | Reading | Ended | Half_closed | Finished

fun phase_step :: "nat \<Rightarrow> client_event \<Rightarrow> stream_phase option \<Rightarrow> stream_phase option" where
  "phase_step n (Ev_subscribe m x) p =
     (if m \<noteq> n then p else if p = Some Unopened then Some Reading else None)"
| "phase_step n (Ev_write m r b) p = (if m \<noteq> n then p else if p = Some Unopened then None else p)"
| "phase_step n (Ev_read m answer) p =
     (if m \<noteq> n then p else if p \<noteq> Some Reading then None
      else if answer = None then Some Ended else p)"
| "phase_step n (Ev_writes_done m b) p =
     (if m \<noteq> n then p else if p = Some Ended then Some Half_closed else None)"
| "phase_step n (Ev_finish m st) p =
     (if m \<noteq> n then p else if p = Some Half_closed then Some Finished else None)"
| "phase_step n _ p = p"

definition phase_of :: "nat \<Rightarrow> client_event list \<Rightarrow> stream_phase option" where
  "phase_of n es = fold (phase_step n) es (Some Unopened)"

fun rx_phase :: "rx_pc \<Rightarrow> stream_phase" where
  "rx_phase Rx_none = Finished"
| "rx_phase Rx_read = Reading"
| "rx_phase (Rx_response _) = Reading"
| "rx_phase Rx_lock = Ended"
| "rx_phase Rx_writes_done = Ended"
| "rx_phase Rx_finish = Half_closed"
| "rx_phase (Rx_status _) = Finished"
| "rx_phase Rx_done = Finished"

definition phase_at :: "nat \<Rightarrow> rx_pc \<Rightarrow> nat \<Rightarrow> stream_phase" where
  "phase_at streams pc n =
     (if streams \<le> n then Unopened else if Suc n = streams then rx_phase pc else Finished)"

definition stream_phase_of :: "'c client_state \<Rightarrow> nat \<Rightarrow> stream_phase" where
  "stream_phase_of s n = phase_at (cs_streams s) (cs_rx s) n"

lemma phase_of_append [simp]: "phase_of n (es @ es') = fold (phase_step n) es' (phase_of n es)"
  by (simp add: phase_of_def)

lemma phase_of_logs [simp]: "fold (phase_step n) (map Ev_log ls) p = p"
  by (induction ls) auto

lemma phase_of_Nil [simp]: "phase_of n [] = Some Unopened"
  by (simp add: phase_of_def)

lemma rx_phase_opened: "rx_phase pc \<noteq> Unopened"
  by (cases pc) auto

lemma register_enter_phase:
  "phase_of n (cs_events (register_enter vt x args s)) = phase_of n (cs_events s)"
  "stream_phase_of (register_enter vt x args s) n = stream_phase_of s n"
  by (simp_all add: register_enter_def emit_def fail_with_def stream_phase_of_def Let_def
      split: option.split gnmi_counters.split prod.split)

lemma act_main_phase:
  assumes "stream_inv s" "phase_of n (cs_events s) = Some (stream_phase_of s n)"
    and "act_main vt a s = Some s'"
  shows "phase_of n (cs_events s') = Some (stream_phase_of s' n)"
  using assms(3)
proof (cases rule: act_main_cases)
  case register
  then show ?thesis using assms(2) by (simp add: register_enter_phase)
next
  case open_stream
  then show ?thesis
    using assms(1,2) by (auto simp: register_open_def emit_def stream_inv_def stream_phase_of_def phase_at_def Let_def)
next
  case (writing r b)
  then show ?thesis
    using assms(1,2) by (cases b) (auto simp: register_write_def stream_inv_def stream_phase_of_def phase_at_def
        emit_def Let_def rx_phase_opened)
next
  case join
  then show ?thesis
    using assms(2) by (simp add: close_joined_def stream_phase_of_def phase_at_def)
qed (use assms(2) in \<open>simp_all add: close_enter_def close_cancel_def close_reset_def emit_def
    stream_phase_of_def Let_def\<close>)

lemma act_rx_phase:
  assumes "stream_inv s" "phase_of n (cs_events s) = Some (stream_phase_of s n)"
    and "act_rx japi vt a s = Some s'"
  shows "phase_of n (cs_events s') = Some (stream_phase_of s' n)"
  using assms(3)
proof (cases rule: act_rx_cases)
  case (response r)
  then show ?thesis
    using assms(2) by (simp add: rx_response_def emit_def fail_with_def stream_phase_of_def phase_at_def Let_def
        split: option.split gnmi_counters.split prod.split sum.split)
next
  case (read answer)
  then show ?thesis
    using assms(1,2) by (cases answer) (auto simp: rx_read_def emit_def stream_inv_def stream_phase_of_def
        phase_at_def)
qed (use assms(1,2) in \<open>auto simp: rx_writes_done_def rx_finish_def rx_status_def emit_def fail_with_def
    stream_inv_def stream_phase_of_def phase_at_def Let_def\<close>)

lemma reachable_phase:
  assumes "client_reachable japi vt i s"
  shows "phase_of n (cs_events s) = Some (stream_phase_of s n)"
  using assms
proof (rule reachable_invariant)
  show "phase_of n (cs_events (client_initial i)) = Some (stream_phase_of (client_initial i) n)"
    by (simp add: client_initial_def stream_phase_of_def phase_at_def)
qed (use reachable_inv act_main_phase act_rx_phase in blast)+

section \<open>The records\<close>

text \<open>The responses read so far, and the one whose treatment has not begun.\<close>

definition read_responses :: "client_event list \<Rightarrow> subscribe_response list" where
  "read_responses es =
     List.map_filter (\<lambda>e. case e of Ev_read n (Some r) \<Rightarrow> Some r | _ \<Rightarrow> None) es"

fun pending :: "rx_pc \<Rightarrow> subscribe_response list" where
  "pending (Rx_response r) = [r]"
| "pending _ = []"

definition success_calls :: "client_event list \<Rightarrow> nat" where
  "success_calls es = length (filter (\<lambda>e. e = Ev_success_handler) es)"

lemma read_responses_append [simp]:
  "read_responses (es @ es') = read_responses es @ read_responses es'"
  by (simp add: read_responses_def map_filter_def)

lemma read_responses_single [simp]:
  "read_responses [] = []"
  "read_responses (e # es) =
     (case e of Ev_read n (Some r) \<Rightarrow> [r] | _ \<Rightarrow> []) @ read_responses es"
  by (simp_all add: read_responses_def map_filter_simps split: client_event.splits option.splits)

lemma read_responses_logs [simp]: "read_responses (map Ev_log ls) = []"
  by (induction ls) auto

lemma success_calls_simps [simp]:
  "success_calls [] = 0"
  "success_calls (es @ es') = success_calls es + success_calls es'"
  "success_calls (e # es) = (if e = Ev_success_handler then 1 else 0) + success_calls es"
  "success_calls (map Ev_log ls) = 0"
  by (simp_all add: success_calls_def filter_empty_conv)

definition counters_of :: "'c client_state \<Rightarrow> 'c option" where
  "counters_of s = (case cs_interface s of Some (PbrCounters c) \<Rightarrow> Some c | _ \<Rightarrow> None)"

text \<open>What the calling thread does touches neither the counters nor the responses.\<close>

lemma act_main_counters:
  assumes "stream_inv s" "act_main vt a s = Some s'"
  shows "cs_interface s' = cs_interface s \<and>
    read_responses (cs_events s') = read_responses (cs_events s) \<and>
    success_calls (cs_events s') = success_calls (cs_events s) \<and>
    pending (cs_rx s') = pending (cs_rx s)"
  using assms(2)
proof (cases rule: act_main_cases)
  case register
  then show ?thesis
    by (simp add: register_enter_def emit_def fail_with_def Let_def
        split: option.split gnmi_counters.split prod.split)
next
  case (writing r b)
  then show ?thesis
    by (simp add: register_write_def emit_def fail_with_def Let_def split: option.split)
next
  case cancel
  then show ?thesis
    by (simp add: close_cancel_def emit_def Let_def)
next
  case open_stream
  then show ?thesis
    using assms(1) by (auto simp: register_open_def emit_def stream_inv_def Let_def)
qed (simp_all add: close_enter_def close_joined_def close_reset_def emit_def)

text \<open>
  While the process runs, the object has gained one record per successful response treated, in the
  order read, and the success handler has been called once for each of them.
\<close>

context pbr_base
begin

definition records_inv :: "'j json_api \<Rightarrow> 'c \<Rightarrow> 'c client_state \<Rightarrow> bool" where
  "records_inv japi c0 s \<longleftrightarrow> cs_fault s = None \<longrightarrow>
     (\<exists>c rs sts. cs_interface s = Some (PbrCounters c) \<and>
        read_responses (cs_events s) = rs @ pending (cs_rx s) \<and>
        traverse conv (successful_maps japi rs) = Inr sts \<and> records c = records c0 @ sts \<and>
        success_calls (cs_events s) = length sts \<and>
        vt_name vt c = vt_name vt c0 \<and> vt_paths vt c = vt_paths vt c0)"

lemma records_invI:
  assumes "cs_interface s = Some (PbrCounters c)"
    "read_responses (cs_events s) = rs @ pending (cs_rx s)"
    "traverse conv (successful_maps japi rs) = Inr sts" "records c = records c0 @ sts"
    "success_calls (cs_events s) = length sts"
    "vt_name vt c = vt_name vt c0" "vt_paths vt c = vt_paths vt c0"
  shows "records_inv japi c0 s"
  using assms by (auto simp: records_inv_def)

lemma traverse_snoc: "traverse f xs = Inr ys \<Longrightarrow> f x = Inr y \<Longrightarrow> traverse f (xs @ [x]) = Inr (ys @ [y])"
  by (simp add: traverse_Inr_iff list_all2_appendI)

lemma successful_maps_snoc: "successful_maps japi (rs @ [r]) =
    successful_maps japi rs @ (case successful_map japi r of None \<Rightarrow> [] | Some m \<Rightarrow> [m])"
  by (induction rs) auto

lemma rx_response_records_inv:
  assumes "json_pointer_keys japi" "records_inv japi c0 s" "cs_fault s = None" "cs_rx s = Rx_response r"
  shows "records_inv japi c0 (rx_response japi vt r s)"
proof -
  obtain c rs sts where c: "cs_interface s = Some (PbrCounters c)"
    and rs: "read_responses (cs_events s) = rs @ [r]" "traverse conv (successful_maps japi rs) = Inr sts"
    and recs: "records c = records c0 @ sts" "success_calls (cs_events s) = length sts"
    and virt: "vt_name vt c = vt_name vt c0" "vt_paths vt c = vt_paths vt c0"
    using assms(2-4) by (auto simp: records_inv_def)
  show ?thesis
  proof (cases "successful_map japi r")
    case None
    obtain l code where "check_response japi vt r c = (l, Inr (None, code))" "code \<noteq> SUCCESS"
      using check_response_successful(1) [OF assms(1) None, of vt c] by (elim exE conjE)
    then show ?thesis
      using c rs recs virt
      by (intro records_invI [of _ c "rs @ [r]" _ sts])
        (simp_all add: rx_response_def emit_def successful_maps_snoc None)
  next
    case (Some m)
    show ?thesis
    proof (cases "conv m")
      case (Inl e)
      then obtain l where "check_response japi vt r c = (l, Inl e)"
        using check_response_throws [OF assms(1) Some, of e c] by blast
      then show ?thesis
        using c by (simp add: rx_response_def emit_def fail_with_def records_inv_def)
    next
      case (Inr st)
      obtain p where p: "vt_to_stats vt c m = Inr p"
        using Inr to_stats_fails [of c m] by (cases "vt_to_stats vt c m") auto
      obtain l where check: "check_response japi vt r c = (l, Inr (p, SUCCESS))"
        using check_response_successful(2) [OF assms(1) Some, of vt c] p by auto
      obtain l' c' where add: "vt_add_stats vt p c = (l', c')" by fastforce
      have c': "records c' = records c @ [st]" "vt_name vt c' = vt_name vt c" "vt_paths vt c' = vt_paths vt c"
        using add add_converted [OF p Inr, of c] add_keeps_name [of p c] add_keeps_paths [of p c]
        by simp_all
      show ?thesis
      proof (cases "cs_success_set s")
        case True
        then show ?thesis
          using c rs recs virt c'
          by (intro records_invI [of _ c' "rs @ [r]" _ "sts @ [st]"])
            (simp_all add: rx_response_def emit_def check add successful_maps_snoc Some Inr
              traverse_snoc)
      next
        case False
        then show ?thesis
          using c by (simp add: rx_response_def emit_def fail_with_def records_inv_def check add)
      qed
    qed
  qed
qed

lemma act_rx_records_inv:
  assumes "json_pointer_keys japi" "records_inv japi c0 s" "cs_fault s = None"
    and "act_rx japi vt a s = Some s'"
  shows "records_inv japi c0 s'"
  using assms(4)
proof (cases rule: act_rx_cases)
  case (read answer)
  then show ?thesis
    using assms(2,3) by (auto simp: rx_read_def records_inv_def emit_def fail_with_def split: option.splits)
next
  case response
  then show ?thesis using rx_response_records_inv assms by simp
next
  case (status st)
  then show ?thesis
    using assms(2,3) by (auto simp: rx_status_def records_inv_def emit_def fail_with_def Let_def)
next
  case writes_done
  then show ?thesis
    using assms(2,3) by (auto simp: rx_writes_done_def records_inv_def emit_def fail_with_def split: option.splits)
next
  case finish
  then show ?thesis
    using assms(2,3) by (auto simp: rx_finish_def records_inv_def emit_def fail_with_def split: option.splits)
qed (use assms(2,3) in \<open>auto simp: records_inv_def\<close>)

lemma reachable_records:
  assumes "json_pointer_keys japi" "client_reachable japi vt (Some (PbrCounters c0)) s"
  shows "records_inv japi c0 s"
  using assms(2)
proof (rule reachable_invariant)
  show "records_inv japi c0 (client_initial (Some (PbrCounters c0)))"
    by (simp add: records_inv_def client_initial_def)
next
  fix a s s' assume reach: "client_reachable japi vt (Some (PbrCounters c0)) s"
    and "cs_fault s = None" "records_inv japi c0 s" "act_main vt a s = Some s'"
  then show "records_inv japi c0 s'"
    using act_main_counters [of s vt a s'] reachable_inv [OF reach] by (simp add: records_inv_def)
qed (use act_rx_records_inv [OF assms(1)] in blast)

end

section \<open>Faults, statuses and returns\<close>

lemma act_main_interface:
  assumes "act_main vt a s = Some s'"
  shows "cs_interface s' = cs_interface s"
  using assms
proof (cases rule: act_main_cases)
  case register
  then show ?thesis
    by (simp add: register_enter_def emit_def fail_with_def Let_def
        split: option.split gnmi_counters.split prod.split)
next
  case (writing r b)
  then show ?thesis
    by (simp add: register_write_def emit_def fail_with_def Let_def split: option.split)
qed (simp_all add: close_enter_def close_joined_def close_reset_def close_cancel_def
    register_open_def emit_def Let_def)

lemma act_rx_interface:
  assumes "act_rx japi vt a s = Some s'" "cs_interface s = Some (PbrCounters c)"
  shows "\<exists>c'. cs_interface s' = Some (PbrCounters c')"
  using assms(1)
proof (cases rule: act_rx_cases)
  case (response r)
  then show ?thesis
    using assms(2) by (auto simp: rx_response_def emit_def fail_with_def Let_def
        split: prod.splits sum.splits)
qed (use assms(2) in \<open>auto simp: rx_ops Let_def split: option.splits\<close>)

lemma reachable_interface:
  "client_reachable japi vt (Some (PbrCounters c0)) s \<Longrightarrow> \<exists>c. cs_interface s = Some (PbrCounters c)"
  by (erule reachable_invariant)
    (auto simp: client_initial_def act_main_interface act_rx_interface)

text \<open>What can end the process of a client of \<^verbatim>\<open>PBRBasic\<close> counters.\<close>

definition expected_fault :: "'c client_state \<Rightarrow> bool" where
  "expected_fault s \<longleftrightarrow>
     (case cs_fault s of
        None \<Rightarrow> True
      | Some f \<Rightarrow>
          f = Bad_function_call \<and> \<not> (cs_success_set s \<and> cs_failed_set s) \<or>
          f = Invalid_argument ''stoull'' \<or> f = Out_of_range ''stoull'')"

lemma conversion_fault:
  assumes "unordered_map_to_stats m = Inl e"
  shows "e = Invalid_argument ''stoull'' \<or> e = Out_of_range ''stoull''"
proof -
  have "map_to_basic_stat m = Inl e"
    using assms by (simp add: unordered_map_to_stats_def result_simps)
  then obtain k where "counter_or_zero m k = Inl e"
    by (blast dest: map_to_basic_stat_Inl)
  then show ?thesis
    by (auto simp: counter_or_zero_def stoull_def Let_def split: option.splits prod.splits if_splits)
qed

lemma act_main_expected_fault:
  assumes "client_reachable japi pbr_basic_vt (Some (PbrCounters c0)) s" "cs_fault s = None"
    and "act_main pbr_basic_vt a s = Some s'"
  shows "cs_fault s' = None"
  using assms(3)
proof (cases rule: act_main_cases)
  case register
  then show ?thesis
    using assms(2) reachable_interface [OF assms(1)]
    by (auto simp: register_enter_def counters_name_def emit_def Let_def split: prod.split)
next
  case (writing r b)
  then show ?thesis
    using assms(2) reachable_inv [OF assms(1)]
    by (auto simp: register_write_def emit_def stream_inv_def Let_def)
qed (use assms(2) in \<open>simp_all add: close_enter_def close_joined_def close_reset_def
    close_cancel_def register_open_def emit_def Let_def\<close>)

lemma act_rx_expected_fault:
  assumes "json_pointer_keys japi" "cs_interface s = Some (PbrCounters c)" "stream_inv s"
    and "cs_fault s = None" "act_rx japi pbr_basic_vt a s = Some s'"
  shows "expected_fault s'"
  using assms(5)
proof (cases rule: act_rx_cases)
  case (response r)
  have "e = Invalid_argument ''stoull'' \<or> e = Out_of_range ''stoull''"
    if check: "check_response japi pbr_basic_vt r c = (l, Inl e)" for l e
  proof -
    have "snd (check_response japi pbr_basic_vt r c) = Inl e" by (simp add: check)
    then obtain n where "unordered_map_to_stats (response_map japi n) = Inl e"
      unfolding check_response_cases [OF assms(1)]
      by (auto simp: result_simps split: subscribe_response.splits if_splits)
    then show ?thesis by (rule conversion_fault)
  qed
  then show ?thesis
    using assms(2,4) response by (auto simp: rx_response_def emit_def fail_with_def
        expected_fault_def Let_def split: prod.splits sum.splits)
qed (use assms(3,4) in \<open>auto simp: rx_ops stream_inv_def expected_fault_def Let_def\<close>)

lemma reachable_expected_fault:
  assumes "json_pointer_keys japi" "client_reachable japi pbr_basic_vt (Some (PbrCounters c0)) s"
  shows "expected_fault s"
  using assms(2)
proof (rule reachable_invariant)
  show "expected_fault (client_initial (Some (PbrCounters c0)))"
    by (simp add: expected_fault_def client_initial_def)
next
  fix a s s' assume "client_reachable japi pbr_basic_vt (Some (PbrCounters c0)) s"
    "cs_fault s = None" "act_main pbr_basic_vt a s = Some s'"
  then have "cs_fault s' = None" by (rule act_main_expected_fault)
  then show "expected_fault s'" by (simp add: expected_fault_def)
next
  fix a s s' assume "client_reachable japi pbr_basic_vt (Some (PbrCounters c0)) s"
    and rest: "cs_fault s = None" "act_rx japi pbr_basic_vt a s = Some s'"
  then obtain c where "cs_interface s = Some (PbrCounters c)" "stream_inv s"
    using reachable_interface [of japi pbr_basic_vt c0 s] reachable_inv [of japi pbr_basic_vt _ s] by metis
  from act_rx_expected_fault [OF assms(1) this rest] show "expected_fault s'" .
qed

text \<open>The final statuses that are failures, and those the failed handler was called with.\<close>

definition failing :: "grpc_status \<Rightarrow> bool" where
  "failing st \<longleftrightarrow> \<not> status_ok st \<and> \<not> status_cancelled st"

definition failures :: "client_event list \<Rightarrow> grpc_status list" where
  "failures es =
     List.map_filter (\<lambda>e. case e of Ev_finish n st \<Rightarrow> if failing st then Some st else None | _ \<Rightarrow> None) es"

definition failed_calls :: "client_event list \<Rightarrow> grpc_status list" where
  "failed_calls es =
     List.map_filter (\<lambda>e. case e of Ev_failed_handler st \<Rightarrow> Some st | _ \<Rightarrow> None) es"

fun unreported :: "rx_pc \<Rightarrow> grpc_status list" where
  "unreported (Rx_status st) = (if failing st then [st] else [])"
| "unreported _ = []"

lemma failures_simps [simp]:
  "failures [] = []"
  "failures (es @ es') = failures es @ failures es'"
  "failures (map Ev_log ls) = []"
  "failures (e # es) =
     (case e of Ev_finish n st \<Rightarrow> if failing st then [st] else [] | _ \<Rightarrow> []) @ failures es"
  by (simp_all add: failures_def map_filter_def comp_def split: client_event.splits)

lemma failed_calls_simps [simp]:
  "failed_calls [] = []"
  "failed_calls (es @ es') = failed_calls es @ failed_calls es'"
  "failed_calls (map Ev_log ls) = []"
  "failed_calls (e # es) = (case e of Ev_failed_handler st \<Rightarrow> [st] | _ \<Rightarrow> []) @ failed_calls es"
  by (simp_all add: failed_calls_def map_filter_def comp_def split: client_event.splits)

definition reported_inv :: "'c client_state \<Rightarrow> bool" where
  "reported_inv s \<longleftrightarrow> cs_fault s = None \<longrightarrow>
     failures (cs_events s) = failed_calls (cs_events s) @ unreported (cs_rx s)"

lemma act_main_reported:
  assumes "stream_inv s" "cs_fault s = None" "reported_inv s" "act_main vt a s = Some s'"
  shows "reported_inv s'"
  using assms(4)
proof (cases rule: act_main_cases)
  case register
  then show ?thesis
    using assms(2,3) by (simp add: register_enter_def reported_inv_def emit_def fail_with_def Let_def
        split: option.split gnmi_counters.split prod.split)
next
  case (writing r b)
  then show ?thesis
    using assms(2,3) by (simp add: register_write_def reported_inv_def emit_def fail_with_def Let_def
        split: option.split)
next
  case open_stream
  then show ?thesis
    using assms(1,2,3)
    by (auto simp: register_open_def stream_inv_def reported_inv_def emit_def Let_def)
qed (use assms(2,3) in \<open>simp_all add: close_enter_def close_joined_def close_reset_def
    close_cancel_def reported_inv_def emit_def Let_def\<close>)

lemma act_rx_reported:
  assumes "cs_fault s = None" "reported_inv s" "act_rx japi vt a s = Some s'"
  shows "reported_inv s'"
  using assms(3)
proof (cases rule: act_rx_cases)
  case (response r)
  then show ?thesis
    using assms(1,2) by (auto simp: rx_response_def reported_inv_def emit_def fail_with_def Let_def
        split: option.splits gnmi_counters.splits prod.splits sum.splits)
qed (use assms(1,2) in \<open>auto simp: rx_read_def rx_writes_done_def rx_finish_def rx_status_def
    failing_def reported_inv_def emit_def fail_with_def Let_def split: option.splits\<close>)

lemma reachable_reported:
  assumes "client_reachable japi vt i s"
  shows "reported_inv s"
  using assms
proof (rule reachable_invariant)
  show "reported_inv (client_initial i)"
    by (simp add: reported_inv_def client_initial_def)
qed (use reachable_inv act_main_reported act_rx_reported in blast)+

text \<open>What \<^verbatim>\<open>rpc_register_stats_stream\<close> has returned.\<close>

lemma act_main_registered:
  assumes "stream_inv s" "Ev_registered RPC_FAILURE \<notin> set (cs_events s)"
    and "act_main vt a s = Some s'"
  shows "Ev_registered RPC_FAILURE \<notin> set (cs_events s')"
  using assms(3)
proof (cases rule: act_main_cases)
  case register
  then show ?thesis
    using assms(2) by (auto simp: register_enter_def emit_def fail_with_def Let_def
        split: option.split gnmi_counters.split prod.split)
next
  case (writing r b)
  then show ?thesis
    using assms(1,2) by (cases b) (auto simp: register_write_def stream_inv_def emit_def Let_def)
qed (use assms(2) in \<open>simp_all add: close_enter_def close_joined_def close_reset_def
    close_cancel_def register_open_def emit_def Let_def\<close>)

lemma act_rx_registered:
  assumes "Ev_registered RPC_FAILURE \<notin> set (cs_events s)" "act_rx japi vt a s = Some s'"
  shows "Ev_registered RPC_FAILURE \<notin> set (cs_events s')"
  using assms(2)
proof (cases rule: act_rx_cases)
  case (response r)
  then show ?thesis
    using assms(1) by (auto simp: rx_response_def emit_def fail_with_def Let_def
        split: option.splits gnmi_counters.splits prod.splits sum.splits)
qed (use assms(1) in \<open>auto simp: rx_read_def rx_writes_done_def rx_finish_def rx_status_def
    emit_def fail_with_def Let_def split: option.splits\<close>)

lemma reachable_registered:
  assumes "client_reachable japi vt i s"
  shows "Ev_registered RPC_FAILURE \<notin> set (cs_events s)"
  using assms
proof (rule reachable_invariant)
  show "Ev_registered RPC_FAILURE \<notin> set (cs_events (client_initial i))"
    by (simp add: client_initial_def)
qed (use reachable_inv act_main_registered act_rx_registered in blast)+

section \<open>Closing\<close>

text \<open>How many steps the receive thread still takes once its stream has ended.\<close>

fun rx_left :: "rx_pc \<Rightarrow> nat" where
  "rx_left Rx_lock = 4"
| "rx_left Rx_writes_done = 3"
| "rx_left Rx_finish = 2"
| "rx_left (Rx_status _) = 1"
| "rx_left _ = 0"

lemma rx_step_enabled:
  assumes "cs_fault s = None" "cs_mtx s \<noteq> Some Main_thread" "lock_inv s"
    and "cs_rx s \<noteq> Rx_none" "cs_rx s \<noteq> Rx_done"
  shows "\<exists>s'. client_step japi vt s s'"
proof -
  have free: "cs_rx s = Rx_lock \<Longrightarrow> cs_mtx s = None"
    using assms(2,3) by (cases "cs_mtx s"; cases "the (cs_mtx s)") (auto simp: lock_inv_def)
  have "\<exists>a. \<not> is_main a \<and> act_rx japi vt a s \<noteq> None"
    using assms(4,5) free
    by (cases "cs_rx s")
      (force simp: act_rx_def is_main_def split: client_action.splits)+
  then show ?thesis
    using assms(1) by (auto simp: client_act_def intro!: step_act)
qed

lemma join_step:
  assumes "cs_main s = Close_join" "rx_phase (cs_rx s) \<noteq> Reading" "stream_inv s"
    and "client_step japi vt s s'"
  shows "cs_main s' = Close_reset \<or> cs_fault s' \<noteq> None \<or>
    cs_main s' = Close_join \<and> rx_phase (cs_rx s') \<noteq> Reading \<and> rx_left (cs_rx s') < rx_left (cs_rx s)"
proof -
  obtain a where "client_act japi vt a s = Some s'" using assms(4) by (elim client_stepE)
  then show ?thesis
  proof (cases rule: client_act_cases)
    case main
    from main(3) show ?thesis
      using assms(1) by (cases rule: act_main_cases) (simp_all add: close_joined_def)
  next
    case rx
    from rx(3) show ?thesis
      using assms(1,2)
      by (cases rule: act_rx_cases) (auto simp: rx_writes_done_def rx_finish_def rx_status_def
          emit_def fail_with_def Let_def split: option.splits)
  qed
qed

section \<open>A run\<close>

text \<open>
  A client of one key: both handlers are set, the stream is opened, one sample arrives, the server
  ends the stream, and the client registers again.
\<close>

definition sample_request :: subscribe_request where
  "sample_request = Some (sample_list default_rpc_args [pbr_request_path key_p1_r3])"

definition sample_object :: "pbr_basic gnmi_counters option" where
  "sample_object = Some (PbrCounters sample_counters)"

definition open_actions :: "client_action list" where
  "open_actions = [Call_register sample_context default_rpc_args, Main_acquire, Main_open, Main_release,
     Main_acquire, Main_write True]"

definition end_actions :: "grpc_status \<Rightarrow> client_action list" where
  "end_actions st = [Rx_receive None, Rx_acquire, Rx_half_close True, Rx_end st, Rx_report]"

definition set_actions :: "client_action list" where
  "set_actions = [Set_success_handler True, Set_failed_handler True]"

definition run_sample :: "client_action list \<Rightarrow> pbr_basic client_state option" where
  "run_sample as = client_run number_json pbr_basic_vt as (client_initial sample_object)"

lemma run_sample_reachable: "run_sample as = Some s \<Longrightarrow>
    client_reachable number_json pbr_basic_vt sample_object s"
  by (simp add: run_sample_def client_run_initial)

lemma sample_request_built:
  "subscribe_request_helper None (default_rpc_args\<lparr>args_mode := STREAM\<rparr>)
     \<lparr>rsa_prefix = path_origin, paths_of_interest = get_gnmi_paths (pbr_keys sample_counters)\<rparr> =
   ([], sample_request, SUCCESS)"
proof -
  have "default_rpc_args\<lparr>args_mode := STREAM\<rparr> = default_rpc_args"
    by (simp add: default_rpc_args_def)
  then show ?thesis
    using subscribe_request_helper_keys [of "[key_p1_r3]" default_rpc_args
        "\<lparr>rsa_prefix = path_origin, paths_of_interest = get_gnmi_paths (pbr_keys sample_counters)\<rparr>"]
    by (simp add: sample_counters_def servable_key_p1_r3 sample_request_def default_rpc_args_def)
qed

lemma register_enter_sample:
  "cs_interface s = sample_object \<Longrightarrow> register_enter pbr_basic_vt sample_context default_rpc_args s =
     s\<lparr>cs_main := (if \<not> cs_joinable s then Reg_lock_open sample_context sample_request
                   else Reg_lock_write sample_request)\<rparr>"
  by (simp add: register_enter_def sample_object_def counters_name_def sample_request_built emit_def)

lemmas run_simps = run_sample_def client_act_def act_main_def act_rx_def is_main_def
  register_enter_sample register_open_def register_write_def rx_read_def rx_writes_done_def
  rx_finish_def rx_status_def emit_def fail_with_def client_initial_def Let_def

lemma run_opening: "run_sample (set_actions @ open_actions) = Some
    \<lparr>cs_interface = sample_object, cs_success_set = True, cs_failed_set = True, cs_mtx = None,
     cs_joinable = True, cs_ctx = Some (make_context sample_context), cs_rw = Some 0,
     cs_streams = 1, cs_main = Main_idle, cs_rx = Rx_read,
     cs_events = [Ev_subscribe 0 (make_context sample_context), Ev_write 0 sample_request True,
       Ev_log (''Subscribe Stream Request: Write operation succeeded'', INFO),
       Ev_registered RPC_SUCCESS], cs_fault = None\<rparr>"
  by (simp add: set_actions_def open_actions_def run_simps)

lemma run_append: "client_run japi vt (as @ bs) s =
    (case client_run japi vt as s of None \<Rightarrow> None | Some s' \<Rightarrow> client_run japi vt bs s')"
  by (induction as arbitrary: s) (auto split: option.splits)

lemma run_sample_append: "run_sample as = Some s \<Longrightarrow>
    run_sample (as @ bs) = client_run number_json pbr_basic_vt bs s"
  by (simp add: run_sample_def run_append)

definition unavailable :: grpc_status where
  "unavailable = \<lparr>status_code = 14, status_message = ''down''\<rparr>"

lemma unavailable_failing: "\<not> status_ok unavailable" "\<not> status_cancelled unavailable"
  by (simp_all add: unavailable_def status_ok_def status_cancelled_def)

lemma run_failure: "\<exists>s. run_sample (set_actions @ open_actions @ end_actions unavailable) = Some s \<and>
    cs_interface s = sample_object \<and> cs_joinable s \<and> cs_ctx s \<noteq> None \<and> cs_mtx s = None \<and>
    cs_rw s = Some 0 \<and> cs_main s = Main_idle \<and> cs_rx s = Rx_done \<and> cs_fault s = None \<and>
    failed_calls (cs_events s) = [unavailable]"
  using run_sample_append [OF run_opening, of "end_actions unavailable"]
  by (simp add: end_actions_def run_simps unavailable_failing)

lemma sample_check: "check_response number_json pbr_basic_vt sample_response c =
    ([], Inr (Some (BasicStat (sample_stat key_p1_r3 1 2 3 4 ''g'' ''a'')), SUCCESS))"
proof -
  have key: "key_policy key_p1_r3 \<noteq> ''''" "key_rule key_p1_r3 \<noteq> ''''"
    by (simp_all add: key_p1_r3_def)
  show ?thesis
    using proto_response [OF number_json_pointer_keys
        sample_updates_proto [of 1 2 3 4 "''g''" "''a''"] key refl, where vt = pbr_basic_vt and c = c]
      sample_map_decodes [of 1 2 3 4 "''g''" "''a''" key_p1_r3]
    by (simp add: sample_response_def unordered_map_to_stats_def)
qed

definition sampled_counters :: pbr_basic where
  "sampled_counters = sample_counters\<lparr>pbr_stats := [sample_stat key_p1_r3 1 2 3 4 ''g'' ''a'']\<rparr>"

lemma sample_handled:
  "cs_interface s = sample_object \<Longrightarrow> rx_response number_json pbr_basic_vt sample_response s =
     (let s' = emit [Ev_log (''Client received a response.'', VERBOSE)]
          (s\<lparr>cs_rx := Rx_read, cs_interface := Some (PbrCounters sampled_counters)\<rparr>)
      in if cs_success_set s then emit [Ev_success_handler] s' else fail_with Bad_function_call s')"
  by (simp add: rx_response_def sample_object_def sample_check add_stats_def sampled_counters_def
      sample_counters_def Let_def emit_def)

lemma run_receive: "\<exists>s. run_sample (set_actions @ open_actions @ [Rx_receive (Some sample_response), Rx_handle]) = Some s \<and>
    cs_interface s = Some (PbrCounters sampled_counters) \<and> cs_fault s = None \<and> cs_rx s = Rx_read"
  using run_sample_append [OF run_opening, of "[Rx_receive (Some sample_response), Rx_handle]"]
  by (simp add: run_simps sample_handled)

lemma run_unhandled: "\<exists>s. run_sample (open_actions @ [Rx_receive (Some sample_response)]) = Some s \<and>
    cs_interface s = sample_object \<and> cs_fault s = None \<and> cs_rx s = Rx_response sample_response \<and>
    \<not> cs_success_set s"
  by (simp add: open_actions_def run_simps)

section \<open>Properties of the stream\<close>

text \<open>
  The mutex works. In every reachable state its holder is exactly the thread that is inside one
  of its critical sections, so the two threads are never both inside one, and the pointers of the
  stream are only replaced while no receive thread exists.
\<close>

lemma stream_mutex_exclusive:
  assumes "client_reachable japi vt i s"
  shows "(cs_mtx s = Some Main_thread \<longleftrightarrow> main_holds (cs_main s)) \<and>
    (cs_mtx s = Some Receive_thread \<longleftrightarrow> rx_holds (cs_rx s)) \<and>
    \<not> (main_holds (cs_main s) \<and> rx_holds (cs_rx s)) \<and>
    (\<forall>x r. cs_main s = Reg_open x r \<longrightarrow> cs_rx s = Rx_none)"
  using reachable_inv [OF assms] by (auto simp: lock_inv_def stream_inv_def)

lemma stream_mutex_exclusive_example:
  "\<exists>s. run_sample (set_actions @ open_actions) = Some s \<and> \<not> (main_holds (cs_main s) \<and> rx_holds (cs_rx s))"
proof -
  obtain s where s: "run_sample (set_actions @ open_actions) = Some s"
    using run_opening by blast
  show ?thesis
    using stream_mutex_exclusive [OF run_sample_reachable [OF s]] s by blast
qed

text \<open>
  C3: every stream follows its protocol. The history of each stream number is a run of the machine
  open, read until the end, \<open>WritesDone\<close> once, \<open>Finish\<close> once: streams not yet opened have no events,
  the last one is in the phase of the receive thread, and all earlier ones are finished.
\<close>

theorem stream_follows_protocol:
  assumes "client_reachable japi vt i s"
  shows "phase_of n (cs_events s) = Some
    (if cs_streams s \<le> n then Unopened
     else if Suc n = cs_streams s then rx_phase (cs_rx s) else Finished)"
  using reachable_phase [OF assms, of n] by (simp add: stream_phase_of_def phase_at_def)

theorem stream_follows_protocol_witness:
  "phase_of 0 [Ev_subscribe 0 (make_context sample_context), Ev_write 0 sample_request True,
     Ev_log (''Subscribe Stream Request: Write operation succeeded'', INFO),
     Ev_registered RPC_SUCCESS] = Some Reading"
  using stream_follows_protocol [OF run_sample_reachable [OF run_opening], of 0] by simp

text \<open>
  C2: the stream collects the records. As long as the process runs, the PBR object holds its initial
  records followed by one per successful response treated, in the order read, each described by the
  map of its response; the success handler has been called exactly once for each; and the paths the
  object asks for have not changed.
\<close>

theorem stream_collects_records:
  assumes "json_pointer_keys japi"
    and "client_reachable japi pbr_basic_vt (Some (PbrCounters c0)) s" "cs_fault s = None"
  shows "\<exists>c rs sts. cs_interface s = Some (PbrCounters c) \<and>
    read_responses (cs_events s) = rs @ pending (cs_rx s) \<and>
    traverse map_to_basic_stat (successful_maps japi rs) = Inr sts \<and>
    pbr_stats c = pbr_stats c0 @ sts \<and> success_calls (cs_events s) = length sts \<and>
    get_gnmi_paths (pbr_keys c) = get_gnmi_paths (pbr_keys c0)"
proof -
  from assms(3) basic_counters.reachable_records [OF assms(1,2)] obtain c rs sts
    where "cs_interface s = Some (PbrCounters c)"
      "read_responses (cs_events s) = rs @ pending (cs_rx s)"
      "traverse map_to_basic_stat (successful_maps japi rs) = Inr sts"
      "pbr_stats c = pbr_stats c0 @ sts" "success_calls (cs_events s) = length sts"
      "vt_paths pbr_basic_vt c = vt_paths pbr_basic_vt c0"
    unfolding basic_counters.records_inv_def by blast
  then show ?thesis by auto
qed

theorem stream_collects_records_witness:
  "\<exists>s c. run_sample (set_actions @ open_actions @ [Rx_receive (Some sample_response), Rx_handle]) = Some s \<and>
    cs_interface s = Some (PbrCounters c) \<and>
    pbr_stats c = [sample_stat key_p1_r3 1 2 3 4 ''g'' ''a''] \<and> success_calls (cs_events s) = 1"
proof -
  obtain s where s: "run_sample (set_actions @ open_actions @ [Rx_receive (Some sample_response), Rx_handle]) = Some s"
    "cs_interface s = Some (PbrCounters sampled_counters)" "cs_fault s = None"
    using run_receive by blast
  show ?thesis
    using stream_collects_records [OF number_json_pointer_keys
        run_sample_reachable [OF s(1), unfolded sample_object_def] s(3)] s
    by (auto simp: sampled_counters_def sample_counters_def)
qed

text \<open>
  C26: the failed handler gets exactly the failures. It has been called with the final statuses that
  are neither OK nor CANCELLED, once each and in order; only the status just obtained may still be
  unreported.
\<close>

theorem failed_handler_gets_failures:
  assumes "client_reachable japi vt i s" "cs_fault s = None"
  shows "failures (cs_events s) = failed_calls (cs_events s) @ unreported (cs_rx s)"
  using reachable_reported [OF assms(1)] assms(2) by (simp add: reported_inv_def)

theorem failed_handler_gets_failures_witness:
  "\<exists>s. run_sample (set_actions @ open_actions @ end_actions unavailable) = Some s \<and>
     failures (cs_events s) = [unavailable]"
proof -
  obtain s where s: "run_sample (set_actions @ open_actions @ end_actions unavailable) = Some s"
    "cs_rx s = Rx_done" "cs_fault s = None" "failed_calls (cs_events s) = [unavailable]"
    using run_failure by blast
  show ?thesis
    using failed_handler_gets_failures [OF run_sample_reachable [OF s(1)] s(3)] s by simp
qed

text \<open>
  C4: what can end the process. With PBR counters the two threads never use a null stream, whatever
  the server, the order of the calls and the interleaving; the process only ends by calling a handler
  while one is not set, or by the exception of \<open>std::stoull\<close> that nothing in the receive thread
  catches.
\<close>

theorem stream_faults:
  assumes "json_pointer_keys japi"
    and "client_reachable japi pbr_basic_vt (Some (PbrCounters c0)) s" "cs_fault s = Some f"
  shows "f = Bad_function_call \<and> \<not> (cs_success_set s \<and> cs_failed_set s) \<or>
    f = Invalid_argument ''stoull'' \<or> f = Out_of_range ''stoull''"
  using reachable_expected_fault [OF assms(1,2)] assms(3) by (simp add: expected_fault_def)

theorem stream_faults_witness:
  "\<exists>s f. run_sample (open_actions @ [Rx_receive (Some sample_response), Rx_handle]) = Some s \<and>
     cs_fault s = Some f \<and> f = Bad_function_call"
proof -
  have "\<exists>s. run_sample (open_actions @ [Rx_receive (Some sample_response), Rx_handle]) = Some s \<and>
      cs_fault s = Some Bad_function_call"
    by (simp add: open_actions_def run_simps sample_handled)
  then obtain s where s: "run_sample (open_actions @ [Rx_receive (Some sample_response), Rx_handle]) = Some s"
    "cs_fault s = Some Bad_function_call" by blast
  show ?thesis
    using stream_faults [OF number_json_pointer_keys
        run_sample_reachable [OF s(1), unfolded sample_object_def] s(2)] s by blast
qed

text \<open>
  An empty success handler ends the process. When no handler was set, treating the first
  successful response stores its record and then throws \<open>std::bad_function_call\<close> in the receive
  thread.
\<close>

lemma empty_success_handler_ends_process:
  assumes "json_pointer_keys japi" "cs_fault s = None" "cs_rx s = Rx_response r"
    and "cs_interface s = Some (PbrCounters c)" "\<not> cs_success_set s"
    and "successful_map japi r = Some m" "map_to_basic_stat m = Inr st"
  shows "\<exists>s'. client_act japi pbr_basic_vt Rx_handle s = Some s' \<and>
    cs_fault s' = Some Bad_function_call \<and>
    cs_interface s' = Some (PbrCounters (c\<lparr>pbr_stats := pbr_stats c @ [st]\<rparr>))"
proof -
  obtain l where "check_response japi pbr_basic_vt r c = (l, Inr (Some (BasicStat st), SUCCESS))"
    using check_response_successful(2) [OF assms(1,6), of pbr_basic_vt c] assms(7)
    by (auto simp: unordered_map_to_stats_def)
  with assms(2-5) show ?thesis
    by (simp add: client_act_def is_main_def act_rx_def rx_response_def add_stats_def emit_def
        fail_with_def)
qed

lemma empty_success_handler_ends_process_example:
  "\<exists>s s'. run_sample (open_actions @ [Rx_receive (Some sample_response)]) = Some s \<and>
     client_act number_json pbr_basic_vt Rx_handle s = Some s' \<and> cs_fault s' = Some Bad_function_call"
proof -
  obtain s where s: "run_sample (open_actions @ [Rx_receive (Some sample_response)]) = Some s"
    "cs_interface s = sample_object" "cs_fault s = None" "cs_rx s = Rx_response sample_response"
    "\<not> cs_success_set s"
    using run_unhandled by blast
  obtain m where m: "successful_map number_json sample_response = Some m"
    "map_to_basic_stat m = Inr (sample_stat key_p1_r3 1 2 3 4 ''g'' ''a'')"
    using sample_response_map by blast
  show ?thesis
    using empty_success_handler_ends_process [OF number_json_pointer_keys s(3,4)
        s(2) [unfolded sample_object_def] s(5) m] s(1) by blast
qed

text \<open>
  Registering never reports an rpc failure. The branch that returns \<open>RPC_FAILURE\<close> tests a
  pointer no operation resets, so it is never taken: no call of \<open>rpc_register_stats_stream\<close> in any
  interleaving has returned that code.
\<close>

lemma register_never_returns_rpc_failure:
  assumes "client_reachable japi vt i s"
  shows "Ev_registered RPC_FAILURE \<notin> set (cs_events s)"
  using assms by (rule reachable_registered)

lemma register_never_returns_rpc_failure_example:
  "\<exists>s. run_sample (set_actions @ open_actions @ end_actions unavailable) = Some s \<and> cs_rx s = Rx_done \<and>
     Ev_registered RPC_FAILURE \<notin> set (cs_events s)"
proof -
  obtain s where s: "run_sample (set_actions @ open_actions @ end_actions unavailable) = Some s"
    "cs_rx s = Rx_done"
    using run_failure by blast
  show ?thesis
    using register_never_returns_rpc_failure [OF run_sample_reachable [OF s(1)]] s by blast
qed

text \<open>
  A finished stream is still written to. When the receive thread has finished the stream and
  registering is called again, the guard that is meant to prevent it lets the write through, on the
  stream that \<open>Finish\<close> has already been called on; the answer of that write decides what is returned.
\<close>

lemma register_writes_to_finished_stream:
  assumes "client_reachable japi vt i s" "cs_fault s = None"
    and "cs_main s = Reg_write request" "cs_rx s = Rx_done"
  shows "\<exists>n l s'. phase_of n (cs_events s) = Some Finished \<and>
    client_act japi vt (Main_write b) s = Some s' \<and>
    cs_events s' = cs_events s @
      [Ev_write n request b, l, Ev_registered (if b then RPC_SUCCESS else WRITES_FAILED)]"
proof -
  obtain n where n: "cs_ctx s \<noteq> None" "cs_rw s = Some n" "cs_streams s = Suc n"
    using reachable_inv [OF assms(1)] assms(3,4) by (auto simp: stream_inv_def)
  have "phase_of n (cs_events s) = Some Finished"
    using reachable_phase [OF assms(1), of n] assms(4) n(3)
    by (simp add: stream_phase_of_def phase_at_def)
  moreover have "client_act japi vt (Main_write b) s = Some (register_write request b s)"
    using assms(2,3) by (simp add: client_act_def is_main_def act_main_def)
  moreover have "\<exists>l. cs_events (register_write request b s) = cs_events s @
      [Ev_write n request b, l, Ev_registered (if b then RPC_SUCCESS else WRITES_FAILED)]"
    using n(1,2) by (cases b) (simp_all add: register_write_def emit_def)
  ultimately show ?thesis by blast
qed

lemma run_again: "\<exists>s. run_sample ((set_actions @ open_actions @ end_actions unavailable) @
      [Call_register sample_context default_rpc_args, Main_acquire]) = Some s \<and>
    cs_fault s = None \<and> cs_main s = Reg_write sample_request \<and> cs_rx s = Rx_done"
proof -
  obtain s where s: "run_sample (set_actions @ open_actions @ end_actions unavailable) = Some s"
    "cs_interface s = sample_object" "cs_joinable s" "cs_mtx s = None" "cs_main s = Main_idle"
    "cs_rx s = Rx_done" "cs_fault s = None"
    using run_failure by blast
  show ?thesis
    unfolding run_sample_append [OF s(1)]
    by (simp add: client_act_def act_main_def is_main_def register_enter_sample s)
qed

lemma register_writes_to_finished_stream_example:
  "\<exists>s n l s'. run_sample ((set_actions @ open_actions @ end_actions unavailable) @
      [Call_register sample_context default_rpc_args, Main_acquire]) = Some s \<and>
    phase_of n (cs_events s) = Some Finished \<and>
    client_act number_json pbr_basic_vt (Main_write False) s = Some s' \<and>
    cs_events s' = cs_events s @ [Ev_write n sample_request False, l, Ev_registered WRITES_FAILED]"
proof -
  obtain s where s: "run_sample ((set_actions @ open_actions @ end_actions unavailable) @
      [Call_register sample_context default_rpc_args, Main_acquire]) = Some s"
    "cs_fault s = None" "cs_main s = Reg_write sample_request" "cs_rx s = Rx_done"
    using run_again by blast
  show ?thesis
    using register_writes_to_finished_stream [OF run_sample_reachable [OF s(1)] s(2-4), of False] s(1)
    by auto
qed

lemma close_event:
  assumes "client_step japi vt s s'" "cs_events s' = cs_events s @ [Ev_closed code]"
  shows "cs_main s = Close_reset \<and> s' = close_reset s"
proof -
  obtain a where "client_act japi vt a s = Some s'" using assms(1) by (elim client_stepE)
  then show ?thesis
  proof (cases rule: client_act_cases)
    case main
    from main(3) show ?thesis
    proof (cases rule: act_main_cases)
      case (register x args)
      then show ?thesis
        using assms(2) by (auto simp: register_enter_def emit_def fail_with_def Let_def
            Cons_eq_map_conv split: option.splits gnmi_counters.splits prod.splits if_splits)
    next
      case (writing r b)
      then show ?thesis
        using assms(2) by (auto simp: register_write_def emit_def fail_with_def Let_def
            split: option.splits if_splits)
    qed (use assms(2) in \<open>auto simp: close_enter_def close_cancel_def close_joined_def
        register_open_def emit_def Let_def split: if_splits\<close>)
  next
    case rx
    from rx(3) show ?thesis
    proof (cases rule: act_rx_cases)
      case (response r)
      have "Ev_closed code \<notin> set es" if "cs_events s' = cs_events s @ es" for es
        using that response by (auto simp: rx_response_def emit_def fail_with_def Let_def
            split: option.splits gnmi_counters.splits prod.splits sum.splits if_splits)
      with assms(2) show ?thesis by fastforce
    qed (use assms(2) in \<open>auto simp: rx_ops Let_def split: option.splits if_splits\<close>)
  qed
qed

text \<open>
  C17: closing releases everything. When \<open>rpc_stream_close\<close> returns it returns success, no thread is
  joinable, the stream pointer is null, and every stream ever opened has been finished; in the
  destructor of the client, the destructor of its details then has nothing to join or to wait for.
\<close>

theorem close_releases_everything:
  assumes "client_reachable japi vt i s" "client_step japi vt s s'"
    and "cs_events s' = cs_events s @ [Ev_closed code]"
  shows "code = RPC_SUCCESS \<and> \<not> cs_joinable s' \<and> cs_rw s' = None \<and> cs_rx s' = Rx_none \<and>
    cs_mtx s' \<noteq> Some Receive_thread \<and> details_destructor s' = Some s' \<and>
    (\<forall>n < cs_streams s'. phase_of n (cs_events s') = Some Finished)"
proof -
  have s: "cs_main s = Close_reset" "s' = close_reset s"
    using close_event [OF assms(2,3)] by simp_all
  have reach: "client_reachable japi vt i s'"
    using assms(1,2) by (rule reach_step)
  have "\<not> cs_joinable s" "cs_rx s = Rx_none"
    using reachable_inv [OF assms(1)] s(1) by (auto simp: stream_inv_def)
  then show ?thesis
    using assms(3) reachable_inv [OF reach] reachable_phase [OF reach]
    by (auto simp: s(2) close_reset_def emit_def lock_inv_def stream_phase_of_def phase_at_def
        details_destructor_def)
qed

lemma run_closing: "\<exists>s. run_sample ((set_actions @ open_actions @ end_actions unavailable) @
      [Call_close, Main_acquire, Main_cancel, Main_join]) = Some s \<and>
    cs_fault s = None \<and> cs_main s = Close_reset"
proof -
  obtain s where s: "run_sample (set_actions @ open_actions @ end_actions unavailable) = Some s"
    "cs_interface s = sample_object" "cs_joinable s" "cs_mtx s = None" "cs_main s = Main_idle"
    "cs_rx s = Rx_done" "cs_fault s = None"
    using run_failure by blast
  show ?thesis
    unfolding run_sample_append [OF s(1)]
    by (simp add: client_act_def act_main_def is_main_def close_enter_def close_cancel_def
        close_joined_def emit_def Let_def s)
qed

theorem close_releases_everything_witness:
  "\<exists>s s'. run_sample ((set_actions @ open_actions @ end_actions unavailable) @
      [Call_close, Main_acquire, Main_cancel, Main_join]) = Some s \<and>
    client_step number_json pbr_basic_vt s s' \<and>
    cs_events s' = cs_events s @ [Ev_closed RPC_SUCCESS] \<and> cs_rw s' = None"
proof -
  obtain s where s: "run_sample ((set_actions @ open_actions @ end_actions unavailable) @
      [Call_close, Main_acquire, Main_cancel, Main_join]) = Some s"
    "cs_fault s = None" "cs_main s = Close_reset"
    using run_closing by blast
  have "client_act number_json pbr_basic_vt Main_reset s = Some (close_reset s)"
    using s by (simp add: client_act_def is_main_def act_main_def)
  then have step: "client_step number_json pbr_basic_vt s (close_reset s)"
    by (rule step_act)
  have events: "cs_events (close_reset s) = cs_events s @ [Ev_closed RPC_SUCCESS]"
    by (simp add: close_reset_def emit_def)
  show ?thesis
    using close_releases_everything [OF run_sample_reachable [OF s(1)] step events] s(1) step events
    by blast
qed

text \<open>
  C16: closing terminates once the stream has ended. While the calling thread waits to join and the
  last read has returned false, some step is possible, and every step either joins, ends the process
  through a handler, or brings the receive thread closer to its end; it takes at most four steps, so
  the join cannot deadlock on the mutex.
\<close>

theorem close_join_terminates:
  assumes "client_reachable japi vt i s" "cs_fault s = None"
    and "cs_main s = Close_join" "rx_phase (cs_rx s) \<noteq> Reading"
  shows "(\<exists>s'. client_step japi vt s s') \<and> rx_left (cs_rx s) \<le> 4 \<and>
    (\<forall>s'. client_step japi vt s s' \<longrightarrow>
       cs_main s' = Close_reset \<or> cs_fault s' \<noteq> None \<or>
       cs_main s' = Close_join \<and> rx_phase (cs_rx s') \<noteq> Reading \<and>
         rx_left (cs_rx s') < rx_left (cs_rx s))"
proof (intro conjI allI impI)
  note inv = reachable_inv [OF assms(1)]
  show "\<exists>s'. client_step japi vt s s'"
  proof (cases "cs_rx s = Rx_done")
    case True
    then have "client_act japi vt Main_join s = Some (close_joined s)"
      using assms(2,3) by (simp add: client_act_def is_main_def act_main_def)
    then show ?thesis by (blast intro: step_act)
  next
    case False
    have "cs_mtx s \<noteq> Some Main_thread" "cs_rx s \<noteq> Rx_none"
      using inv assms(3) by (auto simp: lock_inv_def stream_inv_def)
    with False assms(2) inv show ?thesis by (intro rx_step_enabled) simp_all
  qed
  show "rx_left (cs_rx s) \<le> 4" by (cases "cs_rx s") simp_all
qed (use join_step [OF assms(3,4)] reachable_inv [OF assms(1)] in blast)

lemma run_joining: "\<exists>s. run_sample (set_actions @ open_actions @
      [Call_close, Main_acquire, Main_cancel, Rx_receive None]) = Some s \<and>
    cs_fault s = None \<and> cs_main s = Close_join \<and> cs_rx s = Rx_lock"
  using run_sample_append [OF run_opening, of "[Call_close, Main_acquire, Main_cancel, Rx_receive None]"]
  by (simp add: run_simps close_enter_def close_cancel_def)

theorem close_join_terminates_witness:
  "\<exists>s. run_sample (set_actions @ open_actions @
      [Call_close, Main_acquire, Main_cancel, Rx_receive None]) = Some s \<and>
    (\<exists>s'. client_step number_json pbr_basic_vt s s')"
proof -
  obtain s where s: "run_sample (set_actions @ open_actions @
      [Call_close, Main_acquire, Main_cancel, Rx_receive None]) = Some s"
    "cs_fault s = None" "cs_main s = Close_join" "cs_rx s = Rx_lock"
    using run_joining by blast
  then have ended: "rx_phase (cs_rx s) \<noteq> Reading" by simp
  show ?thesis
    using close_join_terminates [OF run_sample_reachable [OF s(1)] s(2,3) ended] s(1) by blast
qed

end
