(* ===== verification/Stream_Tutorial.thy ===== *)
theory Stream_Tutorial
  imports Tutorial_Console Client_Stream
begin

text \<open>
  The example program \<^verbatim>\<open>examples/mgbl_api_pbr_stream_tutorial.cpp\<close>: two handlers that put what they
  learn into a queue, and a loop that registers, waits for the queue and decides whether to retry.
  The handlers are run over the history of \<open>Client_Stream\<close>; the loop is run over what it observes of
  the client and the queue, and its trace is the list of what it does. \<open>Stream_Tutorial_Run\<close> composes
  both with the client.
\<close>

section \<open>The handlers\<close>

record tutorial_queue =
  tq_count :: nat
  tq_deque :: "(bool \<times> grpc_status) list"
  tq_lines :: "string list"
  tq_logs :: "log_entry list"

definition number_of_responses :: nat where "number_of_responses = 10"
definition retry_stream :: nat where "retry_stream = 5"

text \<open>
  The success handler prints the last record and counts it; from the limit on, every further
  response queues the end of the stream. The argument \<open>tid\<close> is the printed thread id.
\<close>

definition tutorial_success :: "string \<Rightarrow> pbr_basic \<Rightarrow> tutorial_queue \<Rightarrow> tutorial_queue" where
  "tutorial_success tid iface q =
     (if pbr_stats iface \<noteq> []
      then (let q = q\<lparr>tq_lines := tq_lines q @
                       [''Here are the Pbr stats listed: SubscribeResponse '' @ tid] @
                       stat_lines (last (pbr_stats iface)),
                     tq_count := tq_count q + 1\<rparr>
            in if tq_count q \<ge> number_of_responses
               then q\<lparr>tq_logs := tq_logs q @
                        [(''Response limit reached. Let's stop the stream'', INFO)],
                      tq_deque := tq_deque q @ [(False, ok_status)]\<rparr>
               else q)
      else q)"

definition tutorial_failed :: "grpc_status \<Rightarrow> tutorial_queue \<Rightarrow> tutorial_queue" where
  "tutorial_failed status q =
     (let q = q\<lparr>tq_logs := tq_logs q @ [(''rpc_failed_handler: This rpc failed'', ERROR)]\<rparr> in
      if \<not> status_ok status then q\<lparr>tq_deque := tq_deque q @ [(True, status)]\<rparr> else q)"

section \<open>The loop\<close>

text \<open>
  In each attempt the program reads the clock, registers twice (the second result is not looked at),
  waits until the queue is not empty and takes an entry; \<open>None\<close> is a wait that never ends.
\<close>

record tutorial_env =
  te_now :: "nat \<Rightarrow> int"
  te_registered :: "nat \<Rightarrow> error_code"
  te_item :: "nat \<Rightarrow> (bool \<times> grpc_status) option"

datatype tutorial_action =
    Do_register client_context_args
  | Do_take "bool \<times> grpc_status"
  | Do_close
  | Do_sleep int
  | Do_log log_entry
  | Do_destroy_locals

datatype tutorial_next = Retry | Leave | Hang

definition stop_message :: "string \<Rightarrow> grpc_status \<Rightarrow> string" where
  "stop_message heading st =
     heading @ newline @
     ''Error Code: '' @ decimal (status_code st) @ '' '' @ newline @
     ''Error message: '' @ status_message st @ '' '' @ newline"

definition tutorial_item :: "bool \<times> grpc_status \<Rightarrow> tutorial_action list \<times> tutorial_next" where
  "tutorial_item item =
     (let st = snd item in
      if fst item
      then (if status_code st = deadline_exceeded
            then ([Do_log (stop_message ''Stream stopped due to deadline exceeded'' st, ERROR), Do_close],
                  Leave)
            else if status_code st = unavailable_code
            then ([Do_log (stop_message ''Stream retry due to Unavailable error'' st, ERROR), Do_close,
                   Do_sleep (seconds 5)], Retry)
            else if status_code st = unauthenticated
            then ([Do_log (stop_message ''Stream stopped due to Unauthentication error'' st, ERROR),
                   Do_close], Retry)
            else ([Do_log (''Stream stopped for other reason. Let's quit this'', ERROR), Do_close],
                  Leave))
      else ([], Leave))"

definition tutorial_context :: "int \<Rightarrow> client_context_args" where
  "tutorial_context now =
     \<lparr>username = ''username'', password = ''password'', set_deadline = True,
      deadline = now + seconds 10\<rparr>"

definition tutorial_attempt ::
  "tutorial_env \<Rightarrow> nat \<Rightarrow> tutorial_action list \<times> tutorial_next" where
  "tutorial_attempt env n =
     (let context_args = tutorial_context (te_now env n) in
      if te_registered env n \<noteq> CLIENT_TYPE_FAILURE
      then (let begun = [Do_register context_args, Do_register context_args] in
            case te_item env n of
              None \<Rightarrow> (begun, Hang)
            | Some item \<Rightarrow>
                (let (as, nxt) = tutorial_item item in (begun @ [Do_take item] @ as, nxt)))
      else ([Do_register context_args, Do_log (''Error: Using unsupported client type'', ERROR),
             Do_close], Leave))"

function tutorial_loop ::
  "tutorial_env \<Rightarrow> nat \<Rightarrow> tutorial_action list list \<times> tutorial_next" where
  "tutorial_loop env count_retry =
     (if count_retry < retry_stream
      then (let (as, nxt) = tutorial_attempt env count_retry in
            if nxt = Retry
            then (let (ass, out) = tutorial_loop env (count_retry + 1) in (as # ass, out))
            else ([as], nxt))
      else ([], Leave))"
  by pat_completeness auto
termination
  by (relation "measure (\<lambda>(env, count_retry). retry_stream - count_retry)") auto

declare tutorial_loop.simps [simp del]

text \<open>
  The locals the handlers refer to are declared after the client, so they are destroyed before its
  destructor closes the stream.
\<close>

definition tutorial_trace :: "tutorial_env \<Rightarrow> tutorial_action list" where
  "tutorial_trace env =
     (let (ass, out) = tutorial_loop env 0 in
      concat ass @ (if out = Hang then [] else [Do_destroy_locals, Do_close]))"

definition stream_rpc_args :: rpc_args where
  "stream_rpc_args = default_rpc_args
     \<lparr>sample_interval_nsec := sample_interval_nsec default_rpc_args * 2\<rparr>"

definition stream_counters :: pbr_basic where
  "stream_counters =
     \<lparr>pbr_keys = [\<lparr>key_policy = ''p1'', key_rule = ''r3_p1''\<rparr>, \<lparr>key_policy = ''p1'', key_rule = ''r2_p1''\<rparr>],
      pbr_stats = []\<rparr>"

definition stream_channel_args :: rpc_channel_args where
  "stream_channel_args =
     \<lparr>server_address = ''111.111.111.111:11111'', ssl_tls = False, pem_roots_certs_path = '''',
      pem_private_key_path = '''', pem_cert_chain_path = ''''\<rparr>"

definition stream_tutorial ::
  "(string \<rightharpoonup> string) \<Rightarrow> (string \<times> channel_credentials \<Rightarrow> 'h) \<Rightarrow> 'h channel_api \<Rightarrow> tutorial_env \<Rightarrow>
     (log_entry list \<times> tutorial_action list) result" where
  "stream_tutorial files create_channel capi env =
     (case gnmi_client_connection files stream_channel_args of
        (l0, Inl e) \<Rightarrow> Inl e
      | (l0, Inr conn) \<Rightarrow>
          (let (logs, connected, _) =
                 wait_for_grpc_server_connection capi 5 10 (create_channel (get_channel conn))
           in Inr (if connected then (l0 @ logs, tutorial_trace env)
                   else (l0 @ logs @ [(''Initial connection attempts failed'', ERROR)], []))))"

lemma stream_tutorial_connects:
  "stream_tutorial files create_channel capi env =
     (let (logs, connected, _) = wait_for_grpc_server_connection capi 5 10
            (create_channel (''111.111.111.111:11111'', InsecureChannelCredentials))
      in Inr (if connected then (logs, tutorial_trace env)
              else (logs @ [(''Initial connection attempts failed'', ERROR)], [])))"
  by (simp add: stream_tutorial_def gnmi_client_connection_def stream_channel_args_def get_channel_def Let_def split: prod.split)

section \<open>The loop closes before it retries\<close>

text \<open>Whether a stream may be open, by the registrations and closings of a trace.\<close>

fun may_be_open :: "tutorial_action \<Rightarrow> bool \<Rightarrow> bool" where
  "may_be_open (Do_register _) b = True"
| "may_be_open Do_close b = False"
| "may_be_open _ b = b"

definition open_after :: "tutorial_action list \<Rightarrow> bool" where
  "open_after as = fold may_be_open as False"

lemma open_after_append: "open_after (as @ bs) = fold may_be_open bs (open_after as)"
  by (simp add: open_after_def)

lemma tutorial_attempt_shape:
  assumes "tutorial_attempt env n = (as, nxt)"
  shows "(nxt \<noteq> Hang \<longrightarrow>
      (if te_registered env n \<noteq> CLIENT_TYPE_FAILURE \<and> (\<exists>st. te_item env n = Some (False, st))
       then as = [Do_register (tutorial_context (te_now env n)),
                  Do_register (tutorial_context (te_now env n)), Do_take (the (te_item env n))] \<and> nxt = Leave
       else \<not> fold may_be_open as b)) \<and>
    (\<exists>rest. as = Do_register (tutorial_context (te_now env n)) # rest) \<and>
    length (filter (\<lambda>a. case a of Do_take item \<Rightarrow> True | _ \<Rightarrow> False) as) \<le> 1"
  using assms
  by (cases "te_item env n")
    (auto simp: tutorial_attempt_def tutorial_item_def Let_def split: if_splits prod.splits)

definition limit_reached :: "tutorial_env \<Rightarrow> nat \<Rightarrow> bool" where
  "limit_reached env n \<longleftrightarrow>
     te_registered env n \<noteq> CLIENT_TYPE_FAILURE \<and> (\<exists>st. te_item env n = Some (False, st))"

lemma tutorial_attempt_open:
  assumes "tutorial_attempt env n = (as, nxt)" "nxt \<noteq> Hang"
  shows "fold may_be_open as b \<longleftrightarrow> limit_reached env n"
proof (cases "limit_reached env n")
  case True
  then show ?thesis
    using tutorial_attempt_shape [OF assms(1)] assms(2) by (simp add: limit_reached_def)
next
  case False
  then show ?thesis
    using tutorial_attempt_shape [OF assms(1)] assms(2) unfolding limit_reached_def by meson
qed

lemma tutorial_attempt_retry: "tutorial_attempt env n = (as, Retry) \<Longrightarrow> \<not> limit_reached env n"
  by (auto simp: tutorial_attempt_def tutorial_item_def limit_reached_def Let_def split: prod.splits)

lemma tutorial_loop_runs:
  assumes "tutorial_loop env n = (ass, out)" "n < retry_stream"
  shows "ass \<noteq> [] \<and> length ass \<le> retry_stream - n \<and> out \<noteq> Retry \<and>
    (\<forall>as \<in> set (butlast ass). \<forall>b. \<not> fold may_be_open as b) \<and>
    (out \<noteq> Hang \<longrightarrow> (\<forall>b. fold may_be_open (concat ass) b \<longleftrightarrow> limit_reached env (n + length ass - 1)))"
  using assms
proof (induction "retry_stream - n" arbitrary: n ass)
  case (Suc k)
  obtain as nxt where attempt: "tutorial_attempt env n = (as, nxt)" by fastforce
  show ?case
  proof (cases "nxt = Retry")
    case False
    then show ?thesis
      using Suc.prems attempt tutorial_attempt_open [OF attempt]
      by (auto simp: tutorial_loop.simps [of env n])
  next
    case True
    then obtain ass' where loop: "tutorial_loop env (n + 1) = (ass', out)" "ass = as # ass'"
      using Suc.prems attempt by (auto simp: tutorial_loop.simps [of env n] split: prod.splits)
    have closed: "\<not> fold may_be_open as b" for b
      using tutorial_attempt_open [OF attempt, of b] tutorial_attempt_retry attempt True by simp
    show ?thesis
    proof (cases "n + 1 < retry_stream")
      case True
      have "k = retry_stream - (n + 1)" using Suc.hyps(2) by simp
      note rest = Suc.hyps(1) [OF this loop(1) True]
      then have "Suc (length ass') \<le> retry_stream - n" using True by linarith
      with rest show ?thesis using loop(2) closed by simp
    next
      case False
      then have "ass' = [] \<and> out = Leave"
        using loop(1) by (simp add: tutorial_loop.simps [of env "Suc n"])
      then show ?thesis
        using loop(2) closed Suc.prems(2) tutorial_attempt_retry attempt \<open>nxt = Retry\<close> by simp
    qed
  qed
qed simp

lemma tutorial_trace_ends:
  assumes "tutorial_loop env 0 = (ass, out)" "out \<noteq> Hang"
  shows "tutorial_trace env = concat ass @ [Do_destroy_locals, Do_close]"
  using assms by (simp add: tutorial_trace_def)

text \<open>
  The retries of the stream tutorial are bounded and each starts from a closed stream. The loop
  makes at most five attempts whatever the library returns, and every attempt that is followed by
  another one has closed the stream after it last registered.
\<close>

lemma stream_tutorial_closes_before_retry:
  assumes "tutorial_loop env 0 = (ass, out)"
  shows "ass \<noteq> [] \<and> length ass \<le> 5 \<and> (\<forall>as \<in> set (butlast ass). \<not> open_after as)"
  using tutorial_loop_runs [OF assms] by (simp add: retry_stream_def open_after_def)

definition unavailable_env :: tutorial_env where
  "unavailable_env =
     \<lparr>te_now = (\<lambda>n. int n), te_registered = (\<lambda>_. RPC_SUCCESS),
      te_item = (\<lambda>n. Some (True, \<lparr>status_code = 14, status_message = ''''\<rparr>))\<rparr>"

lemma stream_tutorial_closes_before_retry_example:
  "length (fst (tutorial_loop unavailable_env 0)) \<le> 5 \<and> fst (tutorial_loop unavailable_env 0) \<noteq> []"
  using stream_tutorial_closes_before_retry [of unavailable_env] by (metis prod.collapse)

text \<open>
  The stream tutorial leaves with the stream open exactly when the response limit was reached. Its
  trace then ends by destroying the locals that the handlers use and closing only after that, so the
  receive thread can still run the handlers in between; on every other way out the stream is closed
  first.
\<close>

lemma stream_tutorial_leaves_stream_open_iff:
  assumes "tutorial_loop env 0 = (ass, out)" "out \<noteq> Hang"
  shows "\<exists>before. tutorial_trace env = before @ [Do_destroy_locals, Do_close] \<and>
    (open_after before \<longleftrightarrow> limit_reached env (length ass - 1))"
  using tutorial_trace_ends [OF assms] tutorial_loop_runs [OF assms(1)] assms(2)
  by (simp add: retry_stream_def open_after_def)

definition limit_env :: tutorial_env where
  "limit_env = unavailable_env\<lparr>te_item := (\<lambda>_. Some (False, ok_status))\<rparr>"

lemma stream_tutorial_leaves_stream_open_iff_example:
  "\<exists>before. tutorial_trace limit_env = before @ [Do_destroy_locals, Do_close] \<and> open_after before"
proof -
  have loop: "tutorial_loop limit_env 0 =
      ([[Do_register (tutorial_context 0), Do_register (tutorial_context 0),
        Do_take (False, ok_status)]], Leave)"
    by (subst tutorial_loop.simps) (simp add: tutorial_attempt_def tutorial_item_def
        limit_env_def unavailable_env_def retry_stream_def Let_def)
  have "limit_reached limit_env 0"
    by (simp add: limit_reached_def limit_env_def unavailable_env_def)
  then show ?thesis
    using stream_tutorial_leaves_stream_open_iff [OF loop] by simp
qed

section \<open>A stream that ends quietly\<close>

text \<open>
  The handlers over a history; \<open>iface k\<close> is the counter object at the call number \<open>k\<close> of the success
  handler.
\<close>

fun run_handlers ::
  "string \<Rightarrow> (nat \<Rightarrow> pbr_basic) \<Rightarrow> client_event list \<Rightarrow> nat \<Rightarrow> tutorial_queue \<Rightarrow> tutorial_queue" where
  "run_handlers tid iface [] k q = q"
| "run_handlers tid iface (e # es) k q =
     (case e of
        Ev_success_handler \<Rightarrow> run_handlers tid iface es (k + 1) (tutorial_success tid (iface k) q)
      | Ev_failed_handler st \<Rightarrow> run_handlers tid iface es k (tutorial_failed st q)
      | _ \<Rightarrow> run_handlers tid iface es k q)"

definition empty_queue :: tutorial_queue where
  "empty_queue = \<lparr>tq_count = 0, tq_deque = [], tq_lines = [], tq_logs = []\<rparr>"

lemma tutorial_success_below:
  assumes "tq_count q + 1 < number_of_responses"
  shows "tq_deque (tutorial_success tid c q) = tq_deque q"
    and "tq_count (tutorial_success tid c q) \<le> tq_count q + 1"
  using assms by (simp_all add: tutorial_success_def Let_def)

lemma run_handlers_quiet:
  assumes "tq_count q + success_calls es < number_of_responses" "failed_calls es = []"
  shows "tq_deque (run_handlers tid iface es k q) = tq_deque q"
  using assms
proof (induction es arbitrary: k q)
  case (Cons e es)
  show ?case
  proof (cases "e = Ev_success_handler")
    case True
    with Cons.prems have "tq_count q + 1 < number_of_responses"
      and left: "tq_count q + 1 + success_calls es < number_of_responses"
      by simp_all
    note step = tutorial_success_below [OF this(1), of tid "iface k"]
    with left have "tq_count (tutorial_success tid (iface k) q) + success_calls es < number_of_responses"
      by linarith
    with True Cons step show ?thesis by simp
  next
    case False
    with Cons show ?thesis by (simp split: client_event.splits)
  qed
qed simp

text \<open>
  The stream tutorial waits for ever on a stream that ends quietly. When the server ends the stream
  with OK or CANCELLED before the response limit is reached, neither handler has queued anything, and
  the receive thread has no further step, so nothing ever wakes the program that waits for the queue.
\<close>

lemma stream_tutorial_hangs_on_quiet_end:
  assumes "client_reachable japi vt i s" "cs_fault s = None" "cs_rx s = Rx_done"
    and "failures (cs_events s) = []" "success_calls (cs_events s) < number_of_responses"
  shows "tq_deque (run_handlers tid iface (cs_events s) 0 empty_queue) = [] \<and>
    (\<forall>a. \<not> is_main a \<longrightarrow> client_act japi vt a s = None)"
proof -
  have "failed_calls (cs_events s) = []"
    using reachable_reported [OF assms(1)] assms(2-4) by (simp add: reported_inv_def)
  then have "tq_deque (run_handlers tid iface (cs_events s) 0 empty_queue) = tq_deque empty_queue"
    using assms(5) by (intro run_handlers_quiet) (simp_all add: empty_queue_def)
  moreover have "client_act japi vt a s = None" if "\<not> is_main a" for a
    using that assms(3) by (auto simp: client_act_def act_rx_def split: client_action.splits)
  ultimately show ?thesis by (simp add: empty_queue_def)
qed

lemma run_quiet: "\<exists>s. run_sample (set_actions @ open_actions @ end_actions ok_status) = Some s \<and>
    cs_rx s = Rx_done \<and> cs_fault s = None \<and> failures (cs_events s) = [] \<and>
    success_calls (cs_events s) = 0"
  using run_sample_append [OF run_opening, of "end_actions ok_status"]
  by (simp add: end_actions_def run_simps scripted_status failing_def)

lemma stream_tutorial_hangs_on_quiet_end_example:
  "\<exists>s. run_sample (set_actions @ open_actions @ end_actions ok_status) = Some s \<and>
     tq_deque (run_handlers ''1'' (\<lambda>_. sample_counters) (cs_events s) 0 empty_queue) = [] \<and>
     client_act number_json pbr_basic_vt (Rx_receive None) s = None"
proof -
  obtain s where s: "run_sample (set_actions @ open_actions @ end_actions ok_status) = Some s"
    "cs_rx s = Rx_done" "cs_fault s = None" "failures (cs_events s) = []"
    "success_calls (cs_events s) = 0"
    using run_quiet by blast
  then have "success_calls (cs_events s) < number_of_responses"
    by (simp add: number_of_responses_def)
  from stream_tutorial_hangs_on_quiet_end [OF run_sample_reachable [OF s(1)] s(3,2,4) this]
  have "tq_deque (run_handlers ''1'' (\<lambda>_. sample_counters) (cs_events s) 0 empty_queue) = []"
    "client_act number_json pbr_basic_vt (Rx_receive None) s = None"
    by (auto simp: is_main_def)
  with s(1) show ?thesis by blast
qed

end
