(* ===== verification/Client_Program.thy ===== *)
theory Client_Program
  imports Client_Stream
begin

text \<open>
  Programs that drive a streaming client. A program is a pair of handlers, which work on the local
  variables they captured by reference, and the commands of the main thread at its program points.
  The program is composed with the client of \<open>Client_Stream\<close>: while a call runs, its steps are those of
  the calling thread; the receive thread interleaves with everything, and its calls of the handlers
  are delivered to the locals. A handler that runs after its locals were destroyed is undefined
  behaviour.
\<close>

section \<open>Programs\<close>

text \<open>
  \<open>Close\<close> is \<^verbatim>\<open>rpc_stream_close\<close>, also where the destructor of the client runs it (\<open>client_destructor\<close>);
  \<open>Local\<close> gets a reading of the clock; \<open>Wait\<close> is \<^verbatim>\<open>condition_variable::wait\<close> with a predicate;
  \<open>Destroy_locals\<close> is the end of the scope of the captured variables.
\<close>

datatype ('q, 'p) command =
    Register "'q \<Rightarrow> client_context_args \<times> rpc_args" "error_code \<Rightarrow> 'p"
  | Close 'p
  | Local "int \<Rightarrow> 'q \<Rightarrow> 'q \<times> 'p"
  | Wait "'q \<Rightarrow> bool" "'q \<Rightarrow> 'q \<times> 'p"
  | Destroy_locals 'p
  | Halt

record ('c, 'q, 'p) stream_program =
  pg_success :: "'c \<Rightarrow> 'q \<Rightarrow> 'q"
  pg_failed :: "grpc_status \<Rightarrow> 'q \<Rightarrow> 'q"
  pg_command :: "'p \<Rightarrow> ('q, 'p) command"

text \<open>The call the main thread is in, with the point it returns to.\<close>

datatype 'p pending_call =
    In_register "error_code \<Rightarrow> 'p"
  | In_close 'p

record ('c, 'q, 'p) program_state =
  ps_client :: "'c client_state"
  ps_locals :: 'q
  ps_pc :: 'p
  ps_call :: "'p pending_call option"
  ps_alive :: bool
  ps_fault :: "fault option"

text \<open>Both handlers have been set, as every program does before its first call.\<close>

definition program_client :: "'c gnmi_counters option \<Rightarrow> 'c client_state" where
  "program_client i = set_rpc_failed_handler True (set_rpc_success_handler True (client_initial i))"

definition program_initial ::
  "'c gnmi_counters option \<Rightarrow> 'q \<Rightarrow> 'p \<Rightarrow> ('c, 'q, 'p) program_state" where
  "program_initial i q p =
     \<lparr>ps_client = program_client i, ps_locals = q, ps_pc = p, ps_call = None, ps_alive = True,
      ps_fault = None\<rparr>"

section \<open>Steps\<close>

definition dangling_locals :: fault where
  "dangling_locals = Undefined_behaviour ''a handler uses destroyed locals''"

definition run_handler ::
  "('c, 'q, 'p) stream_program \<Rightarrow> ('q \<Rightarrow> 'q) \<Rightarrow> ('c, 'q, 'p) program_state \<Rightarrow>
     ('c, 'q, 'p) program_state" where
  "run_handler prog h st =
     (if ps_alive st then st\<lparr>ps_locals := h (ps_locals st)\<rparr> else st\<lparr>ps_fault := Some dangling_locals\<rparr>)"

definition deliver ::
  "('c, 'q, 'p) stream_program \<Rightarrow> client_event \<Rightarrow> ('c, 'q, 'p) program_state \<Rightarrow>
     ('c, 'q, 'p) program_state" where
  "deliver prog e st =
     (case e of
        Ev_success_handler \<Rightarrow>
          (case counters_of (ps_client st) of
             Some c \<Rightarrow> run_handler prog (pg_success prog c) st | None \<Rightarrow> st)
      | Ev_failed_handler status \<Rightarrow> run_handler prog (pg_failed prog status) st
      | _ \<Rightarrow> st)"

text \<open>The events a step of the client has added to its history.\<close>

definition new_events :: "'c client_state \<Rightarrow> 'c client_state \<Rightarrow> client_event list" where
  "new_events s s' = drop (length (cs_events s)) (cs_events s')"

text \<open>The actions that are the program's own: it begins calls only by its commands.\<close>

definition inner_action :: "client_action \<Rightarrow> bool" where
  "inner_action a \<longleftrightarrow>
     (case a of Set_success_handler _ \<Rightarrow> False | Set_failed_handler _ \<Rightarrow> False
      | Call_register _ _ \<Rightarrow> False | Call_close \<Rightarrow> False | _ \<Rightarrow> True)"

definition registered_code :: "client_event list \<Rightarrow> error_code" where
  "registered_code es =
     last (List.map_filter (\<lambda>e. case e of Ev_registered code \<Rightarrow> Some code | _ \<Rightarrow> None) es)"

text \<open>A step of the program: of the client it runs, of its own code, or the return of a call.\<close>

datatype program_action =
    Do_client client_action
  | Do_command int
  | Do_return

definition client_part ::
  "'j json_api \<Rightarrow> ('c, 's) pbr_vtable \<Rightarrow> ('c, 'q, 'p) stream_program \<Rightarrow> client_action \<Rightarrow>
     ('c, 'q, 'p) program_state \<Rightarrow> ('c, 'q, 'p) program_state option" where
  "client_part japi vt prog a st =
     (case client_act japi vt a (ps_client st) of
        None \<Rightarrow> None
      | Some s' \<Rightarrow> Some (fold (deliver prog) (new_events (ps_client st) s') (st\<lparr>ps_client := s'\<rparr>)))"

definition program_command ::
  "'j json_api \<Rightarrow> ('c, 's) pbr_vtable \<Rightarrow> ('c, 'q, 'p) stream_program \<Rightarrow> int \<Rightarrow>
     ('c, 'q, 'p) program_state \<Rightarrow> ('c, 'q, 'p) program_state option" where
  "program_command japi vt prog now st =
     (case pg_command prog (ps_pc st) of
        Register f k \<Rightarrow>
          (let (x, args) = f (ps_locals st) in
           client_part japi vt prog (Call_register x args) (st\<lparr>ps_call := Some (In_register k)\<rparr>))
      | Close p \<Rightarrow> client_part japi vt prog Call_close (st\<lparr>ps_call := Some (In_close p)\<rparr>)
      | Local f \<Rightarrow> (let (q, p) = f now (ps_locals st) in Some (st\<lparr>ps_locals := q, ps_pc := p\<rparr>))
      | Wait c f \<Rightarrow>
          if c (ps_locals st)
          then (let (q, p) = f (ps_locals st) in Some (st\<lparr>ps_locals := q, ps_pc := p\<rparr>))
          else None
      | Destroy_locals p \<Rightarrow> Some (st\<lparr>ps_alive := False, ps_pc := p\<rparr>)
      | Halt \<Rightarrow> None)"

definition program_return :: "('c, 'q, 'p) program_state \<Rightarrow> ('c, 'q, 'p) program_state option" where
  "program_return st =
     (if cs_main (ps_client st) = Main_idle
      then (case ps_call st of
              None \<Rightarrow> None
            | Some (In_register k) \<Rightarrow>
                Some (st\<lparr>ps_call := None, ps_pc := k (registered_code (cs_events (ps_client st)))\<rparr>)
            | Some (In_close p) \<Rightarrow> Some (st\<lparr>ps_call := None, ps_pc := p\<rparr>))
      else None)"

definition program_act ::
  "'j json_api \<Rightarrow> ('c, 's) pbr_vtable \<Rightarrow> ('c, 'q, 'p) stream_program \<Rightarrow> program_action \<Rightarrow>
     ('c, 'q, 'p) program_state \<Rightarrow> ('c, 'q, 'p) program_state option" where
  "program_act japi vt prog a st =
     (if ps_fault st \<noteq> None \<or> cs_fault (ps_client st) \<noteq> None then None
      else (case a of
              Do_client b \<Rightarrow> if inner_action b then client_part japi vt prog b st else None
            | Do_command now \<Rightarrow> if ps_call st = None then program_command japi vt prog now st else None
            | Do_return \<Rightarrow> program_return st))"

fun program_run ::
  "'j json_api \<Rightarrow> ('c, 's) pbr_vtable \<Rightarrow> ('c, 'q, 'p) stream_program \<Rightarrow> program_action list \<Rightarrow>
     ('c, 'q, 'p) program_state \<Rightarrow> ('c, 'q, 'p) program_state option" where
  "program_run japi vt prog [] st = Some st"
| "program_run japi vt prog (a # as) st =
     (case program_act japi vt prog a st of
        None \<Rightarrow> None | Some st' \<Rightarrow> program_run japi vt prog as st')"

inductive program_reachable ::
  "'j json_api \<Rightarrow> ('c, 's) pbr_vtable \<Rightarrow> ('c, 'q, 'p) stream_program \<Rightarrow> 'c gnmi_counters option \<Rightarrow>
     'q \<Rightarrow> 'p \<Rightarrow> ('c, 'q, 'p) program_state \<Rightarrow> bool"
  for japi vt prog i q p where
  program_starts: "program_reachable japi vt prog i q p (program_initial i q p)"
| program_steps: "program_reachable japi vt prog i q p st \<Longrightarrow>
    program_act japi vt prog a st = Some st' \<Longrightarrow> program_reachable japi vt prog i q p st'"

lemma program_run_reachable:
  "program_reachable japi vt prog i q p st \<Longrightarrow> program_run japi vt prog as st = Some st' \<Longrightarrow>
     program_reachable japi vt prog i q p st'"
  by (induction as arbitrary: st) (auto split: option.splits, blast intro: program_steps)

lemma program_run_initial:
  "program_run japi vt prog as (program_initial i q p) = Some st \<Longrightarrow>
     program_reachable japi vt prog i q p st"
  by (rule program_run_reachable [OF program_starts])

lemma program_run_append: "program_run japi vt prog (as @ bs) st =
    (case program_run japi vt prog as st of None \<Rightarrow> None | Some st' \<Rightarrow> program_run japi vt prog bs st')"
  by (induction as arbitrary: st) (auto split: option.splits)

section \<open>What a step changes\<close>

lemma run_handler_keeps [simp]:
  "ps_client (run_handler prog h st) = ps_client st"
  "ps_pc (run_handler prog h st) = ps_pc st"
  "ps_call (run_handler prog h st) = ps_call st"
  "ps_alive (run_handler prog h st) = ps_alive st"
  by (simp_all add: run_handler_def)

lemma deliver_keeps [simp]:
  "ps_client (deliver prog e st) = ps_client st"
  "ps_pc (deliver prog e st) = ps_pc st"
  "ps_call (deliver prog e st) = ps_call st"
  "ps_alive (deliver prog e st) = ps_alive st"
  by (simp_all add: deliver_def split: client_event.split option.split)

lemma deliver_all_keeps [simp]:
  "ps_client (fold (deliver prog) es st) = ps_client st"
  "ps_pc (fold (deliver prog) es st) = ps_pc st"
  "ps_call (fold (deliver prog) es st) = ps_call st"
  "ps_alive (fold (deliver prog) es st) = ps_alive st"
  by (induction es arbitrary: st) simp_all

definition handler_event :: "client_event \<Rightarrow> bool" where
  "handler_event e \<longleftrightarrow>
     (case e of Ev_success_handler \<Rightarrow> True | Ev_failed_handler _ \<Rightarrow> True | _ \<Rightarrow> False)"

lemma handler_event_simps [simp]:
  "handler_event Ev_success_handler" "handler_event (Ev_failed_handler status)"
  "\<not> handler_event (Ev_log l)" "\<not> handler_event (Ev_subscribe n x)" "\<not> handler_event (Ev_write n r b)"
  "\<not> handler_event Ev_cancel" "\<not> handler_event (Ev_read n a)" "\<not> handler_event (Ev_writes_done n b)"
  "\<not> handler_event (Ev_finish n status)" "\<not> handler_event (Ev_registered code)"
  "\<not> handler_event (Ev_closed code)"
  by (simp_all add: handler_event_def)

lemma deliver_quiet: "\<not> handler_event e \<Longrightarrow> deliver prog e st = st"
  by (cases e) (simp_all add: deliver_def)

lemma deliver_all_quiet: "\<forall>e \<in> set es. \<not> handler_event e \<Longrightarrow> fold (deliver prog) es st = st"
  by (induction es arbitrary: st) (simp_all add: deliver_quiet)

text \<open>Only the receive thread calls handlers.\<close>

lemma emit_adds: "cs_events (emit es s) = cs_events s @ es"
  by (simp add: emit_def)

lemma register_enter_events:
  "\<exists>ls. cs_events (register_enter vt x args s) = cs_events s @ map Ev_log ls \<or>
     cs_events (register_enter vt x args s) = cs_events s @ map Ev_log ls @ [Ev_registered CLIENT_TYPE_FAILURE]"
proof -
  have "cs_events s = cs_events s @ map Ev_log []" by simp
  moreover have "[Ev_log l, e] = map Ev_log [l] @ [e]" for l e by simp
  ultimately show ?thesis
    unfolding register_enter_def emit_def fail_with_def
    by (auto simp: Let_def simp del: list.map append_Nil2 append_Cons
        split: option.splits gnmi_counters.splits prod.splits)
qed

lemma act_main_events:
  assumes "act_main vt a s = Some s'"
  shows "\<exists>es. cs_events s' = cs_events s @ es \<and> (\<forall>e \<in> set es. \<not> handler_event e)"
  using assms
proof (cases rule: act_main_cases)
  case (register x args)
  obtain ls where "cs_events s' = cs_events s @ map Ev_log ls \<or>
      cs_events s' = cs_events s @ map Ev_log ls @ [Ev_registered CLIENT_TYPE_FAILURE]"
    unfolding register(3) using register_enter_events by blast
  then show ?thesis by auto
next
  case (writing r b)
  then show ?thesis by (auto simp: register_write_def emit_def fail_with_def Let_def split: option.splits)
qed (auto simp: register_open_def close_enter_def close_cancel_def close_joined_def close_reset_def
    emit_def Let_def)

lemma rx_response_events: "\<exists>es. cs_events (rx_response japi vt r s) = cs_events s @ es"
  by (auto simp: rx_response_def emit_def fail_with_def Let_def
      split: option.splits prod.splits sum.splits gnmi_counters.splits)

lemma act_rx_events:
  assumes "act_rx japi vt a s = Some s'"
  shows "\<exists>es. cs_events s' = cs_events s @ es"
  using assms
proof (cases rule: act_rx_cases)
  case (response r)
  then show ?thesis using rx_response_events by simp
qed (auto simp: rx_read_def rx_writes_done_def rx_finish_def rx_status_def emit_def fail_with_def Let_def
    split: option.splits)

lemma client_act_events:
  assumes "client_act japi vt a s = Some s'"
  shows "cs_events s' = cs_events s @ new_events s s'"
    and "is_main a \<Longrightarrow> e \<in> set (new_events s s') \<Longrightarrow> \<not> handler_event e"
proof -
  obtain es where "cs_events s' = cs_events s @ es" "is_main a \<longrightarrow> (\<forall>e \<in> set es. \<not> handler_event e)"
    using assms act_main_events [of vt a s s'] act_rx_events [of japi vt a s s']
    by (elim client_act_cases) blast+
  then show "cs_events s' = cs_events s @ new_events s s'"
    and "is_main a \<Longrightarrow> e \<in> set (new_events s s') \<Longrightarrow> \<not> handler_event e"
    by (simp_all add: new_events_def)
qed

lemma client_part_main:
  assumes "client_part japi vt prog a st = Some st'" "is_main a"
  shows "\<exists>s'. client_act japi vt a (ps_client st) = Some s' \<and> st' = st\<lparr>ps_client := s'\<rparr>"
proof -
  obtain s' where s': "client_act japi vt a (ps_client st) = Some s'"
    "st' = fold (deliver prog) (new_events (ps_client st) s') (st\<lparr>ps_client := s'\<rparr>)"
    using assms(1) by (auto simp: client_part_def split: option.splits)
  have "fold (deliver prog) (new_events (ps_client st) s') (st\<lparr>ps_client := s'\<rparr>) = st\<lparr>ps_client := s'\<rparr>"
    using client_act_events(2) [OF s'(1) assms(2)] by (simp add: deliver_all_quiet)
  with s' show ?thesis by simp
qed

text \<open>The client of a program is a client: what holds of its reachable states holds here.\<close>

lemma program_client_reachable:
  assumes "program_reachable japi vt prog i q p st"
  shows "client_reachable japi vt i (ps_client st)"
  using assms
proof (induction rule: program_reachable.induct)
  case program_starts
  have "client_run japi vt [Set_success_handler True, Set_failed_handler True] (client_initial i) =
      Some (program_client i)"
    by (simp add: program_client_def client_act_def act_main_def is_main_def client_initial_def)
  then show ?case
    using client_run_initial by (fastforce simp: program_initial_def)
next
  case (program_steps st a st')
  have "ps_client st' = ps_client st \<or>
      (\<exists>b. client_act japi vt b (ps_client st) = Some (ps_client st'))"
    using program_steps.hyps(2)
    by (auto simp: program_act_def program_command_def program_return_def client_part_def Let_def
        split: if_splits program_action.splits command.splits option.splits prod.splits
          pending_call.splits)
  then show ?case
    using program_steps.IH by (auto intro: reach_step step_act)
qed

lemma program_invariant [consumes 1, case_names initial client command return]:
  assumes "program_reachable japi vt prog i q p st" "P (program_initial i q p)"
    and "\<And>a st st'. program_reachable japi vt prog i q p st \<Longrightarrow> P st \<Longrightarrow> ps_fault st = None \<Longrightarrow>
      inner_action a \<Longrightarrow> client_part japi vt prog a st = Some st' \<Longrightarrow> P st'"
    and "\<And>now st st'. program_reachable japi vt prog i q p st \<Longrightarrow> P st \<Longrightarrow> ps_fault st = None \<Longrightarrow>
      ps_call st = None \<Longrightarrow> program_command japi vt prog now st = Some st' \<Longrightarrow> P st'"
    and "\<And>st st'. program_reachable japi vt prog i q p st \<Longrightarrow> P st \<Longrightarrow> ps_fault st = None \<Longrightarrow>
      cs_fault (ps_client st) = None \<Longrightarrow> program_return st = Some st' \<Longrightarrow> P st'"
  shows "P st"
  using assms(1)
proof (induction rule: program_reachable.induct)
  case program_starts
  show ?case by (rule assms(2))
next
  case (program_steps st a st')
  then show ?case
    using assms(3-5) [OF program_steps.hyps(1) program_steps.IH]
    by (cases a) (auto simp: program_act_def split: if_splits)
qed

text \<open>Only a step of the receive thread calls a handler, and it calls one at most.\<close>

lemma act_rx_calls:
  assumes "act_rx japi vt a s = Some s'"
  shows "\<exists>ls h. cs_events s' = cs_events s @ ls @ h \<and> (\<forall>e \<in> set ls. \<not> handler_event e) \<and>
    (h = [] \<or> h = [Ev_success_handler] \<or> (\<exists>status. h = [Ev_failed_handler status] \<and> failing status))"
proof -
  have quiet: ?thesis if "cs_events s' = cs_events s @ ls" "\<forall>e \<in> set ls. \<not> handler_event e" for ls
    using that by (intro exI [of _ ls] exI [of _ "[]"]) simp
  have calls: ?thesis if "cs_events s' = cs_events s @ ls @ [e]" "\<forall>e \<in> set ls. \<not> handler_event e"
    "e = Ev_success_handler \<or> (\<exists>status. e = Ev_failed_handler status \<and> failing status)" for ls e
    using that by (intro exI [of _ ls] exI [of _ "[e]"]) auto
  have empty: ?thesis if "cs_events s' = cs_events s" using that quiet [of "[]"] by simp
  have logs: "\<forall>e \<in> set (map Ev_log ls). \<not> handler_event e" for ls by simp
  from assms show ?thesis
  proof (cases rule: act_rx_cases)
    case (read answer)
    then show ?thesis
      using empty quiet [of "[Ev_read n answer]" for n]
      by (auto simp: rx_read_def emit_def fail_with_def split: option.splits)
  next
    case (response r)
    show ?thesis
    proof (cases "\<exists>ls. cs_events s' = cs_events s @ map Ev_log ls")
      case True
      then obtain ls where "cs_events s' = cs_events s @ map Ev_log ls" by blast
      from quiet [OF this logs] show ?thesis .
    next
      case False
      have "\<exists>ls. cs_events s' = cs_events s @ map Ev_log ls \<or>
          cs_events s' = cs_events s @ map Ev_log ls @ [Ev_success_handler]"
      proof -
        have "cs_events s = cs_events s @ map Ev_log []" by simp
        then show ?thesis
          unfolding response(2) rx_response_def emit_def fail_with_def
          by (auto simp: Let_def simp del: list.map append_Nil2 map_append
              split: option.splits gnmi_counters.splits prod.splits sum.splits)
      qed
      with False obtain ls where "cs_events s' = cs_events s @ map Ev_log ls @ [Ev_success_handler]" by blast
      from calls [OF this logs] show ?thesis by simp
    qed
  next
    case acquire
    then show ?thesis using empty by simp
  next
    case (writes_done b)
    then show ?thesis
      using empty quiet [of "[Ev_writes_done n b]" for n]
      by (auto simp: rx_writes_done_def emit_def fail_with_def split: option.splits)
  next
    case (finish status)
    then show ?thesis
      using empty quiet [of "[Ev_finish n status]" for n]
      by (auto simp: rx_finish_def emit_def fail_with_def split: option.splits)
  next
    case (status status)
    then show ?thesis
      using quiet [of "[Ev_log l]" for l] calls [of "[Ev_log l]" "Ev_failed_handler status" for l]
      by (auto simp: rx_status_def emit_def fail_with_def failing_def Let_def)
  qed
qed

lemma quiet_counts:
  "\<forall>e \<in> set es. \<not> handler_event e \<Longrightarrow> success_calls es = 0 \<and> failed_calls es = []"
proof (induction es)
  case (Cons e es)
  then show ?case by (cases e) simp_all
qed simp

text \<open>What a step of the client does to the history and to the locals of a program in scope.\<close>

lemma client_part_calls:
  assumes "client_part japi vt prog a st = Some st'" "ps_alive st"
  obtains (quiet) es where "cs_events (ps_client st') = cs_events (ps_client st) @ es"
      "\<forall>e \<in> set es. \<not> handler_event e" "ps_locals st' = ps_locals st"
    | (success) ls where "cs_events (ps_client st') = cs_events (ps_client st) @ ls @ [Ev_success_handler]"
      "\<forall>e \<in> set ls. \<not> handler_event e"
      "\<forall>c. counters_of (ps_client st') = Some c \<longrightarrow> ps_locals st' = pg_success prog c (ps_locals st)"
    | (failed) ls status where
      "cs_events (ps_client st') = cs_events (ps_client st) @ ls @ [Ev_failed_handler status]"
      "\<forall>e \<in> set ls. \<not> handler_event e" "failing status"
      "ps_locals st' = pg_failed prog status (ps_locals st)"
proof (cases "is_main a")
  case True
  from client_part_main [OF assms(1) True] obtain s' where
    s': "client_act japi vt a (ps_client st) = Some s'" "st' = st\<lparr>ps_client := s'\<rparr>"
    by blast
  with client_act_events [OF s'(1)] True show ?thesis by (intro quiet [of "new_events (ps_client st) s'"]) auto
next
  case False
  obtain s' where s': "client_act japi vt a (ps_client st) = Some s'"
    and st': "st' = fold (deliver prog) (new_events (ps_client st) s') (st\<lparr>ps_client := s'\<rparr>)"
    using assms(1) by (auto simp: client_part_def split: option.splits)
  have "act_rx japi vt a (ps_client st) = Some s'"
    using s' False by (auto simp: client_act_def split: if_splits)
  from act_rx_calls [OF this] obtain ls h where es: "cs_events s' = cs_events (ps_client st) @ ls @ h"
    and ls: "\<forall>e \<in> set ls. \<not> handler_event e"
    and h: "h = [] \<or> h = [Ev_success_handler] \<or> (\<exists>status. h = [Ev_failed_handler status] \<and> failing status)"
    by blast
  have locals: "st' = fold (deliver prog) h (st\<lparr>ps_client := s'\<rparr>)"
    using es by (simp add: st' new_events_def deliver_all_quiet [OF ls])
  from h show ?thesis
  proof (elim disjE exE conjE)
    assume "h = []"
    then show ?thesis using es ls locals by (intro quiet [of ls]) simp_all
  next
    assume "h = [Ev_success_handler]"
    then show ?thesis
      using es ls locals assms(2) by (intro success [of ls])
        (auto simp: deliver_def run_handler_def split: option.split)
  next
    fix status assume "h = [Ev_failed_handler status]" "failing status"
    then show ?thesis
      using es ls locals assms(2) by (intro failed [of ls status]) (simp_all add: deliver_def run_handler_def)
  qed
qed

text \<open>A property of the history and the locals, kept by each event and each handler.\<close>

lemma deliver_all_locals:
  assumes "\<And>es q e. I es q \<Longrightarrow> I (es @ [e]) q"
    and "\<And>es q c. I es q \<Longrightarrow> I (es @ [Ev_success_handler]) (pg_success prog c q)"
    and "\<And>es q status. I es q \<Longrightarrow> I (es @ [Ev_failed_handler status]) (pg_failed prog status q)"
    and "I es0 (ps_locals st)"
  shows "I (es0 @ es) (ps_locals (fold (deliver prog) es st))"
  using assms(4)
proof (induction es arbitrary: es0 st)
  case (Cons e es)
  have "I (es0 @ [e]) (ps_locals (deliver prog e st))"
    using assms(1-3) Cons.prems
    by (auto simp: deliver_def run_handler_def split: client_event.split option.split)
  from Cons.IH [OF this] show ?case by simp
qed simp

lemma client_part_locals:
  assumes "client_part japi vt prog a st = Some st'" "I (cs_events (ps_client st)) (ps_locals st)"
    and "\<And>es q e. I es q \<Longrightarrow> I (es @ [e]) q"
    and "\<And>es q c. I es q \<Longrightarrow> I (es @ [Ev_success_handler]) (pg_success prog c q)"
    and "\<And>es q status. I es q \<Longrightarrow> I (es @ [Ev_failed_handler status]) (pg_failed prog status q)"
  shows "I (cs_events (ps_client st')) (ps_locals st')"
proof -
  obtain s' where s': "client_act japi vt a (ps_client st) = Some s'"
    "st' = fold (deliver prog) (new_events (ps_client st) s') (st\<lparr>ps_client := s'\<rparr>)"
    using assms(1) by (auto simp: client_part_def split: option.splits)
  have "I (cs_events (ps_client st) @ new_events (ps_client st) s') (ps_locals st')"
    unfolding s'(2) using deliver_all_locals [OF assms(3-5)] assms(2) by simp
  then show ?thesis using client_act_events(1) [OF s'(1)] by (simp add: s'(2))
qed

lemma client_part_same:
  assumes "client_part japi vt prog a st = Some st'"
  shows "client_act japi vt a (ps_client st) = Some (ps_client st')" "ps_pc st' = ps_pc st"
    "ps_call st' = ps_call st" "ps_alive st' = ps_alive st"
  using assms by (auto simp: client_part_def split: option.splits)

lemma inner_idle: "inner_action a \<Longrightarrow> act_main vt a s = Some s' \<Longrightarrow> cs_main s \<noteq> Main_idle"
  by (cases a) (auto simp: act_main_def inner_action_def split: if_splits)

lemma act_rx_joinable:
  assumes "act_rx japi vt a s = Some s'"
  shows "cs_joinable s' = cs_joinable s \<and> cs_main s' = cs_main s \<and> cs_rx s \<noteq> Rx_none"
  using assms
  by (cases rule: act_rx_cases) (auto simp: rx_ops Let_def split: option.splits prod.splits
      sum.splits gnmi_counters.splits)

text \<open>How a call begins, and what the state remembers of it.\<close>

lemma program_command_register:
  assumes "program_command japi vt prog now st = Some st'" "pg_command prog (ps_pc st) = Register f k"
  shows "\<exists>s'. client_act japi vt (Call_register (fst (f (ps_locals st))) (snd (f (ps_locals st))))
      (ps_client st) = Some s' \<and> st' = st\<lparr>ps_call := Some (In_register k), ps_client := s'\<rparr>"
  using assms client_part_main by (fastforce simp: program_command_def is_main_def split: prod.splits)

lemma program_command_close:
  assumes "program_command japi vt prog now st = Some st'" "pg_command prog (ps_pc st) = Close p"
  shows "\<exists>s'. client_act japi vt Call_close (ps_client st) = Some s' \<and>
    st' = st\<lparr>ps_call := Some (In_close p), ps_client := s'\<rparr>"
  using assms client_part_main by (fastforce simp: program_command_def is_main_def)

definition call_inv :: "('c, 'q, 'p) stream_program \<Rightarrow> ('c, 'q, 'p) program_state \<Rightarrow> bool" where
  "call_inv prog st \<longleftrightarrow>
     (case ps_call st of
        None \<Rightarrow> cs_main (ps_client st) = Main_idle
      | Some (In_register k) \<Rightarrow> \<exists>f. pg_command prog (ps_pc st) = Register f k
      | Some (In_close p) \<Rightarrow> pg_command prog (ps_pc st) = Close p)"

lemma reachable_call_inv:
  assumes "program_reachable japi vt prog i q p st"
  shows "call_inv prog st"
  using assms
proof (induction rule: program_invariant)
  case initial
  then show ?case by (simp add: call_inv_def program_initial_def program_client_def client_initial_def)
next
  case (client a st st')
  have "cs_main (ps_client st') = Main_idle" if "cs_main (ps_client st) = Main_idle"
    using client_part_same(1) [OF client(4)] that client(3) inner_idle act_rx_joinable
    by (elim client_act_cases) fastforce+
  then show ?case
    using client(5) client_part_same [OF client(4)]
    by (auto simp: call_inv_def split: option.splits pending_call.splits)
next
  case (command now st st')
  then show ?case
  proof (cases "pg_command prog (ps_pc st)")
    case Register
    with program_command_register [OF command(4)] show ?thesis by (auto simp: call_inv_def)
  next
    case Close
    with program_command_close [OF command(4)] show ?thesis by (auto simp: call_inv_def)
  qed (use command in \<open>auto simp: program_command_def call_inv_def split: prod.splits if_splits\<close>)
next
  case (return st st')
  then show ?case
    by (auto simp: program_return_def call_inv_def split: if_splits option.splits pending_call.splits)
qed

section \<open>Programs that close what they open\<close>

text \<open>
  The contract of a program whose points are marked: at \<open>in_scope\<close> points the locals exist, and at a
  point that is not \<open>may_open\<close> no receive thread exists. A mark is lost only over a closing, and a
  program registers only in scope.
\<close>

locale scoped_program =
  fixes prog :: "('c, 'q, 'p) stream_program"
    and in_scope :: "'p \<Rightarrow> bool"
    and may_open :: "'p \<Rightarrow> bool"
  assumes register_scope: "pg_command prog p = Register f k \<Longrightarrow>
      in_scope p \<and> in_scope (k code) \<and> may_open (k code)"
    and close_scope: "pg_command prog p = Close p' \<Longrightarrow> in_scope p' \<longleftrightarrow> in_scope p"
    and local_scope: "pg_command prog p = Local l \<Longrightarrow> l now q = (q', p') \<Longrightarrow>
      (in_scope p' \<longleftrightarrow> in_scope p) \<and> (may_open p \<longrightarrow> may_open p')"
    and wait_scope: "pg_command prog p = Wait c g \<Longrightarrow> g q = (q', p') \<Longrightarrow>
      (in_scope p' \<longleftrightarrow> in_scope p) \<and> (may_open p \<longrightarrow> may_open p')"
    and destroy_scope: "pg_command prog p = Destroy_locals p' \<Longrightarrow>
      \<not> in_scope p' \<and> (may_open p \<longrightarrow> may_open p')"

fun closing_pc :: "main_pc \<Rightarrow> bool" where
  "closing_pc Close_lock = True"
| "closing_pc Close_cancel = True"
| "closing_pc Close_join = True"
| "closing_pc Close_reset = True"
| "closing_pc _ = False"

lemma act_main_closing:
  assumes "act_main vt a s = Some s'" "inner_action a" "closing_pc (cs_main s)"
  shows "(cs_joinable s' \<longrightarrow> cs_joinable s) \<and>
    (closing_pc (cs_main s') \<or> cs_main s' = Main_idle \<and> cs_joinable s' = cs_joinable s \<and>
      cs_main s = Close_reset)"
  using assms
  by (cases "cs_main s"; cases a) (auto simp: act_main_def inner_action_def close_cancel_def
      close_joined_def close_reset_def emit_def Let_def split: if_splits)

context scoped_program
begin

definition scope_inv :: "('c, 'q, 'p) program_state \<Rightarrow> bool" where
  "scope_inv st \<longleftrightarrow>
     (ps_alive st \<longleftrightarrow> in_scope (ps_pc st)) \<and>
     (ps_fault st \<noteq> None \<longrightarrow> \<not> in_scope (ps_pc st) \<and> may_open (ps_pc st)) \<and>
     (case ps_call st of
        None \<Rightarrow> cs_main (ps_client st) = Main_idle \<and>
          (cs_joinable (ps_client st) \<longrightarrow> may_open (ps_pc st))
      | Some (In_register k) \<Rightarrow> in_scope (ps_pc st) \<and> (\<forall>code. in_scope (k code) \<and> may_open (k code))
      | Some (In_close p) \<Rightarrow> (in_scope p \<longleftrightarrow> in_scope (ps_pc st)) \<and>
          (cs_joinable (ps_client st) \<longrightarrow> may_open (ps_pc st)) \<and>
          (closing_pc (cs_main (ps_client st)) \<or>
           cs_main (ps_client st) = Main_idle \<and> \<not> cs_joinable (ps_client st)))"

lemma deliver_all_fault:
  assumes "ps_fault (fold (deliver prog) es st) \<noteq> None"
  shows "ps_fault st \<noteq> None \<or> \<not> ps_alive st"
  using assms
proof (induction es arbitrary: st)
  case (Cons e es)
  then have "ps_fault (deliver prog e st) \<noteq> None \<or> \<not> ps_alive (deliver prog e st)"
    using Cons.IH [of "deliver prog e st"] by simp
  then show ?case
    by (auto simp: deliver_def run_handler_def split: client_event.splits option.splits if_splits)
qed simp

lemma client_part_rx_inv:
  assumes "scope_inv st" "ps_fault st = None" "stream_inv (ps_client st)" "\<not> is_main a"
    and "client_part japi vt prog a st = Some st'"
  shows "scope_inv st'"
proof -
  obtain s' where s': "client_act japi vt a (ps_client st) = Some s'"
    and st': "st' = fold (deliver prog) (new_events (ps_client st) s') (st\<lparr>ps_client := s'\<rparr>)"
    using assms(5) by (auto simp: client_part_def split: option.splits)
  have "act_rx japi vt a (ps_client st) = Some s'"
    using s' assms(4) by (auto simp: client_act_def split: if_splits)
  note same = act_rx_joinable [OF this]
  have joinable: "cs_joinable (ps_client st)"
    using same assms(3) by (simp add: stream_inv_def)
  have "\<not> in_scope (ps_pc st) \<and> may_open (ps_pc st)" if "ps_fault st' \<noteq> None"
  proof -
    have "\<not> ps_alive st"
      using deliver_all_fault [of "new_events (ps_client st) s'" "st\<lparr>ps_client := s'\<rparr>"] that assms(2)
      by (simp add: st')
    then show ?thesis
      using assms(1) joinable
      by (auto simp: scope_inv_def split: option.splits pending_call.splits)
  qed
  then show ?thesis
    using assms(1) same by (simp add: scope_inv_def st' split: option.splits pending_call.splits)
qed

lemma client_part_main_inv:
  assumes "scope_inv st" "stream_inv (ps_client st)" "is_main a" "inner_action a"
    and "client_part japi vt prog a st = Some st'"
  shows "scope_inv st'"
proof -
  obtain s' where s': "client_act japi vt a (ps_client st) = Some s'" "st' = st\<lparr>ps_client := s'\<rparr>"
    using client_part_main [OF assms(5,3)] by blast
  then have act: "act_main vt a (ps_client st) = Some s'"
    using assms(3) by (auto simp: client_act_def split: if_splits)
  have busy: "cs_main (ps_client st) \<noteq> Main_idle" by (rule inner_idle [OF assms(4) act])
  have "cs_main (ps_client st) = Close_reset \<Longrightarrow> \<not> cs_joinable (ps_client st)"
    using assms(2) by (auto simp: stream_inv_def)
  with act_main_closing [OF act assms(4)] busy show ?thesis
    using assms(1) by (auto simp: scope_inv_def s'(2) split: option.splits pending_call.splits)
qed

lemma program_command_inv:
  assumes "scope_inv st" "ps_call st = None" "ps_fault st = None"
    and "program_command japi vt prog now st = Some st'"
  shows "scope_inv st'"
proof -
  have idle: "cs_main (ps_client st) = Main_idle" "ps_alive st \<longleftrightarrow> in_scope (ps_pc st)"
    "cs_joinable (ps_client st) \<longrightarrow> may_open (ps_pc st)"
    using assms(1,2) by (simp_all add: scope_inv_def)
  show ?thesis
  proof (cases "pg_command prog (ps_pc st)")
    case (Register f k)
    with program_command_register [OF assms(4) Register] show ?thesis
      using idle register_scope [OF Register] assms(3) by (auto simp: scope_inv_def)
  next
    case (Close p)
    then obtain s' where "client_act japi vt Call_close (ps_client st) = Some s'"
      and st': "st' = st\<lparr>ps_call := Some (In_close p), ps_client := s'\<rparr>"
      using program_command_close [OF assms(4)] by blast
    then have "s' = close_enter (ps_client st)"
      by (auto simp: client_act_def act_main_def is_main_def split: if_splits)
    then show ?thesis
      using idle close_scope [OF Close] assms(3) st' by (simp add: scope_inv_def close_enter_def)
  next
    case (Local l)
    obtain q' p' where l: "l now (ps_locals st) = (q', p')" by fastforce
    then show ?thesis
      using idle local_scope [OF Local l] assms(2-4) Local
      by (auto simp: program_command_def scope_inv_def)
  next
    case (Wait c g)
    obtain q' p' where g: "g (ps_locals st) = (q', p')" by fastforce
    then show ?thesis
      using idle wait_scope [OF Wait g] assms(2-4) Wait
      by (auto simp: program_command_def scope_inv_def split: if_splits)
  next
    case (Destroy_locals p')
    then show ?thesis
      using idle destroy_scope [OF Destroy_locals] assms(2-4)
      by (auto simp: program_command_def scope_inv_def)
  next
    case Halt
    with assms(4) show ?thesis by (simp add: program_command_def)
  qed
qed

lemma program_return_inv:
  assumes "scope_inv st" "ps_fault st = None" "program_return st = Some st'"
  shows "scope_inv st'"
  using assms by (auto simp: program_return_def scope_inv_def
      split: if_splits option.splits pending_call.splits)

lemma reachable_scope_inv:
  assumes "program_reachable japi vt prog i q p st" "in_scope p"
  shows "scope_inv st"
  using assms(1)
proof (induction rule: program_invariant)
  case initial
  then show ?case
    using assms(2) by (simp add: scope_inv_def program_initial_def program_client_def client_initial_def)
next
  case (client a st st')
  have "stream_inv (ps_client st)"
    using reachable_inv [OF program_client_reachable [OF client(1)]] by simp
  then show ?case
    using client client_part_rx_inv client_part_main_inv by (cases "is_main a") blast+
qed (use program_command_inv program_return_inv in blast)+

text \<open>
  What the contract gives: a handler uses destroyed locals only behind a point that may leave the
  stream open, and at a marked point outside a call there is no receive thread.
\<close>

lemma dangling_only_if_left_open:
  assumes "program_reachable japi vt prog i q p st" "in_scope p" "ps_fault st \<noteq> None"
  shows "\<not> in_scope (ps_pc st) \<and> may_open (ps_pc st)"
  using reachable_scope_inv [OF assms(1,2)] assms(3) by (simp add: scope_inv_def)

lemma closed_at_marked_points:
  assumes "program_reachable japi vt prog i q p st" "in_scope p"
    and "ps_call st = None" "\<not> may_open (ps_pc st)"
  shows "\<not> cs_joinable (ps_client st) \<and> cs_rx (ps_client st) = Rx_none"
  using reachable_scope_inv [OF assms(1,2)] assms(3,4)
    reachable_inv [OF program_client_reachable [OF assms(1)]]
  by (auto simp: scope_inv_def stream_inv_def)

end

section \<open>The steps of a registration\<close>

fun registering_pc :: "main_pc \<Rightarrow> bool" where
  "registering_pc (Reg_lock_open _ _) = True"
| "registering_pc (Reg_open _ _) = True"
| "registering_pc (Reg_unlock _) = True"
| "registering_pc (Reg_lock_write _) = True"
| "registering_pc (Reg_write _) = True"
| "registering_pc _ = False"

text \<open>A registration opens at most one stream, and returns with a thread to join.\<close>

lemma act_main_registering:
  assumes "act_main vt a s = Some s'" "registering_pc (cs_main s)" "stream_inv s"
  shows "(registering_pc (cs_main s') \<or> cs_main s' = Main_idle \<and> cs_joinable s') \<and>
    (cs_streams s' = cs_streams s \<and> cs_joinable s' = cs_joinable s \<or>
     cs_streams s' = Suc (cs_streams s) \<and> \<not> cs_joinable s \<and> cs_joinable s')"
  using assms
  by (cases "cs_main s"; cases a) (auto simp: act_main_def register_open_def register_write_def
      stream_inv_def emit_def fail_with_def Let_def split: if_splits option.splits)

lemma register_enter_pbr:
  assumes "cs_interface s = Some (PbrCounters c)" "vt_name vt c = ''pbr''"
  shows "registering_pc (cs_main (register_enter vt x args s)) \<and>
    cs_streams (register_enter vt x args s) = cs_streams s \<and>
    cs_joinable (register_enter vt x args s) = cs_joinable s \<and>
    cs_fault (register_enter vt x args s) = cs_fault s \<and>
    (\<exists>ls. cs_events (register_enter vt x args s) = cs_events s @ map Ev_log ls)"
  using assms by (auto simp: register_enter_def counters_name_def emit_def Let_def split: prod.split)

lemma act_main_streams:
  assumes "act_main vt a s = Some s'" "\<not> registering_pc (cs_main s)"
  shows "cs_streams s' = cs_streams s"
  using assms
proof (cases rule: act_main_cases)
  case (register x args)
  then show ?thesis
    by (auto simp: register_enter_def emit_def fail_with_def Let_def
        split: option.split gnmi_counters.split prod.split)
qed (auto simp: main_ops Let_def)

lemma act_rx_streams:
  assumes "act_rx japi vt a s = Some s'"
  shows "cs_streams s' = cs_streams s"
  using assms
  by (cases rule: act_rx_cases) (auto simp: rx_ops Let_def split: option.splits prod.splits
      sum.splits gnmi_counters.splits)

section \<open>What a registration returns\<close>

lemma register_enter_returns:
  "cs_main (register_enter vt x args s) = cs_main s \<Longrightarrow> cs_main s = Main_idle \<Longrightarrow>
   cs_fault (register_enter vt x args s) = None \<Longrightarrow>
   \<exists>code. Ev_registered code \<in> set (cs_events (register_enter vt x args s))"
  by (auto simp: register_enter_def emit_def fail_with_def Let_def
      split: option.splits gnmi_counters.splits prod.splits if_splits)

text \<open>A call that has come back from the client has recorded the code it returns.\<close>

definition returns_inv :: "('c, 'q, 'p) program_state \<Rightarrow> bool" where
  "returns_inv st \<longleftrightarrow>
     (case ps_call st of
        Some (In_register k) \<Rightarrow>
          cs_fault (ps_client st) = None \<longrightarrow> registering_pc (cs_main (ps_client st)) \<or>
            cs_main (ps_client st) = Main_idle \<and>
            (\<exists>code. Ev_registered code \<in> set (cs_events (ps_client st)))
      | _ \<Rightarrow> True)"

lemma act_main_returns:
  assumes "act_main vt a s = Some s'" "registering_pc (cs_main s)" "cs_fault s' = None"
  shows "registering_pc (cs_main s') \<or>
    cs_main s' = Main_idle \<and> (\<exists>code. Ev_registered code \<in> set (cs_events s'))"
  using assms
  by (cases "cs_main s"; cases a) (auto simp: act_main_def register_open_def register_write_def
      emit_def fail_with_def Let_def split: if_splits option.splits)

lemma register_enter_pc:
  "registering_pc (cs_main (register_enter vt x args s)) \<or>
   cs_main (register_enter vt x args s) = cs_main s"
  by (simp add: register_enter_def emit_def fail_with_def Let_def
      split: option.split gnmi_counters.split prod.split)

lemma reachable_returns_inv:
  assumes "program_reachable japi vt prog i q p st"
  shows "returns_inv st"
  using assms
proof (induction rule: program_invariant)
  case initial
  then show ?case by (simp add: returns_inv_def program_initial_def)
next
  case (client a st st')
  note same = client_part_same [OF client(4)]
  from same(1) show ?case
  proof (cases rule: client_act_cases)
    case main
    then have "cs_main (ps_client st) \<noteq> Main_idle" using inner_idle client(3) by blast
    then show ?thesis
      using client(5) act_main_returns [OF main(3)] main(1) same
      by (auto simp: returns_inv_def split: option.splits pending_call.splits)
  next
    case rx
    have "cs_events (ps_client st') = cs_events (ps_client st) @ new_events (ps_client st) (ps_client st')"
      by (rule client_act_events(1) [OF same(1)])
    then show ?thesis
      using client(5) act_rx_joinable [OF rx(3)] rx(1) same
      by (auto simp: returns_inv_def split: option.splits pending_call.splits)
  qed
next
  case (command now st st')
  show ?case
  proof (cases "pg_command prog (ps_pc st)")
    case (Register f k)
    from program_command_register [OF command(4) Register] obtain x args s' where
      act: "client_act japi vt (Call_register x args) (ps_client st) = Some s'"
      and st': "st' = st\<lparr>ps_call := Some (In_register k), ps_client := s'\<rparr>"
      by blast
    then have "s' = register_enter vt x args (ps_client st)"
      by (auto simp: client_act_def act_main_def is_main_def split: if_splits)
    moreover have "cs_main (ps_client st) = Main_idle"
      using reachable_call_inv [OF command(1)] command(3) by (simp add: call_inv_def)
    ultimately show ?thesis
      using register_enter_returns [of vt x args "ps_client st"] register_enter_pc [of vt x args "ps_client st"] st'
      by (auto simp: returns_inv_def)
  next
    case (Close p)
    from program_command_close [OF command(4) Close] show ?thesis by (auto simp: returns_inv_def)
  qed (use command in \<open>auto simp: program_command_def returns_inv_def split: prod.splits if_splits\<close>)
next
  case (return st st')
  then show ?case
    by (auto simp: program_return_def returns_inv_def split: if_splits option.splits pending_call.splits)
qed

lemma registered_code_event:
  assumes "Ev_registered code \<in> set es"
  shows "Ev_registered (registered_code es) \<in> set es"
proof -
  let ?codes = "List.map_filter (\<lambda>e. case e of Ev_registered code \<Rightarrow> Some code | _ \<Rightarrow> None) es"
  have "code \<in> set ?codes" using assms by (force simp: map_filter_def)
  then have "last ?codes \<in> set ?codes" by (intro last_in_set) auto
  then show ?thesis
    by (auto simp: registered_code_def map_filter_def split: client_event.splits)
qed

text \<open>Without a thread that runs and outside every call, the client does nothing.\<close>

lemma idle_client_stuck:
  assumes "cs_main s = Main_idle" "cs_rx s = Rx_done" "inner_action a"
  shows "client_act japi vt a s = None"
  using assms
  by (cases a) (auto simp: client_act_def act_main_def act_rx_def inner_action_def is_main_def)

lemma waiting_stuck:
  assumes "call_inv prog st" "ps_call st = None" "cs_rx (ps_client st) = Rx_done"
    and "pg_command prog (ps_pc st) = Wait c g" "\<not> c (ps_locals st)"
  shows "program_act japi vt prog a st = None"
proof -
  have idle: "cs_main (ps_client st) = Main_idle" using assms(1,2) by (simp add: call_inv_def)
  show ?thesis
  proof (cases a)
    case (Do_client b)
    then show ?thesis
      by (simp add: program_act_def client_part_def idle_client_stuck [OF idle assms(3)])
  qed (use assms in \<open>simp_all add: program_act_def program_command_def program_return_def\<close>)
qed

section \<open>Samples that arrive\<close>

text \<open>A sample is read and handled whatever the main thread of the program is doing.\<close>

lemmas program_simps = program_act_def program_command_def program_return_def client_part_def
  inner_action_def client_act_def act_main_def act_rx_def is_main_def new_events_def
  register_open_def register_write_def emit_def deliver_def registered_code_def map_filter_simps Let_def

definition sample_actions :: "program_action list" where
  "sample_actions = [Do_client (Rx_receive (Some sample_response)), Do_client Rx_handle]"

definition receiving :: "(pbr_basic, 'q, 'p) program_state \<Rightarrow> bool" where
  "receiving st \<longleftrightarrow>
     ps_fault st = None \<and> cs_fault (ps_client st) = None \<and> cs_rx (ps_client st) = Rx_read \<and>
     cs_rw (ps_client st) \<noteq> None \<and> cs_success_set (ps_client st) \<and>
     counters_of (ps_client st) \<noteq> None"

definition handled ::
  "(pbr_basic, 'q, 'p) stream_program \<Rightarrow> (pbr_basic, 'q, 'p) program_state \<Rightarrow>
     (pbr_basic, 'q, 'p) program_state \<Rightarrow> bool" where
  "handled prog st st' \<longleftrightarrow>
     ps_pc st' = ps_pc st \<and> ps_call st' = ps_call st \<and> ps_alive st' = ps_alive st \<and>
     (if ps_alive st
      then receiving st' \<and>
        (\<exists>c. pbr_stats c \<noteq> [] \<and> ps_locals st' = pg_success prog c (ps_locals st))
      else ps_fault st' = Some dangling_locals)"

lemma sample_handled_program:
  assumes "receiving st"
  shows "\<exists>st'. program_run number_json pbr_basic_vt prog sample_actions st = Some st' \<and>
    handled prog st st'"
proof -
  obtain c n where c: "cs_interface (ps_client st) = Some (PbrCounters c)"
    and n: "cs_rw (ps_client st) = Some n"
    using assms by (auto simp: receiving_def counters_of_def split: option.splits gnmi_counters.splits)
  let ?stat = "sample_stat key_p1_r3 1 2 3 4 ''g'' ''a''"
  let ?c = "c\<lparr>pbr_stats := pbr_stats c @ [?stat]\<rparr>"
  let ?s1 = "(ps_client st)\<lparr>cs_events := cs_events (ps_client st) @ [Ev_read n (Some sample_response)],
      cs_rx := Rx_response sample_response\<rparr>"
  let ?s2 = "(ps_client st)\<lparr>cs_rx := Rx_read, cs_interface := Some (PbrCounters ?c),
      cs_events := cs_events (ps_client st) @ [Ev_read n (Some sample_response),
        Ev_log (''Client received a response.'', VERBOSE), Ev_success_handler]\<rparr>"
  have first: "program_act number_json pbr_basic_vt prog
      (Do_client (Rx_receive (Some sample_response))) st = Some (st\<lparr>ps_client := ?s1\<rparr>)"
    using assms n by (simp add: receiving_def program_simps rx_read_def)
  have second: "program_act number_json pbr_basic_vt prog (Do_client Rx_handle)
      (st\<lparr>ps_client := ?s1\<rparr>) =
    Some (run_handler prog (pg_success prog ?c) (st\<lparr>ps_client := ?s2\<rparr>))"
    using assms c by (simp add: receiving_def program_simps rx_response_def sample_check add_stats_def
        counters_of_def)
  show ?thesis
    using assms n by (auto simp: sample_actions_def first second handled_def run_handler_def
        receiving_def counters_of_def intro!: exI [of _ ?c])
qed

end
