(* ===== verification/Stream_Tutorial_Run.thy ===== *)
theory Stream_Tutorial_Run
  imports Stream_Tutorial Client_Program
begin

text \<open>
  The stream tutorial composed with the client it drives: its handlers run in the receive thread, its
  loop in the main thread, statement by statement, and the two share the queue. The states reached
  are those of every interleaving and every answer of gRPC.
\<close>

section \<open>The program\<close>

text \<open>The captured variables, and the locals of the loop.\<close>

record tutorial_locals =
  tm_queue :: tutorial_queue
  tm_count_retry :: nat
  tm_context :: client_context_args

text \<open>
  The points of \<^verbatim>\<open>main\<close> from the loop on. The argument of the last three says whether the loop was left
  by the \<^verbatim>\<open>break\<close> that does not close.
\<close>

datatype tutorial_pc =
    Tut_loop
  | Tut_register
  | Tut_checked error_code
  | Tut_second
  | Tut_wait
  | Tut_item "bool \<times> grpc_status"
  | Tut_close tutorial_next
  | Tut_closed tutorial_next
  | Tut_leave bool
  | Tut_destructor bool
  | Tut_end bool

definition tutorial_start :: "int \<Rightarrow> tutorial_locals" where
  "tutorial_start now =
     \<lparr>tm_queue = \<lparr>tq_count = 0, tq_deque = [], tq_lines = [], tq_logs = []\<rparr>, tm_count_retry = 0,
      tm_context = tutorial_context now\<rparr>"

definition log_in_queue :: "log_entry list \<Rightarrow> tutorial_locals \<Rightarrow> tutorial_locals" where
  "log_in_queue ls q = q\<lparr>tm_queue := (tm_queue q)\<lparr>tq_logs := tq_logs (tm_queue q) @ ls\<rparr>\<rparr>"

text \<open>The head of the loop, with the new deadline.\<close>

definition tutorial_head :: "int \<Rightarrow> tutorial_locals \<Rightarrow> tutorial_locals \<times> tutorial_pc" where
  "tutorial_head now q =
     (if tm_count_retry q < retry_stream
      then (if set_deadline (tm_context q)
            then q\<lparr>tm_context := (tm_context q)\<lparr>deadline := now + seconds 10\<rparr>\<rparr> else q, Tut_register)
      else (q, Tut_leave False))"

definition tutorial_check ::
  "error_code \<Rightarrow> tutorial_locals \<Rightarrow> tutorial_locals \<times> tutorial_pc" where
  "tutorial_check err q =
     (if err \<noteq> CLIENT_TYPE_FAILURE then (q, Tut_second)
      else (log_in_queue [(''Error: Using unsupported client type'', ERROR)] q, Tut_close Leave))"

definition tutorial_pop :: "tutorial_locals \<Rightarrow> tutorial_locals \<times> tutorial_pc" where
  "tutorial_pop q =
     (q\<lparr>tm_queue := (tm_queue q)\<lparr>tq_deque := tl (tq_deque (tm_queue q))\<rparr>\<rparr>,
      Tut_item (hd (tq_deque (tm_queue q))))"

text \<open>The branches on the entry, as \<open>tutorial_item\<close> lists them: the messages, then the closing.\<close>

definition logged :: "tutorial_action list \<Rightarrow> log_entry list" where
  "logged as = List.map_filter (\<lambda>a. case a of Do_log l \<Rightarrow> Some l | _ \<Rightarrow> None) as"

definition tutorial_branch ::
  "bool \<times> grpc_status \<Rightarrow> tutorial_locals \<Rightarrow> tutorial_locals \<times> tutorial_pc" where
  "tutorial_branch item q =
     (let (as, nxt) = tutorial_item item in
      (log_in_queue (logged as) q, if Do_close \<in> set as then Tut_close nxt else Tut_leave True))"

definition tutorial_again :: "tutorial_next \<Rightarrow> tutorial_locals \<Rightarrow> tutorial_locals \<times> tutorial_pc" where
  "tutorial_again nxt q =
     (if nxt = Retry then (q\<lparr>tm_count_retry := tm_count_retry q + 1\<rparr>, Tut_loop)
      else (q, Tut_leave False))"

fun tutorial_command :: "tutorial_pc \<Rightarrow> (tutorial_locals, tutorial_pc) command" where
  "tutorial_command Tut_loop = Local tutorial_head"
| "tutorial_command Tut_register = Register (\<lambda>q. (tm_context q, stream_rpc_args)) Tut_checked"
| "tutorial_command (Tut_checked err) = Local (\<lambda>_. tutorial_check err)"
| "tutorial_command Tut_second = Register (\<lambda>q. (tm_context q, stream_rpc_args)) (\<lambda>_. Tut_wait)"
| "tutorial_command Tut_wait = Wait (\<lambda>q. tq_deque (tm_queue q) \<noteq> []) tutorial_pop"
| "tutorial_command (Tut_item item) = Local (\<lambda>_. tutorial_branch item)"
| "tutorial_command (Tut_close nxt) = Close (Tut_closed nxt)"
| "tutorial_command (Tut_closed nxt) = Local (\<lambda>_. tutorial_again nxt)"
| "tutorial_command (Tut_leave b) = Destroy_locals (Tut_destructor b)"
| "tutorial_command (Tut_destructor b) = Close (Tut_end b)"
| "tutorial_command (Tut_end b) = Halt"

definition tutorial_program :: "string \<Rightarrow> (pbr_basic, tutorial_locals, tutorial_pc) stream_program" where
  "tutorial_program tid =
     \<lparr>pg_success = (\<lambda>c q. q\<lparr>tm_queue := tutorial_success tid c (tm_queue q)\<rparr>),
      pg_failed = (\<lambda>status q. q\<lparr>tm_queue := tutorial_failed status (tm_queue q)\<rparr>),
      pg_command = tutorial_command\<rparr>"

lemma tutorial_program_simps [simp]:
  "pg_success (tutorial_program tid) c q = q\<lparr>tm_queue := tutorial_success tid c (tm_queue q)\<rparr>"
  "pg_failed (tutorial_program tid) status q = q\<lparr>tm_queue := tutorial_failed status (tm_queue q)\<rparr>"
  "pg_command (tutorial_program tid) = tutorial_command"
  by (simp_all add: tutorial_program_def)

abbreviation tutorial_reachable ::
  "'j json_api \<Rightarrow> string \<Rightarrow> int \<Rightarrow> (pbr_basic, tutorial_locals, tutorial_pc) program_state \<Rightarrow> bool" where
  "tutorial_reachable japi tid now \<equiv> program_reachable japi pbr_basic_vt (tutorial_program tid)
     (Some (PbrCounters stream_counters)) (tutorial_start now) Tut_loop"

lemma retry_stream_value [simp]: "retry_stream = 5"
  by (simp add: retry_stream_def)

lemma log_in_queue_keeps [simp]:
  "tm_count_retry (log_in_queue ls q) = tm_count_retry q"
  "tq_deque (tm_queue (log_in_queue ls q)) = tq_deque (tm_queue q)"
  "tq_count (tm_queue (log_in_queue ls q)) = tq_count (tm_queue q)"
  by (simp_all add: log_in_queue_def)

section \<open>The marks of the tutorial\<close>

fun tutorial_in_scope :: "tutorial_pc \<Rightarrow> bool" where
  "tutorial_in_scope (Tut_destructor _) = False"
| "tutorial_in_scope (Tut_end _) = False"
| "tutorial_in_scope _ = True"

fun tutorial_may_open :: "tutorial_pc \<Rightarrow> bool" where
  "tutorial_may_open Tut_loop = False"
| "tutorial_may_open Tut_register = False"
| "tutorial_may_open (Tut_closed _) = False"
| "tutorial_may_open (Tut_leave b) = b"
| "tutorial_may_open (Tut_destructor b) = b"
| "tutorial_may_open (Tut_end b) = b"
| "tutorial_may_open _ = True"

interpretation tutorial: scoped_program "tutorial_program tid" tutorial_in_scope tutorial_may_open
proof
  fix p l now q q' p'
  assume "pg_command (tutorial_program tid) p = Local l" "l now q = (q', p')"
  then show "(tutorial_in_scope p' \<longleftrightarrow> tutorial_in_scope p) \<and>
      (tutorial_may_open p \<longrightarrow> tutorial_may_open p')"
    by (cases p) (auto simp: tutorial_head_def tutorial_check_def tutorial_branch_def
        tutorial_again_def split: if_splits prod.splits)
next
  fix p f k code
  assume "pg_command (tutorial_program tid) p = Register f k"
  then show "tutorial_in_scope p \<and> tutorial_in_scope (k code) \<and> tutorial_may_open (k code)"
    by (cases p) auto
next
  fix p p'
  assume "pg_command (tutorial_program tid) p = Close p'"
  then show "tutorial_in_scope p' \<longleftrightarrow> tutorial_in_scope p" by (cases p) auto
next
  fix p c g q q' p'
  assume "pg_command (tutorial_program tid) p = Wait c g" "g q = (q', p')"
  then show "(tutorial_in_scope p' \<longleftrightarrow> tutorial_in_scope p) \<and>
      (tutorial_may_open p \<longrightarrow> tutorial_may_open p')"
    by (cases p) (auto simp: tutorial_pop_def)
next
  fix p p'
  assume "pg_command (tutorial_program tid) p = Destroy_locals p'"
  then show "\<not> tutorial_in_scope p' \<and> (tutorial_may_open p \<longrightarrow> tutorial_may_open p')"
    by (cases p) auto
qed

section \<open>The queue and the history\<close>

text \<open>
  An entry of the queue stands for a call of the failed handler or for a call of the success handler
  from the limit on; \<open>popped\<close> entries have been taken.
\<close>

definition queue_inv :: "nat \<Rightarrow> client_event list \<Rightarrow> tutorial_queue \<Rightarrow> bool" where
  "queue_inv popped es q \<longleftrightarrow>
     tq_count q \<le> success_calls es \<and>
     length (tq_deque q) + popped \<le>
       length (failed_calls es) + (success_calls es + 1 - number_of_responses) \<and>
     (\<forall>x \<in> set (tq_deque q). \<not> fst x \<longrightarrow> number_of_responses \<le> tq_count q)"

lemma queue_inv_event: "queue_inv n es q \<Longrightarrow> queue_inv n (es @ [e]) q"
  by (auto simp: queue_inv_def number_of_responses_def)

lemma queue_inv_success:
  "queue_inv n es q \<Longrightarrow> queue_inv n (es @ [Ev_success_handler]) (tutorial_success tid c q)"
  by (auto simp: queue_inv_def tutorial_success_def number_of_responses_def Let_def)

lemma queue_inv_failed:
  "queue_inv n es q \<Longrightarrow> queue_inv n (es @ [Ev_failed_handler status]) (tutorial_failed status q)"
  by (auto simp: queue_inv_def tutorial_failed_def Let_def)

lemma tutorial_count_mono:
  "tq_count q \<le> tq_count (tutorial_success tid c q)" "tq_count (tutorial_failed status q) = tq_count q"
  by (simp_all add: tutorial_success_def tutorial_failed_def Let_def)

fun taken :: "tutorial_pc \<Rightarrow> nat" where
  "taken (Tut_item _) = 1"
| "taken (Tut_close nxt) = (if nxt = Retry then 1 else 0)"
| "taken (Tut_closed nxt) = (if nxt = Retry then 1 else 0)"
| "taken _ = 0"

fun at_limit :: "tutorial_pc \<Rightarrow> bool" where
  "at_limit (Tut_item item) = (\<not> fst item)"
| "at_limit (Tut_leave b) = b"
| "at_limit (Tut_destructor b) = b"
| "at_limit (Tut_end b) = b"
| "at_limit _ = False"

definition tutorial_inv :: "tutorial_pc \<Rightarrow> client_event list \<Rightarrow> tutorial_locals \<Rightarrow> bool" where
  "tutorial_inv p es q \<longleftrightarrow>
     queue_inv (tm_count_retry q + taken p) es (tm_queue q) \<and>
     (at_limit p \<longrightarrow> number_of_responses \<le> tq_count (tm_queue q))"

lemma tutorial_inv_client:
  assumes "client_part japi vt (tutorial_program tid) a st = Some st'"
    and "tutorial_inv p (cs_events (ps_client st)) (ps_locals st)"
  shows "tutorial_inv p (cs_events (ps_client st')) (ps_locals st')"
  using assms
proof (rule client_part_locals)
  show "tutorial_inv p (es @ [Ev_success_handler]) (pg_success (tutorial_program tid) c q)"
    if "tutorial_inv p es q" for es q c
    using that tutorial_count_mono(1) [of "tm_queue q" tid c]
    by (auto simp: tutorial_inv_def queue_inv_success)
qed (auto simp: tutorial_inv_def queue_inv_event queue_inv_failed tutorial_count_mono)

lemma queue_inv_pop:
  assumes "queue_inv n es q" "tq_deque q \<noteq> []"
  shows "queue_inv (Suc n) es (q\<lparr>tq_deque := tl (tq_deque q)\<rparr>)"
  using assms by (cases "tq_deque q") (auto simp: queue_inv_def)

lemma queue_inv_less: "queue_inv n es q \<Longrightarrow> m \<le> n \<Longrightarrow> queue_inv m es q"
  by (simp add: queue_inv_def)

lemma queue_inv_log: "queue_inv n es (tm_queue (log_in_queue ls q)) = queue_inv n es (tm_queue q)"
  by (simp add: queue_inv_def)

text \<open>The statements of the main thread.\<close>

lemma tutorial_item_next:
  assumes "tutorial_item item = (as, nxt)"
  shows "Do_close \<in> set as \<longleftrightarrow> fst item" "nxt \<noteq> Hang"
  using assms by (auto simp: tutorial_item_def Let_def split: if_splits)

lemma tutorial_inv_call:
  assumes "client_act japi vt a s = Some s'" "tutorial_inv p (cs_events s) q"
  shows "tutorial_inv p (cs_events s') q"
proof -
  have "tutorial_inv p (cs_events s @ es) q" for es
    by (induction es rule: rev_induct)
      (use assms(2) in \<open>auto simp: tutorial_inv_def queue_inv_event simp flip: append_assoc\<close>)
  then show ?thesis using client_act_events(1) [OF assms(1)] by metis
qed

lemma tutorial_command_inv:
  assumes inv: "tutorial_inv (ps_pc st) (cs_events (ps_client st)) (ps_locals st)"
    and command: "program_command japi vt (tutorial_program tid) now st = Some st'"
  shows "tutorial_inv (ps_pc st') (cs_events (ps_client st')) (ps_locals st')"
proof (cases "pg_command (tutorial_program tid) (ps_pc st)")
  case Register
  from program_command_register [OF command Register] inv tutorial_inv_call show ?thesis by fastforce
next
  case Close
  from program_command_close [OF command Close] inv tutorial_inv_call show ?thesis by fastforce
next
  case (Local l)
  show ?thesis
  proof (cases "ps_pc st")
    case (Tut_item item)
    obtain as nxt where item: "tutorial_item item = (as, nxt)" by fastforce
    have "st' = st\<lparr>ps_locals := log_in_queue (logged as) (ps_locals st),
        ps_pc := (if fst item then Tut_close nxt else Tut_leave True)\<rparr>"
      using command Tut_item
      by (simp add: program_command_def tutorial_branch_def item tutorial_item_next(1) [OF item])
    then show ?thesis
      using inv Tut_item by (auto simp: tutorial_inv_def queue_inv_log intro: queue_inv_less)
  qed (use Local inv command in \<open>auto simp: program_command_def tutorial_inv_def tutorial_head_def
      tutorial_check_def tutorial_again_def queue_inv_log intro: queue_inv_less split: if_splits\<close>)
next
  case (Wait c g)
  then have "ps_pc st = Tut_wait" by (cases "ps_pc st") simp_all
  then show ?thesis
    using inv command queue_inv_pop [of _ _ "tm_queue (ps_locals st)"]
    by (auto simp: program_command_def tutorial_inv_def tutorial_pop_def queue_inv_def neq_Nil_conv
        split: if_splits)
next
  case (Destroy_locals p)
  then show ?thesis
    using inv command by (cases "ps_pc st") (auto simp: program_command_def tutorial_inv_def)
next
  case Halt
  with command show ?thesis by (simp add: program_command_def)
qed

lemma tutorial_return_inv:
  assumes "call_inv (tutorial_program tid) st" "program_return st = Some st'"
    and "tutorial_inv (ps_pc st) (cs_events (ps_client st)) (ps_locals st)"
  shows "tutorial_inv (ps_pc st') (cs_events (ps_client st')) (ps_locals st')"
  using assms
  by (cases "ps_pc st") (auto simp: program_return_def call_inv_def tutorial_inv_def
      split: if_splits option.splits pending_call.splits)

lemma reachable_tutorial_inv:
  assumes "tutorial_reachable japi tid now st"
  shows "tutorial_inv (ps_pc st) (cs_events (ps_client st)) (ps_locals st)"
  using assms
proof (induction rule: program_invariant)
  case initial
  then show ?case
    by (simp add: tutorial_inv_def queue_inv_def program_initial_def tutorial_start_def)
next
  case (client a st st')
  then show ?case using tutorial_inv_client client_part_same(2) by metis
next
  case (command now st st')
  then show ?case using tutorial_command_inv by blast
next
  case (return st st')
  then show ?case using tutorial_return_inv [OF reachable_call_inv [OF return(1)]] by simp
qed

section \<open>The streams it opens\<close>

fun streams_at :: "tutorial_pc \<Rightarrow> nat \<Rightarrow> nat" where
  "streams_at Tut_loop n = n"
| "streams_at Tut_register n = n"
| "streams_at (Tut_leave _) n = retry_stream"
| "streams_at (Tut_destructor _) n = retry_stream"
| "streams_at (Tut_end _) n = retry_stream"
| "streams_at _ n = n + 1"

text \<open>An attempt is under way, so there are tries left.\<close>

fun attempting :: "tutorial_pc \<Rightarrow> bool" where
  "attempting Tut_loop = False"
| "attempting (Tut_leave _) = False"
| "attempting (Tut_destructor _) = False"
| "attempting (Tut_end _) = False"
| "attempting _ = True"

definition streams_inv :: "(pbr_basic, tutorial_locals, tutorial_pc) program_state \<Rightarrow> bool" where
  "streams_inv st \<longleftrightarrow>
     (let n = tm_count_retry (ps_locals st); s = ps_client st in
      n \<le> retry_stream \<and> (attempting (ps_pc st) \<longrightarrow> n < retry_stream) \<and>
      (case ps_call st of
         Some (In_register k) \<Rightarrow>
           cs_streams s \<le> n + (if cs_joinable s then 1 else 0) \<and>
           (registering_pc (cs_main s) \<or> cs_main s = Main_idle \<and> cs_joinable s)
       | Some (In_close p) \<Rightarrow> cs_streams s \<le> streams_at (ps_pc st) n \<and> \<not> registering_pc (cs_main s)
       | None \<Rightarrow> cs_streams s \<le> streams_at (ps_pc st) n \<and>
           (ps_pc st = Tut_second \<or> ps_pc st = Tut_wait \<or> (\<exists>err. ps_pc st = Tut_checked err) \<longrightarrow>
              cs_joinable s)))"

lemma tutorial_retries_kept:
  assumes "client_part japi vt (tutorial_program tid) a st = Some st'"
  shows "tm_count_retry (ps_locals st') = tm_count_retry (ps_locals st)"
  using client_part_locals [OF assms, of "\<lambda>_ q. tm_count_retry q = tm_count_retry (ps_locals st)"]
  by simp

lemma closing_not_registering:
  "closing_pc pc \<Longrightarrow> \<not> registering_pc pc" "\<not> registering_pc Main_idle"
  by (cases pc) simp_all

lemma streams_inv_client:
  assumes "streams_inv st" "call_inv (tutorial_program tid) st" "stream_inv (ps_client st)"
    and "inner_action a" "client_part japi vt (tutorial_program tid) a st = Some st'"
  shows "streams_inv st'"
proof -
  note same = client_part_same [OF assms(5)] tutorial_retries_kept [OF assms(5)]
  from same(1) show ?thesis
  proof (cases rule: client_act_cases)
    case rx
    from act_rx_joinable [OF rx(3)] act_rx_streams [OF rx(3)] show ?thesis
      using assms(1) same
      by (auto simp: streams_inv_def Let_def split: option.splits pending_call.splits if_splits)
  next
    case main
    have busy: "cs_main (ps_client st) \<noteq> Main_idle" by (rule inner_idle [OF assms(4) main(3)])
    show ?thesis
    proof (cases "registering_pc (cs_main (ps_client st))")
      case True
      from act_main_registering [OF main(3) True assms(3)] show ?thesis
        using assms(1,2) True busy same
        by (auto simp: streams_inv_def call_inv_def Let_def split: option.splits pending_call.splits if_splits)
    next
      case False
      then have "closing_pc (cs_main (ps_client st))"
        using busy by (cases "cs_main (ps_client st)") simp_all
      from act_main_closing [OF main(3) assms(4) this] act_main_streams [OF main(3) False] show ?thesis
        using assms(1,2) False busy same closing_not_registering
        by (auto simp: streams_inv_def call_inv_def Let_def split: option.splits pending_call.splits if_splits)
    qed
  qed
qed

lemma streams_inv_command:
  assumes "streams_inv st" "ps_call st = None" "cs_interface (ps_client st) = Some (PbrCounters c)"
    and "cs_main (ps_client st) = Main_idle"
    and "program_command japi pbr_basic_vt (tutorial_program tid) now st = Some st'"
  shows "streams_inv st'"
proof (cases "pg_command (tutorial_program tid) (ps_pc st)")
  case (Register f k)
  from program_command_register [OF assms(5) Register] obtain x args s' where
    "client_act japi pbr_basic_vt (Call_register x args) (ps_client st) = Some s'"
    and st': "st' = st\<lparr>ps_call := Some (In_register k), ps_client := s'\<rparr>"
    by blast
  then have "s' = register_enter pbr_basic_vt x args (ps_client st)"
    by (auto simp: client_act_def act_main_def is_main_def split: if_splits)
  moreover have "ps_pc st = Tut_register \<or> ps_pc st = Tut_second"
    using Register by (cases "ps_pc st") simp_all
  ultimately show ?thesis
    using assms(1,2) register_enter_pbr [OF assms(3), of pbr_basic_vt x args] st'
    by (auto simp: streams_inv_def Let_def)
next
  case (Close p)
  from program_command_close [OF assms(5) Close] obtain s' where
    "client_act japi pbr_basic_vt Call_close (ps_client st) = Some s'"
    and st': "st' = st\<lparr>ps_call := Some (In_close p), ps_client := s'\<rparr>"
    by blast
  then have "s' = close_enter (ps_client st)"
    by (auto simp: client_act_def act_main_def is_main_def split: if_splits)
  then show ?thesis
    using assms(1,2) st' by (auto simp: streams_inv_def close_enter_def Let_def)
next
  case (Local l)
  then show ?thesis
    using assms(1,2,5)
    by (cases "ps_pc st") (auto simp: program_command_def streams_inv_def tutorial_head_def Let_def
        tutorial_check_def tutorial_again_def tutorial_branch_def split: if_splits prod.splits)
next
  case (Wait c g)
  then show ?thesis
    using assms(1,2,5) by (cases "ps_pc st") (auto simp: program_command_def streams_inv_def
        tutorial_pop_def Let_def split: if_splits)
next
  case (Destroy_locals p)
  then show ?thesis
    using assms(1,2,5) by (cases "ps_pc st") (auto simp: program_command_def streams_inv_def Let_def)
next
  case Halt
  with assms(5) show ?thesis by (simp add: program_command_def)
qed

lemma streams_inv_return:
  assumes "streams_inv st" "call_inv (tutorial_program tid) st" "program_return st = Some st'"
  shows "streams_inv st'"
  using assms
  by (cases "ps_pc st") (auto simp: program_return_def call_inv_def streams_inv_def Let_def
      split: if_splits option.splits pending_call.splits)

lemma reachable_streams_inv:
  assumes "tutorial_reachable japi tid now st"
  shows "streams_inv st"
  using assms
proof (induction rule: program_invariant)
  case initial
  then show ?case
    by (simp add: streams_inv_def program_initial_def tutorial_start_def program_client_def
        client_initial_def)
next
  case (client a st st')
  have "stream_inv (ps_client st)"
    using reachable_inv [OF program_client_reachable [OF client(1)]] by simp
  then show ?case
    by (rule streams_inv_client [OF client(5) reachable_call_inv [OF client(1)] _ client(3,4)])
next
  case (command now st st')
  have "cs_main (ps_client st) = Main_idle"
    using reachable_call_inv [OF command(1)] command(3) by (simp add: call_inv_def)
  moreover obtain c where "cs_interface (ps_client st) = Some (PbrCounters c)"
    using reachable_interface [OF program_client_reachable [OF command(1)]] by blast
  ultimately show ?case using streams_inv_command [OF command(5,3) _ _ command(4)] by simp
next
  case (return st st')
  then show ?case using streams_inv_return [OF _ reachable_call_inv [OF return(1)]] by simp
qed

lemma streams_at_most:
  assumes "n \<le> retry_stream" "attempting p \<longrightarrow> n < retry_stream"
  shows "streams_at p n \<le> retry_stream"
  using assms by (cases p) simp_all

lemma streams_inv_bound:
  assumes "streams_inv st" "call_inv (tutorial_program tid) st"
  shows "cs_streams (ps_client st) \<le> retry_stream"
proof (cases "ps_call st")
  case None
  then show ?thesis
    using assms(1) streams_at_most [of "tm_count_retry (ps_locals st)" "ps_pc st"]
    by (simp add: streams_inv_def Let_def)
next
  case (Some k)
  show ?thesis
  proof (cases k)
    case (In_register c)
    then have "attempting (ps_pc st)"
      using assms(2) Some by (cases "ps_pc st") (auto simp: call_inv_def)
    then show ?thesis
      using assms(1) Some In_register by (auto simp: streams_inv_def Let_def split: if_splits)
  next
    case (In_close p)
    then show ?thesis
      using assms(1) Some streams_at_most [of "tm_count_retry (ps_locals st)" "ps_pc st"]
      by (simp add: streams_inv_def Let_def)
  qed
qed

section \<open>Runs\<close>

text \<open>The start of every run here: both registrations succeed, and the program waits.\<close>

definition register_actions :: "program_action list" where
  "register_actions =
     [Do_command 0, Do_command 0, Do_client Main_acquire, Do_client Main_open, Do_client Main_release,
      Do_client Main_acquire, Do_client (Main_write True), Do_return, Do_command 0, Do_command 0,
      Do_client Main_acquire, Do_client (Main_write True), Do_return]"

definition stream_request :: subscribe_request where
  "stream_request = Some (sample_list (stream_rpc_args\<lparr>args_mode := STREAM\<rparr>)
     (map pbr_request_path (pbr_keys stream_counters)))"

lemma stream_request_built:
  "subscribe_request_helper None (stream_rpc_args\<lparr>args_mode := STREAM\<rparr>)
     \<lparr>rsa_prefix = path_origin, paths_of_interest = get_gnmi_paths (pbr_keys stream_counters)\<rparr> =
   ([], stream_request, SUCCESS)"
proof -
  have "list_all servable (pbr_keys stream_counters)"
    by (simp add: stream_counters_def servable_def plain_key_def pbr_key_path_def path_origin_def)
  then show ?thesis
    unfolding stream_request_def
    by (intro subscribe_request_helper_keys) (simp_all add: stream_rpc_args_def default_rpc_args_def)
qed

lemma register_enter_tutorial:
  "cs_interface s = Some (PbrCounters stream_counters) \<Longrightarrow>
   register_enter pbr_basic_vt x stream_rpc_args s =
     s\<lparr>cs_main := (if \<not> cs_joinable s then Reg_lock_open x stream_request
                   else Reg_lock_write stream_request)\<rparr>"
  by (simp add: register_enter_def counters_name_def stream_request_built emit_def)

definition waiting_client :: "client_event list \<Rightarrow> pbr_basic client_state" where
  "waiting_client es =
     \<lparr>cs_interface = Some (PbrCounters stream_counters), cs_success_set = True, cs_failed_set = True,
      cs_mtx = None, cs_joinable = True, cs_ctx = Some (make_context (tutorial_context 0)),
      cs_rw = Some 0, cs_streams = 1, cs_main = Main_idle, cs_rx = Rx_read, cs_events = es,
      cs_fault = None\<rparr>"

definition registered_events :: "client_event list" where
  "registered_events =
     [Ev_subscribe 0 (make_context (tutorial_context 0)), Ev_write 0 stream_request True,
      Ev_log (''Subscribe Stream Request: Write operation succeeded'', INFO),
      Ev_registered RPC_SUCCESS, Ev_write 0 stream_request True,
      Ev_log (''Subscribe Stream Request: Write operation succeeded'', INFO),
      Ev_registered RPC_SUCCESS]"

definition waiting_state :: "(pbr_basic, tutorial_locals, tutorial_pc) program_state" where
  "waiting_state =
     \<lparr>ps_client = waiting_client registered_events, ps_locals = tutorial_start 0, ps_pc = Tut_wait,
      ps_call = None, ps_alive = True, ps_fault = None\<rparr>"

lemma run_to_wait:
  "program_run japi pbr_basic_vt (tutorial_program tid) register_actions
     (program_initial (Some (PbrCounters stream_counters)) (tutorial_start 0) Tut_loop) =
   Some waiting_state"
  by (simp add: register_actions_def program_simps program_initial_def program_client_def
      client_initial_def register_enter_tutorial tutorial_head_def tutorial_check_def tutorial_start_def
      tutorial_context_def waiting_state_def waiting_client_def registered_events_def)

lemma waiting_reachable: "tutorial_reachable japi tid 0 waiting_state"
  using run_to_wait by (rule program_run_initial)

lemma samples_handled:
  assumes "receiving st" "ps_alive st"
    and "tq_count (tm_queue (ps_locals st)) = 0"
    and "tq_deque (tm_queue (ps_locals st)) = []" "k \<le> number_of_responses"
  shows "\<exists>st'. program_run number_json pbr_basic_vt (tutorial_program tid)
      (concat (replicate k sample_actions)) st = Some st' \<and>
    receiving st' \<and> ps_alive st' \<and> ps_pc st' = ps_pc st \<and> ps_call st' = ps_call st \<and>
    tq_count (tm_queue (ps_locals st')) = k \<and>
    tq_deque (tm_queue (ps_locals st')) = (if k = number_of_responses then [(False, ok_status)] else [])"
  using assms(5)
proof (induction k)
  case 0
  then show ?case using assms(1-4) by (simp add: number_of_responses_def)
next
  case (Suc k)
  then obtain st1 where st1: "program_run number_json pbr_basic_vt (tutorial_program tid)
      (concat (replicate k sample_actions)) st = Some st1"
    "receiving st1" "ps_alive st1" "ps_pc st1 = ps_pc st" "ps_call st1 = ps_call st"
    "tq_count (tm_queue (ps_locals st1)) = k" "tq_deque (tm_queue (ps_locals st1)) = []"
    by auto
  obtain st' where run: "program_run number_json pbr_basic_vt (tutorial_program tid) sample_actions st1 =
      Some st'" and st': "handled (tutorial_program tid) st1 st'"
    using sample_handled_program [OF st1(2)] by blast
  have actions: "concat (replicate (Suc k) sample_actions) =
      concat (replicate k sample_actions) @ sample_actions"
    by (simp flip: replicate_append_same)
  have "program_run number_json pbr_basic_vt (tutorial_program tid)
      (concat (replicate (Suc k) sample_actions)) st = Some st'"
    unfolding actions by (simp add: program_run_append st1(1) run)
  then show ?case
    using st' st1 Suc.prems by (auto simp: handled_def tutorial_success_def Let_def)
qed

section \<open>Properties of the composed program\<close>

text \<open>
  C36: in every interleaving the stream tutorial opens at most five streams, and it begins an attempt
  only when the stream of the attempt before is over: no receive thread exists, and every stream
  opened so far has been half-closed and finished.
\<close>

theorem stream_tutorial_streams_bounded:
  assumes "tutorial_reachable japi tid now st"
  shows "cs_streams (ps_client st) \<le> 5 \<and> tm_count_retry (ps_locals st) \<le> 5 \<and>
    (ps_call st = None \<and> ps_pc st \<in> {Tut_loop, Tut_register} \<longrightarrow>
       \<not> cs_joinable (ps_client st) \<and> cs_rx (ps_client st) = Rx_none \<and>
       (\<forall>n < cs_streams (ps_client st).
          phase_of n (cs_events (ps_client st)) = Some Finished))"
proof -
  have "cs_streams (ps_client st) \<le> 5"
    using streams_inv_bound [OF reachable_streams_inv [OF assms] reachable_call_inv [OF assms]] by simp
  moreover have "tm_count_retry (ps_locals st) \<le> 5"
    using reachable_streams_inv [OF assms] by (simp add: streams_inv_def Let_def)
  moreover have "\<not> cs_joinable (ps_client st) \<and> cs_rx (ps_client st) = Rx_none"
    if "ps_call st = None" "ps_pc st \<in> {Tut_loop, Tut_register}"
    using tutorial.closed_at_marked_points [OF assms _ that(1)] that(2) by auto
  moreover have "phase_of n (cs_events (ps_client st)) = Some Finished"
    if "cs_rx (ps_client st) = Rx_none" "n < cs_streams (ps_client st)" for n
    using reachable_phase [OF program_client_reachable [OF assms]] that
    by (simp add: stream_phase_of_def phase_at_def)
  ultimately show ?thesis by blast
qed

theorem stream_tutorial_streams_bounded_witness:
  "cs_streams (ps_client waiting_state) = 1 \<and> cs_streams (ps_client waiting_state) \<le> 5"
  using stream_tutorial_streams_bounded [OF waiting_reachable [of number_json "''1''"]]
  by (simp add: waiting_state_def waiting_client_def)

text \<open>
  C35: a handler of the stream tutorial uses destroyed variables only after the limit of responses. When
  a handler runs after the locals it captured were destroyed, the loop was left at the limit of ten
  responses, the only way out that does not close the stream, and the main thread is in or before
  the destructor of the client.
\<close>

theorem stream_tutorial_dangling_only_at_limit:
  assumes "tutorial_reachable japi tid now st" "ps_fault st \<noteq> None"
  shows "ps_pc st \<in> {Tut_destructor True, Tut_end True} \<and>
    number_of_responses \<le> success_calls (cs_events (ps_client st))"
proof -
  have pc: "ps_pc st \<in> {Tut_destructor True, Tut_end True}"
    using tutorial.dangling_only_if_left_open [OF assms(1) _ assms(2)] by (cases "ps_pc st") auto
  then show ?thesis
    using reachable_tutorial_inv [OF assms(1)] by (auto simp: tutorial_inv_def queue_inv_def)
qed

text \<open>Ten samples, and the loop is left; then the end of the scope, and one more sample.\<close>

lemma run_to_limit:
  "\<exists>st. tutorial_reachable number_json tid 0 st \<and> receiving st \<and> ps_alive st \<and> ps_call st = None \<and>
     ps_pc st = Tut_leave True"
proof -
  have "receiving waiting_state" "ps_alive waiting_state"
    "tq_count (tm_queue (ps_locals waiting_state)) = 0"
    "tq_deque (tm_queue (ps_locals waiting_state)) = []"
    "ps_pc waiting_state = Tut_wait" "ps_call waiting_state = None"
    by (simp_all add: waiting_state_def waiting_client_def receiving_def counters_of_def tutorial_start_def)
  with samples_handled [of waiting_state number_of_responses tid] obtain st1 where
    st1: "program_run number_json pbr_basic_vt (tutorial_program tid)
      (concat (replicate number_of_responses sample_actions)) waiting_state = Some st1"
    "receiving st1" "ps_alive st1" "ps_pc st1 = Tut_wait" "ps_call st1 = None"
    "tq_deque (tm_queue (ps_locals st1)) = [(False, ok_status)]"
    by auto
  let ?left = "[Do_command 0, Do_command 0]"
  obtain st2 where st2: "program_run number_json pbr_basic_vt (tutorial_program tid) ?left st1 = Some st2"
    "receiving st2" "ps_alive st2" "ps_call st2 = None" "ps_pc st2 = Tut_leave True"
    using st1(2-6) by (simp add: program_act_def program_command_def tutorial_pop_def
        tutorial_branch_def tutorial_item_def logged_def map_filter_simps receiving_def)
  from program_run_reachable [OF program_run_reachable [OF waiting_reachable st1(1)] st2(1)] st2
  show ?thesis by blast
qed

lemma run_to_dangling:
  "\<exists>st. tutorial_reachable number_json tid 0 st \<and> ps_fault st = Some dangling_locals"
proof -
  obtain st1 where st1: "tutorial_reachable number_json tid 0 st1" "receiving st1" "ps_call st1 = None"
    "ps_pc st1 = Tut_leave True"
    using run_to_limit by blast
  obtain st2 where st2: "program_run number_json pbr_basic_vt (tutorial_program tid) [Do_command 0] st1 = Some st2"
    "receiving st2" "\<not> ps_alive st2"
    using st1(2-4) by (simp add: program_act_def program_command_def receiving_def)
  obtain st3 where st3: "program_run number_json pbr_basic_vt (tutorial_program tid) sample_actions st2 = Some st3"
    "ps_fault st3 = Some dangling_locals"
    using sample_handled_program [OF st2(2), of "tutorial_program tid"] st2(3) by (auto simp: handled_def)
  from program_run_reachable [OF program_run_reachable [OF st1(1) st2(1)] st3(1)] st3(2)
  show ?thesis by blast
qed

theorem stream_tutorial_dangling_only_at_limit_witness:
  "\<exists>st. tutorial_reachable number_json ''1'' 0 st \<and> ps_fault st = Some dangling_locals \<and>
     10 \<le> success_calls (cs_events (ps_client st))"
proof -
  obtain st where st: "tutorial_reachable number_json ''1'' 0 st" "ps_fault st = Some dangling_locals"
    using run_to_dangling by blast
  have "number_of_responses \<le> success_calls (cs_events (ps_client st))"
    using stream_tutorial_dangling_only_at_limit [OF st(1)] st(2) by simp
  then show ?thesis using st by (auto simp: number_of_responses_def)
qed

text \<open>
  The stream tutorial is stuck after a stream that ends quietly. When it waits, the receive thread
  has ended, every failure of a stream so far was followed by a retry and fewer than ten responses
  were handled, then the queue is empty and no step of any thread is possible: nothing will ever
  wake the program.
\<close>

lemma stream_tutorial_stuck_on_quiet_end:
  assumes "tutorial_reachable japi tid now st"
    and "ps_pc st = Tut_wait" "ps_call st = None" "cs_rx (ps_client st) = Rx_done"
    and "cs_fault (ps_client st) = None"
    and "length (failures (cs_events (ps_client st))) \<le> tm_count_retry (ps_locals st)"
    and "success_calls (cs_events (ps_client st)) < number_of_responses"
  shows "tq_deque (tm_queue (ps_locals st)) = [] \<and>
    (\<forall>a. program_act japi pbr_basic_vt (tutorial_program tid) a st = None)"
proof
  have "failed_calls (cs_events (ps_client st)) = failures (cs_events (ps_client st))"
    using reachable_reported [OF program_client_reachable [OF assms(1)]] assms(4,5)
    by (simp add: reported_inv_def)
  then have "length (tq_deque (tm_queue (ps_locals st))) + tm_count_retry (ps_locals st) \<le>
      length (failures (cs_events (ps_client st)))"
    using reachable_tutorial_inv [OF assms(1)] assms(2,7)
    by (simp add: tutorial_inv_def queue_inv_def)
  then have "length (tq_deque (tm_queue (ps_locals st))) = 0"
    using assms(6) by linarith
  then show empty: "tq_deque (tm_queue (ps_locals st)) = []" by simp
  show "\<forall>a. program_act japi pbr_basic_vt (tutorial_program tid) a st = None"
    by (intro allI, rule waiting_stuck [OF reachable_call_inv [OF assms(1)] assms(3,4)])
      (simp add: assms(2), simp add: empty)
qed

definition quiet_actions :: "program_action list" where
  "quiet_actions = map Do_client (end_actions ok_status)"

lemma run_to_quiet:
  "\<exists>st. program_run number_json pbr_basic_vt (tutorial_program tid) quiet_actions waiting_state = Some st \<and>
     ps_pc st = Tut_wait \<and> ps_call st = None \<and> cs_rx (ps_client st) = Rx_done \<and>
     cs_fault (ps_client st) = None \<and> ps_fault st = None \<and>
     failures (cs_events (ps_client st)) = [] \<and> tm_count_retry (ps_locals st) = 0 \<and>
     success_calls (cs_events (ps_client st)) = 0"
  by (simp add: quiet_actions_def end_actions_def waiting_state_def waiting_client_def program_simps
      rx_read_def rx_writes_done_def rx_finish_def rx_status_def scripted_status failing_def
      registered_events_def tutorial_start_def)

lemma stream_tutorial_stuck_on_quiet_end_example:
  "\<exists>st. tutorial_reachable number_json ''1'' 0 st \<and> ps_pc st = Tut_wait \<and>
     (\<forall>a. program_act number_json pbr_basic_vt (tutorial_program ''1'') a st = None)"
proof -
  obtain st where run: "program_run number_json pbr_basic_vt (tutorial_program ''1'') quiet_actions
      waiting_state = Some st"
    and st: "ps_pc st = Tut_wait" "ps_call st = None" "cs_rx (ps_client st) = Rx_done"
      "cs_fault (ps_client st) = None" "failures (cs_events (ps_client st)) = []"
      "tm_count_retry (ps_locals st) = 0" "success_calls (cs_events (ps_client st)) = 0"
    using run_to_quiet by blast
  have reach: "tutorial_reachable number_json ''1'' 0 st"
    by (rule program_run_reachable [OF waiting_reachable run])
  have "length (failures (cs_events (ps_client st))) \<le> tm_count_retry (ps_locals st)"
    "success_calls (cs_events (ps_client st)) < number_of_responses"
    using st(5-7) by (simp_all add: number_of_responses_def)
  from stream_tutorial_stuck_on_quiet_end [OF reach st(1-4) this] reach st(1) show ?thesis by blast
qed

end
