(* ===== verification/Stream_Requests.thy ===== *)
theory Stream_Requests
  imports Client_Stream
begin

text \<open>
  The requests a streaming client sends: over a whole run, whatever the receive thread does between the
  calls, the writes of the history are those of the registrations, in order, each with the request
  built from its own arguments and the keys of the object, and each call returns what its write
  answered.
\<close>

section \<open>Writes and returns of a history\<close>

definition written_requests :: "client_event list \<Rightarrow> subscribe_request list" where
  "written_requests es = List.map_filter (\<lambda>e. case e of Ev_write n r b \<Rightarrow> Some r | _ \<Rightarrow> None) es"

definition write_answers :: "client_event list \<Rightarrow> bool list" where
  "write_answers es = List.map_filter (\<lambda>e. case e of Ev_write n r b \<Rightarrow> Some b | _ \<Rightarrow> None) es"

definition returned_codes :: "client_event list \<Rightarrow> error_code list" where
  "returned_codes es = List.map_filter (\<lambda>e. case e of Ev_registered code \<Rightarrow> Some code | _ \<Rightarrow> None) es"

definition register_args :: "client_action list \<Rightarrow> rpc_args list" where
  "register_args as = List.map_filter (\<lambda>a. case a of Call_register x args \<Rightarrow> Some args | _ \<Rightarrow> None) as"

definition register_request :: "('c, 's) pbr_vtable \<Rightarrow> 'c \<Rightarrow> rpc_args \<Rightarrow> subscribe_request" where
  "register_request vt c args =
     (let (_, request, _) = subscribe_request_helper None (args\<lparr>args_mode := STREAM\<rparr>)
            \<lparr>rsa_prefix = path_origin, paths_of_interest = vt_paths vt c\<rparr>
      in request)"

definition write_code :: "bool \<Rightarrow> error_code" where
  "write_code b = (if b then RPC_SUCCESS else WRITES_FAILED)"

fun pending_request :: "main_pc \<Rightarrow> subscribe_request list" where
  "pending_request (Reg_lock_open x r) = [r]"
| "pending_request (Reg_open x r) = [r]"
| "pending_request (Reg_unlock r) = [r]"
| "pending_request (Reg_lock_write r) = [r]"
| "pending_request (Reg_write r) = [r]"
| "pending_request _ = []"

lemma history_simps [simp]:
  "written_requests [] = []" "write_answers [] = []" "returned_codes [] = []"
  "written_requests (es @ es') = written_requests es @ written_requests es'"
  "write_answers (es @ es') = write_answers es @ write_answers es'"
  "returned_codes (es @ es') = returned_codes es @ returned_codes es'"
  "written_requests (map Ev_log ls) = []" "write_answers (map Ev_log ls) = []"
  "returned_codes (map Ev_log ls) = []"
  by (simp_all add: written_requests_def write_answers_def returned_codes_def map_filter_def comp_def)

lemma history_Cons [simp]:
  "written_requests (e # es) = (case e of Ev_write n r b \<Rightarrow> [r] | _ \<Rightarrow> []) @ written_requests es"
  "write_answers (e # es) = (case e of Ev_write n r b \<Rightarrow> [b] | _ \<Rightarrow> []) @ write_answers es"
  "returned_codes (e # es) = (case e of Ev_registered code \<Rightarrow> [code] | _ \<Rightarrow> []) @ returned_codes es"
  by (simp_all add: written_requests_def write_answers_def returned_codes_def map_filter_simps
      split: client_event.split)

lemma register_args_simps [simp]:
  "register_args [] = []"
  "register_args (as @ bs) = register_args as @ register_args bs"
  "register_args (a # as) = (case a of Call_register x args \<Rightarrow> [args] | _ \<Rightarrow> []) @ register_args as"
  by (simp_all add: register_args_def map_filter_def comp_def split: client_action.split)

lemma register_request_keys:
  assumes "list_all servable (pbr_keys c)" "decodable (args_encoding args)"
  shows "register_request pbr_basic_vt c args =
    Some (sample_list (args\<lparr>args_mode := STREAM\<rparr>) (map pbr_request_path (pbr_keys c)))"
  using assms by (simp add: register_request_def subscribe_request_helper_keys decodable_def)

section \<open>One write per registration\<close>

lemma acquired_pending: "acquired pc = Some pc' \<Longrightarrow> pending_request pc' = pending_request pc"
  by (cases pc) auto

context pbr_base
begin

text \<open>The object stays the one the client was made for, with its name and its paths.\<close>

definition same_object :: "'c \<Rightarrow> 'c client_state \<Rightarrow> bool" where
  "same_object c0 s \<longleftrightarrow>
     (\<exists>c. cs_interface s = Some (PbrCounters c) \<and> vt_name vt c = vt_name vt c0 \<and>
        vt_paths vt c = vt_paths vt c0)"

lemma act_rx_same_object:
  assumes "same_object c0 s" "act_rx japi vt a s = Some s'"
  shows "same_object c0 s'"
  using assms(2)
proof (cases rule: act_rx_cases)
  case (response r)
  obtain c where c: "cs_interface s = Some (PbrCounters c)" "vt_name vt c = vt_name vt c0"
    "vt_paths vt c = vt_paths vt c0"
    using assms(1) by (auto simp: same_object_def)
  have "vt_name vt c' = vt_name vt c0 \<and> vt_paths vt c' = vt_paths vt c0"
    if "vt_add_stats vt p c = (l', c')" for p l' c'
    using add_keeps_name [of p c] add_keeps_paths [of p c] that c by simp
  then show ?thesis
    using c response by (auto simp: rx_response_def same_object_def emit_def fail_with_def Let_def
        split: prod.splits sum.splits)
qed (use assms(1) in \<open>auto simp: rx_read_def rx_writes_done_def rx_finish_def rx_status_def
    same_object_def emit_def fail_with_def Let_def split: option.splits\<close>)

lemma act_rx_requests:
  assumes "act_rx japi vt a s = Some s'"
  shows "written_requests (cs_events s') = written_requests (cs_events s) \<and>
    write_answers (cs_events s') = write_answers (cs_events s) \<and>
    returned_codes (cs_events s') = returned_codes (cs_events s) \<and> cs_main s' = cs_main s"
  using assms
proof (cases rule: act_rx_cases)
  case (response r)
  then show ?thesis
    by (auto simp: rx_response_def emit_def fail_with_def Let_def
        split: option.splits gnmi_counters.splits prod.splits sum.splits)
qed (auto simp: rx_read_def rx_writes_done_def rx_finish_def rx_status_def emit_def fail_with_def Let_def
    split: option.splits)

lemma act_main_requests:
  assumes "same_object c0 s" "vt_name vt c0 = ''pbr''" "stream_inv s" "act_main vt a s = Some s'"
  shows "written_requests (cs_events s') @ pending_request (cs_main s') =
      written_requests (cs_events s) @ pending_request (cs_main s) @
      map (register_request vt c0) (register_args [a])"
    and "returned_codes (cs_events s) = map write_code (write_answers (cs_events s)) \<Longrightarrow>
      returned_codes (cs_events s') = map write_code (write_answers (cs_events s'))"
    and "same_object c0 s'"
proof -
  obtain c where c: "cs_interface s = Some (PbrCounters c)" "vt_name vt c = ''pbr''"
    "vt_paths vt c = vt_paths vt c0"
    using assms(1,2) by (auto simp: same_object_def)
  show "same_object c0 s'"
    using assms(1) act_main_interface [OF assms(4)] by (simp add: same_object_def)
  have "(written_requests (cs_events s') @ pending_request (cs_main s') =
      written_requests (cs_events s) @ pending_request (cs_main s) @
      map (register_request vt c0) (register_args [a])) \<and>
    (returned_codes (cs_events s) = map write_code (write_answers (cs_events s)) \<longrightarrow>
      returned_codes (cs_events s') = map write_code (write_answers (cs_events s')))"
    using assms(3,4) c
    by (cases a) (auto simp: act_main_def register_enter_def register_open_def register_write_def
        close_enter_def close_cancel_def close_joined_def close_reset_def counters_name_def
        register_request_def write_code_def stream_inv_def emit_def fail_with_def acquired_pending Let_def
        split: if_splits option.splits main_pc.splits prod.splits)
  then show "written_requests (cs_events s') @ pending_request (cs_main s') =
      written_requests (cs_events s) @ pending_request (cs_main s) @
      map (register_request vt c0) (register_args [a])"
    and "returned_codes (cs_events s) = map write_code (write_answers (cs_events s)) \<Longrightarrow>
      returned_codes (cs_events s') = map write_code (write_answers (cs_events s'))"
    by blast+
qed

end


text \<open>The invariant of a run, by induction on its end.\<close>

definition requests_inv :: "('c, 's) pbr_vtable \<Rightarrow> 'c \<Rightarrow> client_action list \<Rightarrow> 'c client_state \<Rightarrow> bool" where
  "requests_inv vt c0 as s \<longleftrightarrow>
     written_requests (cs_events s) @ pending_request (cs_main s) =
       map (register_request vt c0) (register_args as) \<and>
     returned_codes (cs_events s) = map write_code (write_answers (cs_events s))"

context pbr_base
begin

lemma client_act_requests:
  assumes "requests_inv vt c0 as s" "same_object c0 s" "vt_name vt c0 = ''pbr''" "stream_inv s"
    and "client_act japi vt a s = Some s'"
  shows "requests_inv vt c0 (as @ [a]) s'" "same_object c0 s'"
proof -
  have "requests_inv vt c0 (as @ [a]) s' \<and> same_object c0 s'"
    using assms(5)
  proof (cases rule: client_act_cases)
    case main
    then show ?thesis
      using act_main_requests [OF assms(2-4) main(3)] assms(1) by (simp add: requests_inv_def)
  next
    case rx
    then have "register_args [a] = []" by (cases a) (simp_all add: is_main_def)
    then show ?thesis
      using act_rx_requests [OF rx(3)] act_rx_same_object [OF assms(2) rx(3)] assms(1)
      by (simp add: requests_inv_def del: register_args_simps(3))
  qed
  then show "requests_inv vt c0 (as @ [a]) s'" "same_object c0 s'" by blast+
qed

lemma client_run_requests:
  assumes "vt_name vt c0 = ''pbr''"
    and "client_run japi vt as (client_initial (Some (PbrCounters c0))) = Some s"
  shows "requests_inv vt c0 as s \<and> same_object c0 s"
  using assms(2)
proof (induction as arbitrary: s rule: rev_induct)
  case Nil
  then show ?case by (auto simp: requests_inv_def same_object_def client_initial_def)
next
  case (snoc a as)
  then obtain s1 where s1: "client_run japi vt as (client_initial (Some (PbrCounters c0))) = Some s1"
    "client_act japi vt a s1 = Some s"
    by (auto simp: run_append split: option.splits)
  have "stream_inv s1" using reachable_inv [OF client_run_initial [OF s1(1)]] by simp
  with client_act_requests snoc.IH [OF s1(1)] assms(1) s1(2) show ?case by blast
qed

end

section \<open>Properties of the requests\<close>

text \<open>
  C8: a stream carries exactly the requests that were registered. In every run of a client of servable
  keys, the requests written so far, and the one of a registration under way, are those of the
  registrations in order: each the sampled subscriptions to exactly the keys, in STREAM mode, with
  the encoding and the interval of its own call. Each registration that has returned wrote once, and
  returned SUCCESS exactly when the write succeeded.
\<close>

theorem stream_carries_registered_requests:
  assumes "client_run japi pbr_basic_vt as (client_initial (Some (PbrCounters c0))) = Some s"
    and "list_all servable (pbr_keys c0)"
    and "\<forall>args \<in> set (register_args as). decodable (args_encoding args)"
  shows "written_requests (cs_events s) @ pending_request (cs_main s) =
      map (\<lambda>args. Some (sample_list (args\<lparr>args_mode := STREAM\<rparr>) (map pbr_request_path (pbr_keys c0))))
        (register_args as) \<and>
    returned_codes (cs_events s) = map write_code (write_answers (cs_events s))"
proof -
  have "map (register_request pbr_basic_vt c0) (register_args as) =
      map (\<lambda>args. Some (sample_list (args\<lparr>args_mode := STREAM\<rparr>) (map pbr_request_path (pbr_keys c0))))
        (register_args as)"
    using register_request_keys [OF assms(2)] assms(3) by auto
  then show ?thesis
    using basic_counters.client_run_requests [OF _ assms(1)] by (simp add: requests_inv_def)
qed

theorem stream_carries_registered_requests_witness:
  "\<exists>s. run_sample (set_actions @ open_actions @ [Call_register sample_context default_rpc_args]) = Some s \<and>
     written_requests (cs_events s) @ pending_request (cs_main s) = [sample_request, sample_request] \<and>
     returned_codes (cs_events s) = [RPC_SUCCESS]"
proof -
  obtain s where s: "run_sample (set_actions @ open_actions @ [Call_register sample_context default_rpc_args]) = Some s"
    "write_answers (cs_events s) = [True]"
    using run_sample_append [OF run_opening, of "[Call_register sample_context default_rpc_args]"]
    by (simp add: run_simps)
  have run: "client_run number_json pbr_basic_vt
      (set_actions @ open_actions @ [Call_register sample_context default_rpc_args])
      (client_initial (Some (PbrCounters sample_counters))) = Some s"
    using s(1) by (simp add: run_sample_def sample_object_def)
  have "list_all servable (pbr_keys sample_counters)"
    by (simp add: sample_counters_def servable_key_p1_r3)
  moreover have "default_rpc_args\<lparr>args_mode := STREAM\<rparr> = default_rpc_args"
    by (simp add: default_rpc_args_def)
  ultimately have "written_requests (cs_events s) @ pending_request (cs_main s) = [sample_request, sample_request]"
    "returned_codes (cs_events s) = [RPC_SUCCESS]"
    using stream_carries_registered_requests [OF run] s(2)
    by (auto simp: set_actions_def open_actions_def sample_request_def sample_counters_def decodable_def
        default_rpc_args_def write_code_def)
  with s(1) show ?thesis by blast
qed

end
