(* ===== verification/Stream_Tutorial_Loop.thy ===== *)
theory Stream_Tutorial_Loop
  imports Stream_Tutorial_Run Stream_Requests
begin

text \<open>
  The composition of \<open>Stream_Tutorial_Run\<close> refines the loop of \<open>Stream_Tutorial\<close>: what the main thread of
  a run does, read off its states, is the beginning of a trace of the loop for some clock, some return
  codes and the entries it takes, and the whole of it when the program ends. The traces of the loop are
  those of a specification that names the statuses to retry.
\<close>

section \<open>What a run does\<close>

text \<open>
  What a statement of \<^verbatim>\<open>main\<close> does, read off the states before and after it: the call it makes and its
  context, the entry it takes from the queue, the messages it adds, the end of the scope. The sleep
  between two attempts changes nothing in the composition and is left out, here and (\<open>awake\<close>) in the
  traces of the loop.
\<close>

definition new_logs :: "tutorial_locals \<Rightarrow> tutorial_locals \<Rightarrow> log_entry list" where
  "new_logs q q' = drop (length (tq_logs (tm_queue q))) (tq_logs (tm_queue q'))"

definition observed ::
  "program_action \<Rightarrow> (pbr_basic, tutorial_locals, tutorial_pc) program_state \<Rightarrow>
     (pbr_basic, tutorial_locals, tutorial_pc) program_state \<Rightarrow> tutorial_action list" where
  "observed a st st' =
     (case a of
        Do_command now \<Rightarrow>
          (case tutorial_command (ps_pc st) of
             Register f k \<Rightarrow> [Do_register (fst (f (ps_locals st)))]
           | Close p \<Rightarrow> [Do_close]
           | Wait c g \<Rightarrow> [Do_take (hd (tq_deque (tm_queue (ps_locals st))))]
           | Local f \<Rightarrow> map Do_log (new_logs (ps_locals st) (ps_locals st'))
           | Destroy_locals p \<Rightarrow> [Do_destroy_locals]
           | Halt \<Rightarrow> [])
      | _ \<Rightarrow> [])"

lemma new_logs_simps [simp]:
  "tm_queue q' = tm_queue q \<Longrightarrow> new_logs q q' = []"
  "new_logs q (log_in_queue ls q) = ls"
  by (simp_all add: new_logs_def log_in_queue_def)

fun run_trace ::
  "'j json_api \<Rightarrow> string \<Rightarrow> program_action list \<Rightarrow>
     (pbr_basic, tutorial_locals, tutorial_pc) program_state \<Rightarrow> tutorial_action list" where
  "run_trace japi tid [] st = []"
| "run_trace japi tid (a # as) st =
     (case program_act japi pbr_basic_vt (tutorial_program tid) a st of
        None \<Rightarrow> []
      | Some st' \<Rightarrow> observed a st st' @ run_trace japi tid as st')"

lemma run_trace_snoc:
  assumes "program_run japi pbr_basic_vt (tutorial_program tid) as st = Some st1"
    and "program_act japi pbr_basic_vt (tutorial_program tid) a st1 = Some st2"
  shows "run_trace japi tid (as @ [a]) st = run_trace japi tid as st @ observed a st1 st2"
  using assms by (induction as arbitrary: st) (auto split: option.splits)

definition awake :: "tutorial_action list \<Rightarrow> tutorial_action list" where
  "awake as = filter (\<lambda>a. case a of Do_sleep _ \<Rightarrow> False | _ \<Rightarrow> True) as"

lemma awake_simps [simp]:
  "awake [] = []"
  "awake (as @ bs) = awake as @ awake bs"
  "awake (Do_sleep d # as) = awake as"
  "awake (Do_register x # as) = Do_register x # awake as"
  "awake (Do_take item # as) = Do_take item # awake as"
  "awake (Do_close # as) = Do_close # awake as"
  "awake (Do_log l # as) = Do_log l # awake as"
  "awake (Do_destroy_locals # as) = Do_destroy_locals # awake as"
  by (simp_all add: awake_def)

section \<open>Attempts of the loop\<close>

definition retried :: "tutorial_env \<Rightarrow> nat \<Rightarrow> bool" where
  "retried env n \<longleftrightarrow> (\<forall>k < n. snd (tutorial_attempt env k) = Retry)"

definition past :: "tutorial_env \<Rightarrow> nat \<Rightarrow> tutorial_action list list" where
  "past env n = map (\<lambda>k. fst (tutorial_attempt env k)) [0..<n]"

lemma past_Suc [simp]: "past env (Suc n) = past env n @ [fst (tutorial_attempt env n)]"
  by (simp add: past_def)

lemma tutorial_attempt_cong:
  "te_now env k = te_now env' k \<Longrightarrow> te_registered env k = te_registered env' k \<Longrightarrow>
   te_item env k = te_item env' k \<Longrightarrow> tutorial_attempt env k = tutorial_attempt env' k"
  by (simp add: tutorial_attempt_def cong: if_cong)

lemma earlier_attempts:
  assumes "\<And>k. k < n \<Longrightarrow> te_now env k = te_now env' k \<and> te_registered env k = te_registered env' k \<and>
      te_item env k = te_item env' k"
  shows "retried env n = retried env' n" "past env n = past env' n"
  using assms tutorial_attempt_cong [of env _ env'] by (auto simp: retried_def past_def)

lemma tutorial_loop_retried:
  "retried env n \<Longrightarrow> n \<le> retry_stream \<Longrightarrow>
   tutorial_loop env 0 = (past env n @ fst (tutorial_loop env n), snd (tutorial_loop env n))"
proof (induction n)
  case (Suc n)
  then have "retried env n" "snd (tutorial_attempt env n) = Retry" "n < retry_stream"
    by (auto simp: retried_def)
  then show ?case
    using Suc.IH by (simp add: tutorial_loop.simps [of env n] split: prod.splits)
qed (simp add: past_def)

lemma tutorial_loop_left:
  assumes "retried env n" "n < retry_stream" "snd (tutorial_attempt env n) \<noteq> Retry"
  shows "tutorial_loop env 0 = (past env (Suc n), snd (tutorial_attempt env n))"
  using tutorial_loop_retried [of env n] assms
  by (simp add: tutorial_loop.simps [of env n] split: prod.splits)

lemma tutorial_loop_next:
  assumes "retried env n" "n < retry_stream"
  shows "\<exists>rest. fst (tutorial_loop env 0) = past env n @ fst (tutorial_attempt env n) # rest"
  using tutorial_loop_retried [of env n] assms
  by (simp add: tutorial_loop.simps [of env n] split: prod.splits)


section \<open>The simulation\<close>

text \<open>
  How far the main thread is in its attempt: what it has done since the head of the loop, and what it
  knows of the attempt. \<open>called\<close> says whether the statement at the point has made its call.
\<close>

fun progress :: "tutorial_env \<Rightarrow> nat \<Rightarrow> tutorial_pc \<Rightarrow> bool \<Rightarrow> tutorial_action list" where
  "progress env n Tut_register called =
     (if called then [Do_register (tutorial_context (te_now env n))] else [])"
| "progress env n (Tut_checked err) called = [Do_register (tutorial_context (te_now env n))]"
| "progress env n Tut_second called =
     replicate (if called then 2 else 1) (Do_register (tutorial_context (te_now env n)))"
| "progress env n Tut_wait called = replicate 2 (Do_register (tutorial_context (te_now env n)))"
| "progress env n (Tut_item item) called =
     replicate 2 (Do_register (tutorial_context (te_now env n))) @ [Do_take item]"
| "progress env n (Tut_close nxt) called =
     (let as = awake (fst (tutorial_attempt env n)) in if called then as else butlast as)"
| "progress env n (Tut_closed nxt) called = awake (fst (tutorial_attempt env n))"
| "progress env n _ called = []"

fun knows :: "tutorial_env \<Rightarrow> nat \<Rightarrow> tutorial_pc \<Rightarrow> bool" where
  "knows env n (Tut_checked err) = (te_registered env n = err)"
| "knows env n Tut_second = (te_registered env n \<noteq> CLIENT_TYPE_FAILURE)"
| "knows env n Tut_wait = (te_registered env n \<noteq> CLIENT_TYPE_FAILURE)"
| "knows env n (Tut_item item) =
     (te_registered env n \<noteq> CLIENT_TYPE_FAILURE \<and> te_item env n = Some item)"
| "knows env n (Tut_close nxt) =
     (snd (tutorial_attempt env n) = nxt \<and> nxt \<noteq> Hang \<and>
      (\<exists>as. awake (fst (tutorial_attempt env n)) = as @ [Do_close]))"
| "knows env n (Tut_closed nxt) = (snd (tutorial_attempt env n) = nxt \<and> nxt \<noteq> Hang)"
| "knows env n _ = True"

text \<open>Behind the loop: what is done after the last attempt.\<close>

fun ending :: "tutorial_pc \<Rightarrow> bool \<Rightarrow> tutorial_action list option" where
  "ending (Tut_leave _) called = Some []"
| "ending (Tut_destructor _) called = Some (Do_destroy_locals # (if called then [Do_close] else []))"
| "ending (Tut_end _) called = Some [Do_destroy_locals, Do_close]"
| "ending _ called = None"

definition follows ::
  "tutorial_action list \<Rightarrow> tutorial_env \<Rightarrow> (pbr_basic, tutorial_locals, tutorial_pc) program_state \<Rightarrow> bool" where
  "follows tr env st \<longleftrightarrow>
     (let n = tm_count_retry (ps_locals st); pc = ps_pc st; called = ps_call st \<noteq> None in
      (\<exists>now. tm_context (ps_locals st) = tutorial_context now) \<and>
      (case ending pc called of
         Some as \<Rightarrow> snd (tutorial_loop env 0) \<noteq> Hang \<and> tr = awake (concat (fst (tutorial_loop env 0))) @ as
       | None \<Rightarrow>
           n \<le> retry_stream \<and> retried env n \<and> tr = awake (concat (past env n)) @ progress env n pc called \<and>
           (pc \<noteq> Tut_loop \<longrightarrow>
              n < retry_stream \<and> tm_context (ps_locals st) = tutorial_context (te_now env n) \<and>
              knows env n pc)))"

lemma follows_initial: "follows [] env (program_initial i (tutorial_start now) Tut_loop)"
  by (auto simp: follows_def program_initial_def tutorial_start_def retried_def past_def)

text \<open>What the receive thread does, and what the client does in a call, leaves the main thread there.\<close>

lemma client_part_loop_locals:
  assumes "client_part japi vt (tutorial_program tid) a st = Some st'"
  shows "tm_count_retry (ps_locals st') = tm_count_retry (ps_locals st) \<and>
    tm_context (ps_locals st') = tm_context (ps_locals st)"
  by (rule client_part_locals [OF assms, where I = "\<lambda>es q.
        tm_count_retry q = tm_count_retry (ps_locals st) \<and> tm_context q = tm_context (ps_locals st)"]) auto

lemma follows_client:
  assumes "follows tr env st" "client_part japi vt (tutorial_program tid) a st = Some st'"
  shows "follows tr env st'"
  using assms(1) client_part_same [OF assms(2)] client_part_loop_locals [OF assms(2)]
  by (simp add: follows_def Let_def cong: option.case_cong)

lemma follows_return:
  assumes "follows tr env st" "call_inv (tutorial_program tid) st" "program_return st = Some st'"
  shows "\<exists>env'. follows tr env' st'"
proof (cases "ps_pc st")
  case Tut_register
  let ?n = "tm_count_retry (ps_locals st)" and ?code = "registered_code (cs_events (ps_client st))"
  let ?env = "env\<lparr>te_registered := (te_registered env)(?n := ?code)\<rparr>"
  have st': "st' = st\<lparr>ps_call := None, ps_pc := Tut_checked ?code\<rparr>" "ps_call st \<noteq> None"
    using assms(2,3) Tut_register by (auto simp: program_return_def call_inv_def
        split: if_splits option.splits pending_call.splits)
  have "retried ?env ?n = retried env ?n" "past ?env ?n = past env ?n"
    by (rule earlier_attempts; simp)+
  then have "follows tr ?env st'"
    using assms(1) Tut_register st' by (auto simp: follows_def Let_def)
  then show ?thesis ..
qed (use assms in \<open>auto simp: program_return_def call_inv_def follows_def Let_def numeral_2_eq_2
    split: if_splits option.splits pending_call.splits\<close>)


text \<open>The statements. At the head of the loop and at the queue the environment gets a new entry.\<close>

lemma follows_head:
  assumes "follows tr env st" "ps_pc st = Tut_loop" "ps_call st = None"
    and "tutorial_head now (ps_locals st) = (q, p)"
  shows "\<exists>env'. follows tr env' (st\<lparr>ps_locals := q, ps_pc := p\<rparr>)"
proof (cases "tm_count_retry (ps_locals st) < retry_stream")
  case True
  let ?n = "tm_count_retry (ps_locals st)"
  let ?env = "env\<lparr>te_now := (te_now env)(?n := now)\<rparr>"
  have "retried ?env ?n = retried env ?n" "past ?env ?n = past env ?n"
    by (rule earlier_attempts; simp)+
  then have "follows tr ?env (st\<lparr>ps_locals := q, ps_pc := p\<rparr>)"
    using assms True by (auto simp: follows_def tutorial_head_def tutorial_context_def Let_def)
  then show ?thesis ..
next
  case False
  then have n: "tm_count_retry (ps_locals st) = retry_stream" "retried env retry_stream"
    using assms(1-3) by (auto simp: follows_def Let_def)
  have "tutorial_loop env 0 = (past env retry_stream, Leave)"
    using tutorial_loop_retried [OF n(2)] by (simp add: tutorial_loop.simps [of env 5])
  with n assms show ?thesis
    by (intro exI [of _ env]) (auto simp: follows_def tutorial_head_def Let_def)
qed

lemma follows_wait:
  assumes "follows tr env st" "ps_pc st = Tut_wait" "ps_call st = None"
    and "tutorial_pop (ps_locals st) = (q, p)"
  shows "\<exists>env'. follows (tr @ [Do_take (hd (tq_deque (tm_queue (ps_locals st))))]) env' (st\<lparr>ps_locals := q, ps_pc := p\<rparr>)"
proof -
  let ?n = "tm_count_retry (ps_locals st)"
  let ?env = "env\<lparr>te_item := (te_item env)(?n := Some (hd (tq_deque (tm_queue (ps_locals st)))))\<rparr>"
  have "retried ?env ?n = retried env ?n" "past ?env ?n = past env ?n"
    by (rule earlier_attempts; simp)+
  then have "follows (tr @ [Do_take (hd (tq_deque (tm_queue (ps_locals st))))]) ?env (st\<lparr>ps_locals := q, ps_pc := p\<rparr>)"
    using assms by (auto simp: follows_def tutorial_pop_def Let_def)
  then show ?thesis ..
qed

lemma tutorial_item_shape:
  assumes "tutorial_item item = (as, nxt)"
  shows "awake as = map Do_log (logged as) @ (if fst item then [Do_close] else [])"
    "fst item \<or> as = [] \<and> nxt = Leave"
  using assms by (auto simp: tutorial_item_def logged_def map_filter_simps Let_def split: if_splits)

lemma tm_context_log [simp]: "tm_context (log_in_queue ls q) = tm_context q"
  by (simp add: log_in_queue_def)

lemma follows_item:
  assumes "follows tr env st" "ps_pc st = Tut_item item" "ps_call st = None"
    and "tutorial_branch item (ps_locals st) = (q, p)"
  shows "follows (tr @ map Do_log (new_logs (ps_locals st) q)) env (st\<lparr>ps_locals := q, ps_pc := p\<rparr>)"
proof -
  let ?n = "tm_count_retry (ps_locals st)"
  let ?reg = "Do_register (tutorial_context (te_now env ?n))"
  obtain as nxt where item: "tutorial_item item = (as, nxt)" by fastforce
  have inv: "retried env ?n" "?n < retry_stream" "te_registered env ?n \<noteq> CLIENT_TYPE_FAILURE"
    "te_item env ?n = Some item" "tm_context (ps_locals st) = tutorial_context (te_now env ?n)"
    "tr = awake (concat (past env ?n)) @ [?reg, ?reg, Do_take item]"
    using assms(1-3) by (auto simp: follows_def Let_def numeral_2_eq_2)
  have attempt: "tutorial_attempt env ?n = ([?reg, ?reg, Do_take item] @ as, nxt)"
    using inv(3,4) by (simp add: tutorial_attempt_def item Let_def)
  note shape = tutorial_item_shape [OF item] and nxt = tutorial_item_next(2) [OF item]
  show ?thesis
  proof (cases "fst item")
    case True
    have "q = log_in_queue (logged as) (ps_locals st)" "p = Tut_close nxt"
      using assms(4) True by (simp_all add: tutorial_branch_def item tutorial_item_next(1) [OF item])
    then show ?thesis
      using assms(3) inv attempt shape(1) nxt True
      by (auto simp: follows_def item Let_def butlast_append)
  next
    case False
    have "q = log_in_queue (logged as) (ps_locals st)" "p = Tut_leave True" "as = []" "nxt = Leave"
      using assms(4) False shape(2) by (simp_all add: tutorial_branch_def item tutorial_item_next(1) [OF item])
    then show ?thesis
      using assms(3) inv attempt tutorial_loop_left [OF inv(1,2)]
      by (auto simp: follows_def item Let_def logged_def)
  qed
qed

lemma follows_checked:
  assumes "follows tr env st" "ps_pc st = Tut_checked err" "ps_call st = None"
    and "tutorial_check err (ps_locals st) = (q, p)"
  shows "follows (tr @ map Do_log (new_logs (ps_locals st) q)) env (st\<lparr>ps_locals := q, ps_pc := p\<rparr>)"
  using assms by (auto simp: follows_def tutorial_check_def tutorial_attempt_def Let_def
      split: if_splits)

lemma follows_closed:
  assumes "follows tr env st" "ps_pc st = Tut_closed nxt" "ps_call st = None"
    and "tutorial_again nxt (ps_locals st) = (q, p)"
  shows "follows tr env (st\<lparr>ps_locals := q, ps_pc := p\<rparr>)"
proof -
  let ?n = "tm_count_retry (ps_locals st)"
  have inv: "retried env ?n" "?n < retry_stream" "snd (tutorial_attempt env ?n) = nxt" "nxt \<noteq> Hang"
    using assms(1-3) by (auto simp: follows_def Let_def)
  have "retried env (Suc ?n)" if "nxt = Retry"
    using inv that by (auto simp: retried_def less_Suc_eq)
  then show ?thesis
    using assms inv tutorial_loop_left [OF inv(1,2)]
    by (auto simp: follows_def tutorial_again_def Let_def split: if_splits)
qed

lemma follows_command:
  assumes "follows tr env st" "ps_call st = None"
    and "program_command japi vt (tutorial_program tid) now st = Some st'"
  shows "\<exists>env'. follows (tr @ observed (Do_command now) st st') env' st'"
proof (cases "pg_command (tutorial_program tid) (ps_pc st)")
  case (Register f k)
  from program_command_register [OF assms(3) Register] obtain s' where
    "st' = st\<lparr>ps_call := Some (In_register k), ps_client := s'\<rparr>" by blast
  then show ?thesis
    using Register assms(1,2) by (cases "ps_pc st")
      (auto simp: follows_def observed_def Let_def numeral_2_eq_2 intro!: exI [of _ env])
next
  case (Close p)
  from program_command_close [OF assms(3) Close] obtain s' where
    "st' = st\<lparr>ps_call := Some (In_close p), ps_client := s'\<rparr>" by blast
  then show ?thesis
    using Close assms(1,2) by (cases "ps_pc st")
      (auto simp: follows_def observed_def Let_def intro!: exI [of _ env])
next
  case (Local f)
  obtain q p where f: "f now (ps_locals st) = (q, p)" by fastforce
  then have st': "st' = st\<lparr>ps_locals := q, ps_pc := p\<rparr>"
    using assms(3) Local by (simp add: program_command_def)
  show ?thesis
  proof (cases "ps_pc st")
    case Tut_loop
    then show ?thesis
      using follows_head [OF assms(1) Tut_loop assms(2), of now q p] Local f st'
      by (auto simp: observed_def tutorial_head_def split: if_splits)
  next
    case (Tut_checked err)
    then show ?thesis
      using follows_checked [OF assms(1) Tut_checked assms(2), of q p] Local f st' by (auto simp: observed_def)
  next
    case (Tut_item item)
    then show ?thesis
      using follows_item [OF assms(1) Tut_item assms(2), of q p] Local f st' by (auto simp: observed_def)
  next
    case (Tut_closed nxt)
    then show ?thesis
      using follows_closed [OF assms(1) Tut_closed assms(2), of q p] Local f st'
      by (intro exI [of _ env]) (auto simp: observed_def tutorial_again_def split: if_splits)
  qed (use Local in simp_all)
next
  case (Wait c g)
  then have pc: "ps_pc st = Tut_wait" by (cases "ps_pc st") simp_all
  then show ?thesis
    using follows_wait [OF assms(1) pc assms(2)] assms(3)
    by (auto simp: program_command_def observed_def split: if_splits prod.splits)
next
  case (Destroy_locals p)
  then show ?thesis
    using assms by (cases "ps_pc st")
      (auto simp: program_command_def follows_def observed_def Let_def intro!: exI [of _ env])
next
  case Halt
  with assms(3) show ?thesis by (simp add: program_command_def)
qed


lemma follows_step:
  assumes "follows tr env st" "call_inv (tutorial_program tid) st"
    and "program_act japi pbr_basic_vt (tutorial_program tid) a st = Some st'"
  shows "\<exists>env'. follows (tr @ observed a st st') env' st'"
proof (cases a)
  case (Do_client b)
  then show ?thesis
    using assms follows_client by (fastforce simp: program_act_def observed_def split: if_splits)
next
  case (Do_command now)
  then show ?thesis
    using assms follows_command [OF assms(1)] by (auto simp: program_act_def split: if_splits)
next
  case Do_return
  then show ?thesis
    using assms follows_return [OF assms(1,2)] by (auto simp: program_act_def observed_def split: if_splits)
qed

lemma run_follows:
  assumes "program_run japi pbr_basic_vt (tutorial_program tid) as
      (program_initial (Some (PbrCounters stream_counters)) (tutorial_start now) Tut_loop) = Some st"
  shows "\<exists>env. follows (run_trace japi tid as
      (program_initial (Some (PbrCounters stream_counters)) (tutorial_start now) Tut_loop)) env st"
  using assms
proof (induction as arbitrary: st rule: rev_induct)
  case Nil
  then show ?case using follows_initial by auto
next
  case (snoc a as)
  then obtain st1 where st1: "program_run japi pbr_basic_vt (tutorial_program tid) as
      (program_initial (Some (PbrCounters stream_counters)) (tutorial_start now) Tut_loop) = Some st1"
    "program_act japi pbr_basic_vt (tutorial_program tid) a st1 = Some st"
    by (auto simp: program_run_append split: option.splits)
  have "call_inv (tutorial_program tid) st1"
    using program_run_initial [OF st1(1)] by (rule reachable_call_inv)
  then show ?case
    using snoc.IH [OF st1(1)] follows_step st1(2) run_trace_snoc [OF st1] by metis
qed

text \<open>What has been done in an attempt is the beginning of the attempt.\<close>

lemma progress_prefix:
  assumes "knows env n pc" "pc \<noteq> Tut_loop"
  shows "prefix (progress env n pc called) (awake (fst (tutorial_attempt env n)))"
  using assms
  by (cases pc) (auto simp: tutorial_attempt_def Let_def numeral_2_eq_2 prefixeq_butlast
      split: option.splits prod.splits)

lemma follows_prefix:
  assumes "follows tr env st"
  shows "prefix tr (awake (tutorial_trace env))"
proof (cases "ending (ps_pc st) (ps_call st \<noteq> None)")
  case (Some as)
  moreover have "prefix as [Do_destroy_locals, Do_close]"
    using Some by (cases "ps_pc st") (auto split: if_splits)
  ultimately show ?thesis
    using assms by (auto simp: follows_def tutorial_trace_def Let_def split: prod.splits)
next
  case None
  let ?n = "tm_count_retry (ps_locals st)"
  have inv: "retried env ?n" "?n \<le> retry_stream"
    "tr = awake (concat (past env ?n)) @ progress env ?n (ps_pc st) (ps_call st \<noteq> None)"
    "ps_pc st \<noteq> Tut_loop \<longrightarrow> ?n < retry_stream \<and> knows env ?n (ps_pc st)"
    using assms None by (auto simp: follows_def Let_def)
  have "prefix (awake (concat (fst (tutorial_loop env 0)))) (awake (tutorial_trace env))"
    by (simp add: tutorial_trace_def split: prod.split)
  moreover have "prefix tr (awake (concat (fst (tutorial_loop env 0))))"
  proof (cases "ps_pc st = Tut_loop")
    case True
    then show ?thesis using inv(3) tutorial_loop_retried [OF inv(1,2)] by simp
  next
    case False
    then obtain rest where "fst (tutorial_loop env 0) = past env ?n @ fst (tutorial_attempt env ?n) # rest"
      using tutorial_loop_next inv(1,4) by blast
    moreover have "prefix (progress env ?n (ps_pc st) (ps_call st \<noteq> None)) (awake (fst (tutorial_attempt env ?n)))"
      using progress_prefix False inv(4) by blast
    ultimately show ?thesis using inv(3) by (auto simp: prefix_def)
  qed
  ultimately show ?thesis using prefix_order.trans by blast
qed

section \<open>The specification\<close>

text \<open>
  What the tutorial may do with \<open>n\<close> attempts left, stated without its code: it registers twice, unless
  the first registration says that the client is of another type, and takes one entry. An entry of the
  success handler ends the program with the stream open; a failure is logged and the stream closed,
  and only for UNAVAILABLE (14) and UNAUTHENTICATED (16) is there another attempt, if any is left.
\<close>

definition failure_text :: "grpc_status \<Rightarrow> string" where
  "failure_text st =
     (if status_code st = 4 then stop_message ''Stream stopped due to deadline exceeded'' st
      else if status_code st = 14 then stop_message ''Stream retry due to Unavailable error'' st
      else if status_code st = 16 then stop_message ''Stream stopped due to Unauthentication error'' st
      else ''Stream stopped for other reason. Let's quit this'')"

inductive tutorial_words :: "nat \<Rightarrow> tutorial_action list \<Rightarrow> bool" where
  words_none: "tutorial_words 0 [Do_destroy_locals, Do_close]"
| words_unsupported: "x = tutorial_context now \<Longrightarrow>
    tutorial_words (Suc n) [Do_register x, Do_log (''Error: Using unsupported client type'', ERROR),
      Do_close, Do_destroy_locals, Do_close]"
| words_limit: "x = tutorial_context now \<Longrightarrow>
    tutorial_words (Suc n) [Do_register x, Do_register x, Do_take (False, st), Do_destroy_locals, Do_close]"
| words_retry: "x = tutorial_context now \<Longrightarrow> status_code st = 14 \<or> status_code st = 16 \<Longrightarrow>
    tutorial_words n w \<Longrightarrow>
    tutorial_words (Suc n) ([Do_register x, Do_register x, Do_take (True, st),
      Do_log (failure_text st, ERROR), Do_close] @ w)"
| words_stop: "x = tutorial_context now \<Longrightarrow> status_code st \<noteq> 14 \<Longrightarrow> status_code st \<noteq> 16 \<Longrightarrow>
    tutorial_words (Suc n) [Do_register x, Do_register x, Do_take (True, st),
      Do_log (failure_text st, ERROR), Do_close, Do_destroy_locals, Do_close]"

lemma words_some: "\<exists>w. tutorial_words n w"
  by (cases n) (auto intro: words_none words_limit)

lemma words_hang: "\<exists>w. tutorial_words (Suc n) ([Do_register (tutorial_context now), Do_register (tutorial_context now)] @ w)"
  using words_limit [OF refl, of n now] by auto

text \<open>The code decides as the specification does.\<close>

lemma tutorial_item_decides:
  "tutorial_item (True, st) =
     ([Do_log (failure_text st, ERROR), Do_close] @ (if status_code st = 14 then [Do_sleep (seconds 5)] else []),
      if status_code st = 14 \<or> status_code st = 16 then Retry else Leave)"
  "tutorial_item (False, st) = ([], Leave)"
  by (simp_all add: tutorial_item_def failure_text_def deadline_exceeded_def unavailable_code_def
      unauthenticated_def Let_def)

lemma attempt_words:
  assumes "tutorial_attempt env k = (as, nxt)"
  shows "nxt = Retry \<Longrightarrow> tutorial_words n w \<Longrightarrow> tutorial_words (Suc n) (awake as @ w)"
    and "nxt = Leave \<Longrightarrow> tutorial_words (Suc n) (awake as @ [Do_destroy_locals, Do_close])"
    and "nxt = Hang \<Longrightarrow> \<exists>w. tutorial_words (Suc n) (awake as @ w)"
proof -
  note attempt = assms [unfolded tutorial_attempt_def Let_def]
  note words = words_unsupported [OF refl] words_limit [OF refl] words_retry [OF refl, simplified]
    words_stop [OF refl] words_hang
  consider (unsupported) "te_registered env k = CLIENT_TYPE_FAILURE"
    | (hangs) "te_registered env k \<noteq> CLIENT_TYPE_FAILURE" "te_item env k = None"
    | (failed) st where "te_registered env k \<noteq> CLIENT_TYPE_FAILURE" "te_item env k = Some (True, st)"
    | (limit) st where "te_registered env k \<noteq> CLIENT_TYPE_FAILURE" "te_item env k = Some (False, st)"
    by (cases "te_item env k") auto
  note attempt_cases = this
  show "tutorial_words (Suc n) (awake as @ w)" if "nxt = Retry" "tutorial_words n w"
    using attempt_cases by cases
      (use attempt that words in \<open>auto simp: tutorial_item_decides split: if_splits\<close>)
  show "tutorial_words (Suc n) (awake as @ [Do_destroy_locals, Do_close])" if "nxt = Leave"
    using attempt_cases by cases
      (use attempt that words in \<open>auto simp: tutorial_item_decides split: if_splits\<close>)
  show "\<exists>w. tutorial_words (Suc n) (awake as @ w)" if "nxt = Hang"
    using attempt_cases by cases
      (use attempt that words in \<open>auto simp: tutorial_item_decides split: if_splits\<close>)
qed

lemma loop_words:
  "\<exists>w. tutorial_words (retry_stream - n) (awake (concat (fst (tutorial_loop env n))) @ w) \<and>
     (snd (tutorial_loop env n) \<noteq> Hang \<longrightarrow> w = [Do_destroy_locals, Do_close])"
proof (induction "retry_stream - n" arbitrary: n)
  case 0
  then show ?case by (auto simp: tutorial_loop.simps [of env n] intro: words_none)
next
  case (Suc k)
  obtain as nxt where attempt: "tutorial_attempt env n = (as, nxt)" by fastforce
  have n: "n < retry_stream" "retry_stream - n = Suc k" "retry_stream - Suc n = k"
    using Suc.hyps(2) by simp_all
  note words = attempt_words [OF attempt, of k]
  show ?case
  proof (cases nxt)
    case Retry
    obtain w where w: "tutorial_words k (awake (concat (fst (tutorial_loop env (Suc n)))) @ w)"
      "snd (tutorial_loop env (Suc n)) \<noteq> Hang \<longrightarrow> w = [Do_destroy_locals, Do_close]"
      using Suc.hyps(1) [of "Suc n"] n(3) by auto
    then show ?thesis
      using words(1) [OF Retry w(1)] n attempt Retry
      by (auto simp: tutorial_loop.simps [of env n] split: prod.splits)
  next
    case Leave
    then show ?thesis
      using words(2) n attempt by (auto simp: tutorial_loop.simps [of env n])
  next
    case Hang
    then show ?thesis
      using words(3) n attempt by (auto simp: tutorial_loop.simps [of env n])
  qed
qed

text \<open>For an environment that a run follows, the words the run is the beginning of.\<close>

lemma follows_words:
  assumes "follows tr env st"
  shows "\<exists>w. tutorial_words 5 w \<and> prefix tr w \<and> ((\<exists>b. ps_pc st = Tut_end b) \<longrightarrow> tr = w)"
proof -
  obtain v where v: "tutorial_words 5 (awake (concat (fst (tutorial_loop env 0))) @ v)"
    "snd (tutorial_loop env 0) \<noteq> Hang \<longrightarrow> v = [Do_destroy_locals, Do_close]"
    using loop_words [of 0 env] by auto
  have "prefix tr (awake (concat (fst (tutorial_loop env 0))) @ v)"
  proof (cases "snd (tutorial_loop env 0) = Hang")
    case True
    then have "prefix tr (awake (concat (fst (tutorial_loop env 0))))"
      using follows_prefix [OF assms] by (simp add: tutorial_trace_def split: prod.splits)
    then show ?thesis by (simp add: prefix_prefix)
  next
    case False
    then show ?thesis
      using follows_prefix [OF assms] v(2) by (simp add: tutorial_trace_def split: prod.splits)
  qed
  moreover have "tr = awake (concat (fst (tutorial_loop env 0))) @ v" if "ps_pc st = Tut_end b" for b
    using assms that v(2) by (simp add: follows_def Let_def)
  ultimately show ?thesis using v(1) by blast
qed

section \<open>Properties\<close>

text \<open>
  C34: the composed tutorial keeps to its specification. Whatever the receive thread and gRPC do, what
  its main thread is seen to do, its registrations with their contexts, the entries it takes from the
  queue, its messages and closings, is the beginning of a word of the specification with five
  attempts, and the whole word when the program has ended. So after each entry taken the decision is
  the one that its status asks for.
\<close>

theorem stream_tutorial_refines_loop:
  assumes "program_run japi pbr_basic_vt (tutorial_program tid) as
      (program_initial (Some (PbrCounters stream_counters)) (tutorial_start now) Tut_loop) = Some st"
  shows "\<exists>w. tutorial_words 5 w \<and>
    prefix (run_trace japi tid as
      (program_initial (Some (PbrCounters stream_counters)) (tutorial_start now) Tut_loop)) w \<and>
    ((\<exists>b. ps_pc st = Tut_end b) \<longrightarrow>
       run_trace japi tid as
         (program_initial (Some (PbrCounters stream_counters)) (tutorial_start now) Tut_loop) = w)"
proof -
  obtain env where "follows (run_trace japi tid as
      (program_initial (Some (PbrCounters stream_counters)) (tutorial_start now) Tut_loop)) env st"
    using run_follows [OF assms] by blast
  then show ?thesis by (rule follows_words)
qed

definition deadline_status :: grpc_status where
  "deadline_status = \<lparr>status_code = deadline_exceeded, status_message = ''''\<rparr>"

definition deadline_actions :: "program_action list" where
  "deadline_actions =
     map Do_client (end_actions deadline_status) @ [Do_command 0, Do_command 0, Do_command 0] @
     map Do_client [Main_acquire, Main_cancel, Main_join, Main_reset] @
     [Do_return, Do_command 0, Do_command 0, Do_command 0, Do_client Main_reset, Do_return]"

lemma run_to_end:
  "\<exists>st. program_run japi pbr_basic_vt (tutorial_program tid) deadline_actions waiting_state = Some st \<and>
     ps_pc st = Tut_end False"
  by (simp add: deadline_actions_def end_actions_def waiting_state_def waiting_client_def program_simps
      rx_read_def rx_writes_done_def rx_finish_def rx_status_def deadline_status_def deadline_exceeded_def
      status_ok_def status_cancelled_def registered_events_def tutorial_start_def run_handler_def
      tutorial_failed_def tutorial_pop_def tutorial_branch_def tutorial_item_def tutorial_again_def
      close_enter_def close_cancel_def close_joined_def close_reset_def)

theorem stream_tutorial_refines_loop_witness:
  "\<exists>as st. program_run number_json pbr_basic_vt (tutorial_program ''1'') as
      (program_initial (Some (PbrCounters stream_counters)) (tutorial_start 0) Tut_loop) = Some st \<and>
    ps_pc st = Tut_end False \<and>
    tutorial_words 5 (run_trace number_json ''1'' as
      (program_initial (Some (PbrCounters stream_counters)) (tutorial_start 0) Tut_loop))"
proof -
  obtain st where st: "program_run number_json pbr_basic_vt (tutorial_program ''1'') deadline_actions
      waiting_state = Some st" "ps_pc st = Tut_end False"
    using run_to_end by blast
  then have run: "program_run number_json pbr_basic_vt (tutorial_program ''1'')
      (register_actions @ deadline_actions)
      (program_initial (Some (PbrCounters stream_counters)) (tutorial_start 0) Tut_loop) = Some st"
    by (simp add: program_run_append run_to_wait)
  from stream_tutorial_refines_loop [OF run] st(2) have
    "tutorial_words 5 (run_trace number_json ''1'' (register_actions @ deadline_actions)
      (program_initial (Some (PbrCounters stream_counters)) (tutorial_start 0) Tut_loop))"
    by auto
  with run st(2) show ?thesis by blast
qed


section \<open>What the tutorial sends\<close>

definition registrations :: "tutorial_action list \<Rightarrow> nat" where
  "registrations as = length (filter (\<lambda>a. case a of Do_register x \<Rightarrow> True | _ \<Rightarrow> False) as)"

lemma registrations_simps [simp]:
  "registrations [] = 0"
  "registrations (as @ bs) = registrations as + registrations bs"
  "registrations (a # as) = (case a of Do_register x \<Rightarrow> 1 | _ \<Rightarrow> 0) + registrations as"
  "registrations (map Do_log ls) = 0"
  by (simp_all add: registrations_def filter_empty_conv split: tutorial_action.split)

lemma awake_registrations: "registrations (awake as) = registrations as"
  by (induction as) (auto split: tutorial_action.split)

text \<open>The client of a run is the client of a list of its own actions, with these registrations.\<close>

lemma observed_client:
  assumes "call_inv (tutorial_program tid) st"
    and "program_act japi pbr_basic_vt (tutorial_program tid) a st = Some st'"
  shows "\<exists>bs. client_run japi pbr_basic_vt bs (ps_client st) = Some (ps_client st') \<and>
    register_args bs = replicate (registrations (observed a st st')) stream_rpc_args"
proof (cases a)
  case (Do_client b)
  then have "client_act japi pbr_basic_vt b (ps_client st) = Some (ps_client st')" "inner_action b"
    using assms(2) client_part_same(1) by (auto simp: program_act_def split: if_splits)
  then show ?thesis
    using Do_client
    by (intro exI [of _ "[b]"]) (simp add: observed_def inner_action_def split: client_action.splits)
next
  case (Do_command now)
  then have command: "program_command japi pbr_basic_vt (tutorial_program tid) now st = Some st'"
    using assms(2) by (auto simp: program_act_def split: if_splits)
  show ?thesis
  proof (cases "pg_command (tutorial_program tid) (ps_pc st)")
    case (Register f k)
    then have f: "f = (\<lambda>q. (tm_context q, stream_rpc_args))" by (cases "ps_pc st") auto
    from program_command_register [OF command Register] f obtain s' where
      "client_act japi pbr_basic_vt (Call_register (tm_context (ps_locals st)) stream_rpc_args)
        (ps_client st) = Some s'" "ps_client st' = s'"
      by auto
    then show ?thesis
      using Register Do_command
      by (intro exI [of _ "[Call_register (tm_context (ps_locals st)) stream_rpc_args]"])
        (cases "ps_pc st"; simp add: observed_def)
  next
    case (Close p)
    from program_command_close [OF command Close] obtain s' where
      "client_act japi pbr_basic_vt Call_close (ps_client st) = Some s'" "ps_client st' = s'"
      by auto
    then show ?thesis
      using Close Do_command
      by (intro exI [of _ "[Call_close]"]) (cases "ps_pc st"; simp add: observed_def)
  qed (use command Do_command in \<open>cases "ps_pc st"; auto simp: program_command_def observed_def
      intro!: exI [of _ "[]"] split: prod.splits if_splits\<close>)+
next
  case Do_return
  then have "ps_client st' = ps_client st"
    using assms(2) by (auto simp: program_act_def program_return_def
        split: if_splits option.splits pending_call.splits)
  with Do_return show ?thesis by (intro exI [of _ "[]"]) (simp add: observed_def)
qed

lemma tutorial_client_run:
  assumes "program_run japi pbr_basic_vt (tutorial_program tid) as
      (program_initial (Some (PbrCounters stream_counters)) (tutorial_start now) Tut_loop) = Some st"
  shows "\<exists>bs. client_run japi pbr_basic_vt bs (client_initial (Some (PbrCounters stream_counters))) =
      Some (ps_client st) \<and>
    register_args bs = replicate (registrations (run_trace japi tid as
      (program_initial (Some (PbrCounters stream_counters)) (tutorial_start now) Tut_loop))) stream_rpc_args"
  using assms
proof (induction as arbitrary: st rule: rev_induct)
  case Nil
  then show ?case
    by (intro exI [of _ "[Set_success_handler True, Set_failed_handler True]"])
      (auto simp: program_initial_def program_client_def client_act_def act_main_def is_main_def client_initial_def)
next
  case (snoc a as)
  let ?start = "program_initial (Some (PbrCounters stream_counters)) (tutorial_start now) Tut_loop"
  obtain st1 where st1: "program_run japi pbr_basic_vt (tutorial_program tid) as ?start = Some st1"
    "program_act japi pbr_basic_vt (tutorial_program tid) a st1 = Some st"
    using snoc.prems by (auto simp: program_run_append split: option.splits)
  obtain bs where bs: "client_run japi pbr_basic_vt bs (client_initial (Some (PbrCounters stream_counters))) =
      Some (ps_client st1)"
    "register_args bs = replicate (registrations (run_trace japi tid as ?start)) stream_rpc_args"
    using snoc.IH [OF st1(1)] by blast
  have "call_inv (tutorial_program tid) st1"
    using program_run_initial [OF st1(1)] by (rule reachable_call_inv)
  from observed_client [OF this st1(2)] obtain cs where
    "client_run japi pbr_basic_vt cs (ps_client st1) = Some (ps_client st)"
    "register_args cs = replicate (registrations (observed a st1 st)) stream_rpc_args"
    by blast
  then show ?case
    using bs run_trace_snoc [OF st1]
    by (intro exI [of _ "bs @ cs"]) (simp add: run_append replicate_add)
qed

lemma tutorial_attempt_registrations: "registrations (fst (tutorial_attempt env n)) \<le> 2"
  by (auto simp: tutorial_attempt_def tutorial_item_def Let_def split: option.split prod.split)

lemma tutorial_loop_registrations:
  "registrations (concat (fst (tutorial_loop env n))) \<le> 2 * (retry_stream - n)"
proof (induction "retry_stream - n" arbitrary: n)
  case 0
  then show ?case by (simp add: tutorial_loop.simps [of env n])
next
  case (Suc k)
  obtain as nxt where attempt: "tutorial_attempt env n = (as, nxt)" by fastforce
  have "registrations as \<le> 2" using tutorial_attempt_registrations [of env n] attempt by simp
  moreover have "registrations (concat (fst (tutorial_loop env (Suc n)))) \<le> 2 * (retry_stream - Suc n)"
    using Suc.hyps(1) [of "Suc n"] Suc.hyps(2) by simp
  ultimately show ?case
    using Suc.hyps(2) attempt by (auto simp: tutorial_loop.simps [of env n] split: prod.split)
qed

lemma tutorial_trace_registrations: "registrations (tutorial_trace env) \<le> 10"
  using tutorial_loop_registrations [of env 0]
  by (auto simp: tutorial_trace_def split: prod.splits)


text \<open>
  What the tutorial sends. In every run the requests written to its streams, with the one of a
  registration under way, are one per registration of its main thread, all the same: the sampled
  subscriptions for its two keys, every two seconds. There are at most ten of them.
\<close>

lemma stream_tutorial_requests:
  assumes "program_run japi pbr_basic_vt (tutorial_program tid) as
      (program_initial (Some (PbrCounters stream_counters)) (tutorial_start now) Tut_loop) = Some st"
  shows "\<exists>k \<le> 10. k = registrations (run_trace japi tid as
        (program_initial (Some (PbrCounters stream_counters)) (tutorial_start now) Tut_loop)) \<and>
      written_requests (cs_events (ps_client st)) @ pending_request (cs_main (ps_client st)) =
        replicate k (Some (sample_list (stream_rpc_args\<lparr>args_mode := STREAM\<rparr>)
          (map pbr_request_path (pbr_keys stream_counters))))"
proof -
  let ?tr = "run_trace japi tid as
      (program_initial (Some (PbrCounters stream_counters)) (tutorial_start now) Tut_loop)"
  obtain bs where bs: "client_run japi pbr_basic_vt bs (client_initial (Some (PbrCounters stream_counters))) =
      Some (ps_client st)" "register_args bs = replicate (registrations ?tr) stream_rpc_args"
    using tutorial_client_run [OF assms] by blast
  have "register_request pbr_basic_vt stream_counters stream_rpc_args = stream_request"
    by (simp add: register_request_def stream_request_built)
  then have "written_requests (cs_events (ps_client st)) @ pending_request (cs_main (ps_client st)) =
      replicate (registrations ?tr) stream_request"
    using basic_counters.client_run_requests [OF _ bs(1)] bs(2) by (simp add: requests_inv_def)
  moreover have "registrations ?tr \<le> 10"
  proof -
    obtain env where "follows ?tr env st" using run_follows [OF assms] by blast
    from follows_prefix [OF this] obtain rest where "awake (tutorial_trace env) = ?tr @ rest"
      by (auto simp: prefix_def)
    then have "registrations ?tr \<le> registrations (awake (tutorial_trace env))" by simp
    then show ?thesis using tutorial_trace_registrations [of env] by (simp add: awake_registrations)
  qed
  ultimately show ?thesis by (auto simp: stream_request_def)
qed

lemma stream_tutorial_requests_example:
  "run_trace number_json ''1'' register_actions
      (program_initial (Some (PbrCounters stream_counters)) (tutorial_start 0) Tut_loop) =
     replicate 2 (Do_register (tutorial_context 0)) \<and>
   written_requests (cs_events (ps_client waiting_state)) = replicate 2 stream_request"
proof -
  have run: "program_run number_json pbr_basic_vt (tutorial_program ''1'') register_actions
      (program_initial (Some (PbrCounters stream_counters)) (tutorial_start 0) Tut_loop) = Some waiting_state"
    by (rule run_to_wait)
  have trace: "run_trace number_json ''1'' register_actions
      (program_initial (Some (PbrCounters stream_counters)) (tutorial_start 0) Tut_loop) =
     replicate 2 (Do_register (tutorial_context 0))"
    by (simp add: register_actions_def program_simps program_initial_def program_client_def observed_def
        client_initial_def register_enter_tutorial tutorial_head_def tutorial_check_def tutorial_start_def
        tutorial_context_def numeral_2_eq_2)
  have "pending_request (cs_main (ps_client waiting_state)) = []"
    by (simp add: waiting_state_def waiting_client_def)
  then show ?thesis
    using stream_tutorial_requests [OF run] trace by (auto simp: stream_request_def numeral_2_eq_2)
qed

end
