(* ===== verification/Mixed_Calls.thy ===== *)
theory Mixed_Calls
  imports Client_Stream
begin

text \<open>
  A blocking call while a stream is open: \<^verbatim>\<open>rpc_register_stats_once\<close> in the calling thread, step by
  step, interleaved with the receive thread of \<^verbatim>\<open>rpc_register_stats_stream\<close> on the same client. Both
  store their records in the same counter object. Treating a response is one step here, and the two
  steps that store a record are among the races; \<open>Unlocked_Stores\<close> splits them. The members the two threads read and write give
  the data races of the client; the small steps are shown to compute the blocking call of
  \<open>Gnmi_Client\<close>.
\<close>

section \<open>The blocking call in small steps\<close>

text \<open>Where the calling thread is in \<^verbatim>\<open>rpc_register_stats_once\<close>, and the history of these calls.\<close>

datatype once_pc =
    Once_idle
  | Once_write subscribe_request
  | Once_read
  | Once_response subscribe_response
  | Once_writes_done
  | Once_finish

datatype once_event =
    Once_log log_entry
  | Once_subscribed client_context
  | Once_wrote subscribe_request bool
  | Once_answered "subscribe_response option"
  | Once_half_closed bool
  | Once_finished grpc_status
  | Once_returned "(error_code \<times> grpc_status) result"

record 'c mixed_state =
  mx_client :: "'c client_state"
  mx_once :: once_pc
  mx_events :: "once_event list"

definition mixed_initial :: "'c gnmi_counters option \<Rightarrow> 'c mixed_state" where
  "mixed_initial i = \<lparr>mx_client = client_initial i, mx_once = Once_idle, mx_events = []\<rparr>"

definition once_goes :: "once_pc \<Rightarrow> once_event list \<Rightarrow> 'c mixed_state \<Rightarrow> 'c mixed_state" where
  "once_goes pc es s = s\<lparr>mx_once := pc, mx_events := mx_events s @ es\<rparr>"

text \<open>An exception leaves the call; after undefined behaviour the process has no meaning.\<close>

definition once_throws :: "fault \<Rightarrow> log_entry list \<Rightarrow> 'c mixed_state \<Rightarrow> 'c mixed_state" where
  "once_throws e logs s =
     (let s' = once_goes Once_idle (map Once_log logs @ [Once_returned (Inl e)]) s in
      case e of
        Undefined_behaviour _ \<Rightarrow> s'\<lparr>mx_client := fail_with e (mx_client s')\<rparr>
      | _ \<Rightarrow> s')"

text \<open>Up to the stream that the stub opens.\<close>

definition once_enter ::
  "('c, 's) pbr_vtable \<Rightarrow> client_context_args \<Rightarrow> rpc_args \<Rightarrow> 'c mixed_state \<Rightarrow> 'c mixed_state" where
  "once_enter vt context_args args s =
     (case cs_interface (mx_client s) of
        None \<Rightarrow> once_throws (Undefined_behaviour ''null interface'') [] s
      | Some i \<Rightarrow>
          if counters_name vt i \<noteq> ''pbr''
          then once_goes Once_idle
                 [Once_log (''Error, this client can only do one type of request. Current request type is ''
                     @ counters_name vt i @ ''\<newline>'', ERROR),
                  Once_returned (Inr (CLIENT_TYPE_FAILURE, ok_status))] s
          else if username context_args = '''' \<or> password context_args = ''''
          then once_goes Once_idle [Once_log (''Username or password is empty'', ERROR),
                  Once_returned (Inr (CLIENT_TYPE_FAILURE, ok_status))] s
          else
            (case i of
               OtherCounters _ _ \<Rightarrow> once_throws (Undefined_behaviour ''null pbr_interface'') [] s
             | PbrCounters c \<Rightarrow>
                 (let info = \<lparr>rsa_prefix = path_origin, paths_of_interest = vt_paths vt c\<rparr>;
                      (logs, request, _) =
                        subscribe_request_helper None (args\<lparr>args_mode := ONCE\<rparr>) info
                  in once_goes (Once_write request)
                       (map Once_log logs @ [Once_subscribed (make_context context_args)]) s)))"

definition once_written :: "subscribe_request \<Rightarrow> bool \<Rightarrow> 'c mixed_state \<Rightarrow> 'c mixed_state" where
  "once_written request written =
     once_goes Once_read
       [Once_wrote request written,
        Once_log (if written then (''Subscribe Once Request: Write operation succeeded'', INFO)
                  else (''Subscribe Once Request: Write operation failed'', ERROR))]"

definition once_answered :: "subscribe_response option \<Rightarrow> 'c mixed_state \<Rightarrow> 'c mixed_state" where
  "once_answered answer =
     once_goes (case answer of Some r \<Rightarrow> Once_response r | None \<Rightarrow> Once_writes_done)
       [Once_answered answer]"

definition once_treated ::
  "'j json_api \<Rightarrow> ('c, 's) pbr_vtable \<Rightarrow> subscribe_response \<Rightarrow> 'c mixed_state \<Rightarrow> 'c mixed_state" where
  "once_treated japi vt response s =
     (case cs_interface (mx_client s) of
        Some (PbrCounters c) \<Rightarrow>
          (case check_response japi vt response c of
             (l, Inl e) \<Rightarrow> once_throws e l s
           | (l, Inr (p, code)) \<Rightarrow>
               if code = SUCCESS
               then (let (l', c') = vt_add_stats vt p c in
                     once_goes Once_read
                       (map Once_log (l @ [(''Client received a response.'', VERBOSE)] @ l'))
                       (s\<lparr>mx_client := (mx_client s)\<lparr>cs_interface := Some (PbrCounters c')\<rparr>\<rparr>))
               else once_goes Once_read (map Once_log l) s)
      | _ \<Rightarrow> s)"

definition once_half_closed :: "bool \<Rightarrow> 'c mixed_state \<Rightarrow> 'c mixed_state" where
  "once_half_closed done =
     once_goes Once_finish
       (Once_half_closed done #
        (if done then []
         else [Once_log (''Signal to server that we are done writing, was unsuccessful'', WARNING)]))"

definition once_ended :: "grpc_status \<Rightarrow> 'c mixed_state \<Rightarrow> 'c mixed_state" where
  "once_ended status =
     once_goes Once_idle
       [Once_finished status,
        Once_log (if \<not> status_ok status then (''Subscribe rpc failed: '' @ status_message status, ERROR)
                  else (''Subscribe rpc passed '', INFO)),
        Once_returned (Inr (if \<not> status_ok status then RPC_FAILURE else RPC_SUCCESS, status))]"

section \<open>Interleaving with the receive thread\<close>

datatype once_action =
    Call_once client_context_args rpc_args
  | Once_write_returns bool
  | Once_receive "subscribe_response option"
  | Once_treat
  | Once_half_close bool
  | Once_end grpc_status

datatype mixed_action = Streaming client_action | Blocking once_action

definition once_act ::
  "'j json_api \<Rightarrow> ('c, 's) pbr_vtable \<Rightarrow> once_action \<Rightarrow> 'c mixed_state \<Rightarrow> 'c mixed_state option" where
  "once_act japi vt a s =
     (case a of
        Call_once x args \<Rightarrow>
          if mx_once s = Once_idle \<and> cs_main (mx_client s) = Main_idle
          then Some (once_enter vt x args s) else None
      | Once_write_returns b \<Rightarrow>
          (case mx_once s of Once_write r \<Rightarrow> Some (once_written r b s) | _ \<Rightarrow> None)
      | Once_receive answer \<Rightarrow> if mx_once s = Once_read then Some (once_answered answer s) else None
      | Once_treat \<Rightarrow>
          (case mx_once s of Once_response r \<Rightarrow> Some (once_treated japi vt r s) | _ \<Rightarrow> None)
      | Once_half_close b \<Rightarrow>
          if mx_once s = Once_writes_done then Some (once_half_closed b s) else None
      | Once_end st \<Rightarrow> if mx_once s = Once_finish then Some (once_ended st s) else None)"

text \<open>The calling thread is in one call at a time; the receive thread goes on meanwhile.\<close>

definition mixed_act ::
  "'j json_api \<Rightarrow> ('c, 's) pbr_vtable \<Rightarrow> mixed_action \<Rightarrow> 'c mixed_state \<Rightarrow> 'c mixed_state option" where
  "mixed_act japi vt a s =
     (if cs_fault (mx_client s) \<noteq> None then None
      else (case a of
              Blocking b \<Rightarrow> once_act japi vt b s
            | Streaming b \<Rightarrow>
                if is_main b \<and> mx_once s \<noteq> Once_idle then None
                else map_option (\<lambda>c. s\<lparr>mx_client := c\<rparr>) (client_act japi vt b (mx_client s))))"

fun mixed_run ::
  "'j json_api \<Rightarrow> ('c, 's) pbr_vtable \<Rightarrow> mixed_action list \<Rightarrow> 'c mixed_state \<Rightarrow> 'c mixed_state option" where
  "mixed_run japi vt [] s = Some s"
| "mixed_run japi vt (a # as) s =
     (case mixed_act japi vt a s of None \<Rightarrow> None | Some s' \<Rightarrow> mixed_run japi vt as s')"

inductive mixed_reachable ::
  "'j json_api \<Rightarrow> ('c, 's) pbr_vtable \<Rightarrow> 'c gnmi_counters option \<Rightarrow> 'c mixed_state \<Rightarrow> bool"
  for japi vt i where
  mixed_starts: "mixed_reachable japi vt i (mixed_initial i)"
| mixed_steps: "mixed_reachable japi vt i s \<Longrightarrow> mixed_act japi vt a s = Some s' \<Longrightarrow>
    mixed_reachable japi vt i s'"


lemma mixed_run_append: "mixed_run japi vt (as @ bs) s =
    (case mixed_run japi vt as s of None \<Rightarrow> None | Some s' \<Rightarrow> mixed_run japi vt bs s')"
  by (induction as arbitrary: s) (auto split: option.splits)

lemma mixed_run_reachable:
  "mixed_reachable japi vt i s \<Longrightarrow> mixed_run japi vt as s = Some s' \<Longrightarrow> mixed_reachable japi vt i s'"
  by (induction as arbitrary: s) (auto split: option.splits intro: mixed_steps)

lemma mixed_act_cases:
  assumes "mixed_act japi vt a s = Some s'"
  obtains (main) b c where "a = Streaming b" "is_main b" "mx_once s = Once_idle"
      "cs_fault (mx_client s) = None" "act_main vt b (mx_client s) = Some c" "s' = s\<lparr>mx_client := c\<rparr>"
    | (rx) b c where "a = Streaming b" "\<not> is_main b" "cs_fault (mx_client s) = None"
      "act_rx japi vt b (mx_client s) = Some c" "s' = s\<lparr>mx_client := c\<rparr>"
    | (once) b where "a = Blocking b" "cs_fault (mx_client s) = None" "once_act japi vt b s = Some s'"
  using assms
  by (cases a) (auto simp: mixed_act_def client_act_def split: if_splits)

text \<open>What the blocking call leaves alone in the members of the stream.\<close>

lemma once_goes_simps [simp]:
  "mx_client (once_goes pc es s) = mx_client s"
  "mx_once (once_goes pc es s) = pc"
  "mx_events (once_goes pc es s) = mx_events s @ es"
  by (simp_all add: once_goes_def)

lemma once_throws_simps [simp]:
  "mx_once (once_throws e l s) = Once_idle"
  "mx_events (once_throws e l s) = mx_events s @ map Once_log l @ [Once_returned (Inl e)]"
  "cs_interface (mx_client (once_throws e l s)) = cs_interface (mx_client s)"
  "cs_main (mx_client (once_throws e l s)) = cs_main (mx_client s)"
  by (simp_all add: once_throws_def fail_with_def Let_def split: fault.split)

lemmas once_ops = once_enter_def once_written_def once_answered_def once_treated_def
  once_half_closed_def once_ended_def

definition same_members :: "'c client_state \<Rightarrow> 'c client_state \<Rightarrow> bool" where
  "same_members s s' \<longleftrightarrow>
     cs_success_set s' = cs_success_set s \<and> cs_failed_set s' = cs_failed_set s \<and>
     cs_mtx s' = cs_mtx s \<and> cs_joinable s' = cs_joinable s \<and> cs_ctx s' = cs_ctx s \<and>
     cs_rw s' = cs_rw s \<and> cs_streams s' = cs_streams s \<and> cs_main s' = cs_main s \<and>
     cs_rx s' = cs_rx s \<and> cs_events s' = cs_events s"

lemma once_throws_same [simp]: "same_members (mx_client s) (mx_client (once_throws e l s))"
  by (simp add: same_members_def once_throws_def fail_with_def Let_def split: fault.split)

lemma once_act_same:
  assumes "once_act japi vt a s = Some s'"
  shows "same_members (mx_client s) (mx_client s')"
proof -
  have [simp]: "same_members c c" "same_members c (c\<lparr>cs_interface := i\<rparr>)" for c :: "'a client_state" and i
    by (simp_all add: same_members_def)
  show ?thesis
    using assms by (cases a) (auto simp: once_act_def once_ops Let_def
        split: if_splits option.splits once_pc.splits gnmi_counters.splits prod.splits sum.splits)
qed

lemma same_members_inv:
  "same_members s s' \<Longrightarrow> lock_inv s \<and> stream_inv s \<Longrightarrow> lock_inv s' \<and> stream_inv s'"
  by (simp add: same_members_def lock_inv_def stream_inv_def split: option.splits)

lemma mixed_inv:
  "mixed_reachable japi vt i s \<Longrightarrow> lock_inv (mx_client s) \<and> stream_inv (mx_client s)"
proof (induction rule: mixed_reachable.induct)
  case mixed_starts
  then show ?case
    by (simp add: mixed_initial_def client_initial_def lock_inv_def stream_inv_def)
next
  case (mixed_steps s a s')
  from mixed_steps(2) show ?case
  proof (cases rule: mixed_act_cases)
    case once
    from same_members_inv [OF once_act_same [OF once(3)] mixed_steps.IH] show ?thesis .
  qed (use mixed_steps.IH act_main_lock_inv act_rx_lock_inv act_main_stream_inv act_rx_stream_inv
      in \<open>auto\<close>)
qed

text \<open>A rule for invariants of the composition: one case per thread and call.\<close>

lemma mixed_invariant [consumes 1, case_names initial main rx once]:
  assumes "mixed_reachable japi vt i s" "P (mixed_initial i)"
    and "\<And>a s c. mixed_reachable japi vt i s \<Longrightarrow> P s \<Longrightarrow> act_main vt a (mx_client s) = Some c \<Longrightarrow>
      P (s\<lparr>mx_client := c\<rparr>)"
    and "\<And>a s c. mixed_reachable japi vt i s \<Longrightarrow> P s \<Longrightarrow> act_rx japi vt a (mx_client s) = Some c \<Longrightarrow>
      P (s\<lparr>mx_client := c\<rparr>)"
    and "\<And>a s s'. mixed_reachable japi vt i s \<Longrightarrow> P s \<Longrightarrow> once_act japi vt a s = Some s' \<Longrightarrow> P s'"
  shows "P s"
  using assms(1)
proof (induction rule: mixed_reachable.induct)
  case mixed_starts
  show ?case by (rule assms(2))
next
  case (mixed_steps s a s')
  from mixed_steps(2) show ?case
    by (cases rule: mixed_act_cases) (use mixed_steps assms(3-5) in blast)+
qed


section \<open>The records of both calls\<close>

text \<open>The records that a list of responses gives: a response without a record gives none.\<close>

definition response_record ::
  "(string_map \<Rightarrow> 'r result) \<Rightarrow> 'j json_api \<Rightarrow> subscribe_response \<Rightarrow> 'r option" where
  "response_record conv japi r =
     (case successful_map japi r of
        None \<Rightarrow> None
      | Some m \<Rightarrow> (case conv m of Inl e \<Rightarrow> None | Inr st \<Rightarrow> Some st))"

definition recorded ::
  "(string_map \<Rightarrow> 'r result) \<Rightarrow> 'j json_api \<Rightarrow> subscribe_response list \<Rightarrow> 'r list" where
  "recorded conv japi rs = List.map_filter (response_record conv japi) rs"

lemma recorded_append [simp]: "recorded conv japi (rs @ rs') = recorded conv japi rs @ recorded conv japi rs'"
  by (simp add: recorded_def map_filter_def)

lemma recorded_simps [simp]:
  "recorded conv japi [] = []"
  "recorded conv japi (r # rs) =
     (case response_record conv japi r of None \<Rightarrow> [] | Some st \<Rightarrow> [st]) @ recorded conv japi rs"
  by (simp_all add: recorded_def map_filter_simps split: option.splits)

text \<open>The responses a blocking call has read, and the one it has not treated yet.\<close>

definition once_responses :: "once_event list \<Rightarrow> subscribe_response list" where
  "once_responses es =
     List.map_filter (\<lambda>e. case e of Once_answered (Some r) \<Rightarrow> Some r | _ \<Rightarrow> None) es"

fun once_pending :: "once_pc \<Rightarrow> subscribe_response list" where
  "once_pending (Once_response r) = [r]"
| "once_pending _ = []"

lemma once_responses_simps [simp]:
  "once_responses [] = []"
  "once_responses (es @ es') = once_responses es @ once_responses es'"
  "once_responses (e # es) =
     (case e of Once_answered (Some r) \<Rightarrow> [r] | _ \<Rightarrow> []) @ once_responses es"
  "once_responses (map Once_log ls) = []"
  by (simp_all add: once_responses_def map_filter_def comp_def split: once_event.splits option.splits)

lemma shuffles_snoc_left: "zs \<in> shuffles xs ys \<Longrightarrow> zs @ [x] \<in> shuffles (xs @ [x]) ys"
proof (induction xs ys arbitrary: zs rule: shuffles.induct)
  case (1 ys)
  then show ?case by (induction ys arbitrary: zs) (auto simp: Cons_in_shuffles_iff)
qed (auto simp: Cons_in_shuffles_iff)

lemma shuffles_snoc_right: "zs \<in> shuffles xs ys \<Longrightarrow> zs @ [y] \<in> shuffles xs (ys @ [y])"
  using shuffles_snoc_left [of zs ys xs y] by (simp add: shuffles_commutes)

context pbr_base
begin

text \<open>What treating one response does to the records, whichever call does it.\<close>

lemma check_response_record:
  assumes "json_pointer_keys japi" "check_response japi vt r c = (l, res)"
  shows "case response_record conv japi r of
      None \<Rightarrow> \<nexists>p. res = Inr (p, SUCCESS)
    | Some st \<Rightarrow> \<exists>p. res = Inr (p, SUCCESS) \<and> records (snd (vt_add_stats vt p c)) = records c @ [st]"
proof (cases "successful_map japi r")
  case None
  then show ?thesis
    using check_response_successful(1) [OF assms(1) None, of vt c] assms(2)
    by (auto simp: response_record_def)
next
  case (Some m)
  show ?thesis
  proof (cases "conv m")
    case (Inl e)
    then show ?thesis
      using check_response_throws [OF assms(1) Some Inl, of c] assms(2) Some
      by (auto simp: response_record_def)
  next
    case (Inr st)
    obtain p where p: "vt_to_stats vt c m = Inr p"
      using Inr to_stats_fails [of c m] by (cases "vt_to_stats vt c m") auto
    then have "res = Inr (p, SUCCESS)"
      using check_response_successful(2) [OF assms(1) Some, of vt c] assms(2) by auto
    then show ?thesis
      using add_converted [OF p Inr, of c] Some Inr by (simp add: response_record_def)
  qed
qed

text \<open>
  While both run, the object holds its initial records and then the records of the stream and those
  of the blocking calls, each in the order they were read.
\<close>

definition mixed_records :: "'j json_api \<Rightarrow> 'c \<Rightarrow> 'c mixed_state \<Rightarrow> bool" where
  "mixed_records japi c0 s \<longleftrightarrow>
     (\<exists>c zs rs os. cs_interface (mx_client s) = Some (PbrCounters c) \<and>
        records c = records c0 @ zs \<and> zs \<in> shuffles (recorded conv japi rs) (recorded conv japi os) \<and>
        read_responses (cs_events (mx_client s)) = rs @ pending (cs_rx (mx_client s)) \<and>
        once_responses (mx_events s) = os @ once_pending (mx_once s))"

lemma mixed_recordsI:
  assumes "cs_interface (mx_client s) = Some (PbrCounters c)" "records c = records c0 @ zs"
    and "zs \<in> shuffles (recorded conv japi rs) (recorded conv japi os)"
    and "read_responses (cs_events (mx_client s)) = rs @ pending (cs_rx (mx_client s))"
    and "once_responses (mx_events s) = os @ once_pending (mx_once s)"
  shows "mixed_records japi c0 s"
  using assms unfolding mixed_records_def by blast

lemma rx_response_mixed_records:
  assumes "json_pointer_keys japi" "mixed_records japi c0 s" "cs_rx (mx_client s) = Rx_response r"
  shows "mixed_records japi c0 (s\<lparr>mx_client := rx_response japi vt r (mx_client s)\<rparr>)"
proof -
  obtain c zs rs os where c: "cs_interface (mx_client s) = Some (PbrCounters c)"
    and zs: "records c = records c0 @ zs" "zs \<in> shuffles (recorded conv japi rs) (recorded conv japi os)"
    and rs: "read_responses (cs_events (mx_client s)) = rs @ [r]"
    and os: "once_responses (mx_events s) = os @ once_pending (mx_once s)"
    using assms(2,3) by (auto simp: mixed_records_def)
  obtain l res where check: "check_response japi vt r c = (l, res)" by fastforce
  note gives = check_response_record [OF assms(1) check]
  show ?thesis
  proof (cases "response_record conv japi r")
    case None
    then show ?thesis
      using gives c zs rs os check
      by (intro mixed_recordsI [of _ c _ zs _ "rs @ [r]" os])
        (auto simp: rx_response_def emit_def fail_with_def Let_def split: sum.splits prod.splits)
  next
    case (Some st)
    with gives obtain p where p: "res = Inr (p, SUCCESS)"
      and c': "records (snd (vt_add_stats vt p c)) = records c @ [st]" by auto
    show ?thesis
      using c zs rs os check p c' Some shuffles_snoc_left [OF zs(2), of st]
      by (intro mixed_recordsI [of _ "snd (vt_add_stats vt p c)" _ "zs @ [st]" _ "rs @ [r]" os])
        (auto simp: rx_response_def emit_def fail_with_def Let_def split: prod.splits)
  qed
qed

lemma once_treated_mixed_records:
  assumes "json_pointer_keys japi" "mixed_records japi c0 s" "mx_once s = Once_response r"
  shows "mixed_records japi c0 (once_treated japi vt r s)"
proof -
  obtain c zs rs os where c: "cs_interface (mx_client s) = Some (PbrCounters c)"
    and zs: "records c = records c0 @ zs" "zs \<in> shuffles (recorded conv japi rs) (recorded conv japi os)"
    and rs: "read_responses (cs_events (mx_client s)) = rs @ pending (cs_rx (mx_client s))"
    and os: "once_responses (mx_events s) = os @ [r]"
    using assms(2,3) by (auto simp: mixed_records_def)
  obtain l res where check: "check_response japi vt r c = (l, res)" by fastforce
  note gives = check_response_record [OF assms(1) check]
  show ?thesis
  proof (cases "response_record conv japi r")
    case None
    have same: "cs_events (mx_client (once_throws e l s)) = cs_events (mx_client s)"
      "cs_rx (mx_client (once_throws e l s)) = cs_rx (mx_client s)" for e l
      using once_throws_same [of s e l] by (simp_all add: same_members_def)
    from None show ?thesis
      using gives c zs rs os check same
      by (intro mixed_recordsI [of _ c _ zs _ rs "os @ [r]"])
        (auto simp: once_treated_def Let_def split: sum.splits prod.splits)
  next
    case (Some st)
    with gives obtain p where p: "res = Inr (p, SUCCESS)"
      and c': "records (snd (vt_add_stats vt p c)) = records c @ [st]" by auto
    show ?thesis
      using c zs rs os check p c' Some shuffles_snoc_right [OF zs(2), of st]
      by (intro mixed_recordsI [of _ "snd (vt_add_stats vt p c)" _ "zs @ [st]" _ rs "os @ [r]"])
        (auto simp: once_treated_def Let_def split: prod.splits)
  qed
qed

end


context pbr_base
begin

lemma act_rx_mixed_records:
  assumes "json_pointer_keys japi" "mixed_records japi c0 s" "act_rx japi vt a (mx_client s) = Some c"
  shows "mixed_records japi c0 (s\<lparr>mx_client := c\<rparr>)"
  using assms(3)
proof (cases rule: act_rx_cases)
  case (read answer)
  then show ?thesis
    using assms(2) by (auto simp: rx_read_def mixed_records_def emit_def fail_with_def split: option.splits)
next
  case response
  then show ?thesis using rx_response_mixed_records [OF assms(1,2)] by simp
qed (use assms(2) in \<open>auto simp: rx_writes_done_def rx_finish_def rx_status_def mixed_records_def
    emit_def fail_with_def Let_def split: option.splits\<close>)

lemma once_act_mixed_records:
  assumes "json_pointer_keys japi" "mixed_records japi c0 s" "once_act japi vt a s = Some s'"
  shows "mixed_records japi c0 s'"
proof (cases a)
  case Once_treat
  with assms(3) obtain r where "mx_once s = Once_response r" "s' = once_treated japi vt r s"
    by (auto simp: once_act_def split: once_pc.splits)
  then show ?thesis using once_treated_mixed_records [OF assms(1,2)] by simp
next
  case (Call_once x args)
  have same: "read_responses (cs_events (mx_client (once_throws e l s))) = read_responses (cs_events (mx_client s))"
    "cs_rx (mx_client (once_throws e l s)) = cs_rx (mx_client s)" for e l
    using once_throws_same [of s e l] by (simp_all add: same_members_def)
  from Call_once show ?thesis
    using assms(2,3) by (auto simp: once_act_def once_enter_def mixed_records_def Let_def same
        split: if_splits gnmi_counters.splits prod.splits)
next
  case (Once_receive answer)
  then show ?thesis
    using assms(2,3) by (auto simp: once_act_def once_answered_def mixed_records_def
        split: if_splits option.splits)
qed (use assms(2,3) in \<open>auto simp: once_act_def once_written_def once_half_closed_def once_ended_def
    mixed_records_def split: if_splits once_pc.splits\<close>)

lemma reachable_mixed_records:
  assumes "json_pointer_keys japi" "mixed_reachable japi vt (Some (PbrCounters c0)) s"
  shows "mixed_records japi c0 s"
  using assms(2)
proof (induction rule: mixed_invariant)
  case initial
  show ?case by (simp add: mixed_records_def mixed_initial_def client_initial_def)
next
  case (main a s c)
  have "stream_inv (mx_client s)" using mixed_inv [OF main(1)] by simp
  from act_main_counters [OF this main(2)] main(3) show ?case by (simp add: mixed_records_def)
next
  case (rx a s c)
  then show ?case using act_rx_mixed_records [OF assms(1)] by blast
next
  case (once a s s')
  then show ?case using once_act_mixed_records [OF assms(1)] by blast
qed

end

section \<open>Data races\<close>

text \<open>
  The members the threads share, and how an action reads and writes them. The two halves of a gRPC
  stream are members of their own: a stream allows one reader and one writer at a time, and nothing
  beside \<^verbatim>\<open>Finish\<close>. The mutex orders its users and is not listed. The pointer to the counter object
  is set by the constructor; the keys and the vector of records are what it points to.
\<close>

datatype member =
    Counter_keys
  | Counter_stats
  | Success_handler
  | Failed_handler
  | Stream_context
  | Stream_pointer
  | Thread_object
  | Stream_reader
  | Stream_writer

datatype access = Reads member | Writes member

fun conflicting :: "access \<Rightarrow> access \<Rightarrow> bool" where
  "conflicting (Reads m) (Reads n) = False"
| "conflicting (Reads m) (Writes n) = (m = n)"
| "conflicting (Writes m) (Reads n) = (m = n)"
| "conflicting (Writes m) (Writes n) = (m = n)"

fun main_accesses :: "client_action \<Rightarrow> access list" where
  "main_accesses (Set_success_handler _) = [Writes Success_handler]"
| "main_accesses (Set_failed_handler _) = [Writes Failed_handler]"
| "main_accesses (Call_register _ _) = [Reads Counter_keys, Reads Thread_object]"
| "main_accesses Call_close = [Reads Thread_object]"
| "main_accesses Main_open = [Writes Stream_context, Writes Stream_pointer, Writes Thread_object]"
| "main_accesses (Main_write _) = [Reads Stream_context, Reads Stream_pointer, Writes Stream_writer]"
| "main_accesses Main_cancel = [Reads Stream_context]"
| "main_accesses Main_join = [Writes Thread_object]"
| "main_accesses Main_reset = [Writes Stream_pointer]"
| "main_accesses _ = []"

text \<open>A response that is checked successfully is stored; the success handler is then called.\<close>

definition stores_record ::
  "'j json_api \<Rightarrow> ('c, 's) pbr_vtable \<Rightarrow> subscribe_response \<Rightarrow> 'c client_state \<Rightarrow> bool" where
  "stores_record japi vt r s =
     (case cs_interface s of
        Some (PbrCounters c) \<Rightarrow>
          (case snd (check_response japi vt r c) of Inr (p, code) \<Rightarrow> code = SUCCESS | Inl e \<Rightarrow> False)
      | _ \<Rightarrow> False)"

definition rx_accesses ::
  "'j json_api \<Rightarrow> ('c, 's) pbr_vtable \<Rightarrow> client_action \<Rightarrow> 'c client_state \<Rightarrow> access list" where
  "rx_accesses japi vt a s =
     (case a of
        Rx_receive _ \<Rightarrow> [Reads Stream_pointer, Writes Stream_reader]
      | Rx_handle \<Rightarrow>
          (case cs_rx s of
             Rx_response r \<Rightarrow>
               if stores_record japi vt r s then [Writes Counter_stats, Reads Success_handler] else []
           | _ \<Rightarrow> [])
      | Rx_half_close _ \<Rightarrow> [Reads Stream_pointer, Writes Stream_writer]
      | Rx_end _ \<Rightarrow> [Reads Stream_pointer, Writes Stream_writer, Writes Stream_reader]
      | Rx_report \<Rightarrow>
          (case cs_rx s of
             Rx_status st \<Rightarrow>
               if \<not> status_ok st \<and> \<not> status_cancelled st then [Reads Failed_handler] else []
           | _ \<Rightarrow> [])
      | _ \<Rightarrow> [])"

definition once_accesses ::
  "'j json_api \<Rightarrow> ('c, 's) pbr_vtable \<Rightarrow> once_action \<Rightarrow> 'c mixed_state \<Rightarrow> access list" where
  "once_accesses japi vt a s =
     (case a of
        Call_once _ _ \<Rightarrow> [Reads Counter_keys]
      | Once_treat \<Rightarrow>
          (case mx_once s of
             Once_response r \<Rightarrow>
               if stores_record japi vt r (mx_client s) then [Writes Counter_stats] else []
           | _ \<Rightarrow> [])
      | _ \<Rightarrow> [])"

definition accesses ::
  "'j json_api \<Rightarrow> ('c, 's) pbr_vtable \<Rightarrow> mixed_action \<Rightarrow> 'c mixed_state \<Rightarrow> access list" where
  "accesses japi vt a s =
     (case a of
        Blocking b \<Rightarrow> once_accesses japi vt b s
      | Streaming b \<Rightarrow>
          if is_main b then main_accesses b else rx_accesses japi vt b (mx_client s))"

definition by_receive_thread :: "mixed_action \<Rightarrow> bool" where
  "by_receive_thread a \<longleftrightarrow> (case a of Streaming b \<Rightarrow> \<not> is_main b | Blocking b \<Rightarrow> False)"

text \<open>
  A race: each thread can take its action next, and the actions access one member, one of them
  writing it. Then nothing orders the two accesses.
\<close>

definition races ::
  "'j json_api \<Rightarrow> ('c, 's) pbr_vtable \<Rightarrow> mixed_action \<Rightarrow> mixed_action \<Rightarrow> 'c mixed_state \<Rightarrow> bool" where
  "races japi vt a b s \<longleftrightarrow>
     \<not> by_receive_thread a \<and> by_receive_thread b \<and>
     mixed_act japi vt a s \<noteq> None \<and> mixed_act japi vt b s \<noteq> None \<and>
     (\<exists>x \<in> set (accesses japi vt a s). \<exists>y \<in> set (accesses japi vt b s). conflicting x y)"

lemma conflicting_iff:
  "conflicting x y \<longleftrightarrow> (\<exists>m. (x, y) \<in> {(Reads m, Writes m), (Writes m, Reads m), (Writes m, Writes m)})"
  by (cases x; cases y) auto

text \<open>Where each thread is when it can access a member.\<close>

lemma main_pointer_idle:
  assumes "act_main vt a s = Some s'" "lock_inv s" "stream_inv s"
  shows "Writes Stream_pointer \<in> set (main_accesses a) \<Longrightarrow> cs_rx s = Rx_none"
    and "Writes Stream_context \<in> set (main_accesses a) \<Longrightarrow> cs_rx s = Rx_none"
    and "Writes Stream_writer \<in> set (main_accesses a) \<Longrightarrow> \<not> rx_holds (cs_rx s)"
  using assms by (cases a; auto simp: act_main_def stream_inv_def lock_inv_def
      split: if_splits option.splits main_pc.splits)+


lemma rx_accesses_where:
  assumes "act_rx japi vt b s = Some s'"
  shows "cs_rx s \<noteq> Rx_none"
    and "Writes Stream_writer \<in> set (rx_accesses japi vt b s) \<Longrightarrow> rx_holds (cs_rx s)"
    and "Writes m \<in> set (rx_accesses japi vt b s) \<Longrightarrow>
      m \<in> {Stream_reader, Stream_writer} \<or> m = Counter_stats \<and> b = Rx_handle"
    and "Reads m \<in> set (rx_accesses japi vt b s) \<Longrightarrow>
      m = Stream_pointer \<or> m = Success_handler \<and> b = Rx_handle \<or> m = Failed_handler \<and> b = Rx_report"
  using assms by (cases b; auto simp: act_rx_def rx_accesses_def
      split: if_splits option.splits rx_pc.splits)+

lemma main_accesses_what:
  shows "Writes m \<in> set (main_accesses a) \<Longrightarrow>
      m \<in> {Stream_context, Stream_pointer, Stream_writer, Thread_object} \<or>
      m = Success_handler \<and> (\<exists>h. a = Set_success_handler h) \<or>
      m = Failed_handler \<and> (\<exists>h. a = Set_failed_handler h)"
    and "Reads m \<in> set (main_accesses a) \<Longrightarrow>
      m \<in> {Counter_keys, Thread_object, Stream_context, Stream_pointer}"
  by (cases a; auto)+

lemma once_accesses_what:
  assumes "x \<in> set (once_accesses japi vt a s)"
  shows "x = Reads Counter_keys \<or> x = Writes Counter_stats \<and> a = Once_treat"
  using assms by (auto simp: once_accesses_def split: once_action.splits once_pc.splits if_splits)

text \<open>Each case of a conflict, with where the threads then are.\<close>

lemma races_cases:
  assumes "mixed_reachable japi vt i s" "races japi vt a b s"
  shows "(\<exists>h. a = Streaming (Set_success_handler h)) \<and> b = Streaming Rx_handle \<or>
    (\<exists>h. a = Streaming (Set_failed_handler h)) \<and> b = Streaming Rx_report \<or>
    a = Blocking Once_treat \<and> b = Streaming Rx_handle"
proof -
  have inv: "lock_inv (mx_client s)" "stream_inv (mx_client s)"
    using mixed_inv [OF assms(1)] by simp_all
  obtain d where b: "b = Streaming d" "\<not> is_main d"
    using assms(2) by (auto simp: races_def by_receive_thread_def split: mixed_action.splits)
  obtain c' where rx: "act_rx japi vt d (mx_client s) = Some c'"
    using assms(2) b by (auto simp: races_def mixed_act_def client_act_def split: if_splits)
  obtain x y where x: "x \<in> set (accesses japi vt a s)"
    and y: "y \<in> set (rx_accesses japi vt d (mx_client s))" and xy: "conflicting x y"
    using assms(2) b by (auto simp: races_def accesses_def)
  note where_rx = rx_accesses_where [OF rx]
  show ?thesis
  proof (cases a)
    case (Blocking e)
    with x have "x = Reads Counter_keys \<or> x = Writes Counter_stats \<and> e = Once_treat"
      using once_accesses_what by (fastforce simp: accesses_def)
    with y xy where_rx(3,4) have "x = Writes Counter_stats \<and> e = Once_treat \<and> d = Rx_handle"
      by (fastforce simp: conflicting_iff)
    with Blocking b show ?thesis by simp
  next
    case (Streaming e)
    have main: "is_main e"
      using assms(2) Streaming by (simp add: races_def by_receive_thread_def)
    obtain c where act: "act_main vt e (mx_client s) = Some c"
      using assms(2) Streaming main by (auto simp: races_def mixed_act_def client_act_def split: if_splits)
    have x': "x \<in> set (main_accesses e)" using x Streaming main by (simp add: accesses_def)
    note idle = main_pointer_idle [OF act inv]
    consider m where "x = Reads m" "y = Writes m" | m where "x = Writes m" "y = Reads m"
      | m where "x = Writes m" "y = Writes m"
      using xy by (auto simp: conflicting_iff)
    then show ?thesis
    proof cases
      case 1
      then show ?thesis
        using x' y main_accesses_what(2) [of m e] where_rx(3) [of m] by auto
    next
      case 2
      then show ?thesis
        using x' y main_accesses_what(1) [of m e] where_rx(1) where_rx(4) [of m] idle b Streaming by auto
    next
      case 3
      then show ?thesis
        using x' y main_accesses_what(1) [of m e] where_rx(1,2) where_rx(3) [of m] idle by auto
    qed
  qed
qed


lemma stores_record_iff:
  assumes "json_pointer_keys japi" "cs_interface s = Some (PbrCounters c)"
  shows "stores_record japi pbr_basic_vt r s \<longleftrightarrow> response_record map_to_basic_stat japi r \<noteq> None"
proof -
  obtain l res where "check_response japi pbr_basic_vt r c = (l, res)" by fastforce
  with basic_counters.check_response_record [OF assms(1) this] assms(2) show ?thesis
    by (auto simp: stores_record_def split: option.splits sum.splits)
qed

section \<open>A run with both\<close>

definition mixed_actions :: "mixed_action list" where
  "mixed_actions = map Streaming (set_actions @ open_actions) @
     [Blocking (Call_once sample_context default_rpc_args), Blocking (Once_write_returns True),
      Blocking (Once_receive (Some sample_response)), Streaming (Rx_receive (Some sample_response))]"

definition once_sample_request :: subscribe_request where
  "once_sample_request = Some (sample_list (once_args default_rpc_args) [pbr_request_path key_p1_r3])"

lemma once_sample_request_built:
  "subscribe_request_helper None (default_rpc_args\<lparr>args_mode := ONCE\<rparr>)
     \<lparr>rsa_prefix = path_origin, paths_of_interest = get_gnmi_paths (pbr_keys sample_counters)\<rparr> =
   ([], once_sample_request, SUCCESS)"
  using once_request [of default_rpc_args sample_counters]
  by (simp add: once_sample_request_def once_args_def decodable_def default_rpc_args_def
      sample_counters_def servable_key_p1_r3)

lemma mixed_run_streaming:
  assumes "client_run japi vt as (mx_client s) = Some c" "mx_once s = Once_idle"
  shows "mixed_run japi vt (map Streaming as) s = Some (s\<lparr>mx_client := c\<rparr>)"
  using assms
proof (induction as arbitrary: s)
  case (Cons a as)
  then obtain c1 where c1: "client_act japi vt a (mx_client s) = Some c1" "client_run japi vt as c1 = Some c"
    by (auto split: option.splits)
  then have "mixed_act japi vt (Streaming a) s = Some (s\<lparr>mx_client := c1\<rparr>)"
    using Cons.prems(2) by (auto simp: mixed_act_def client_act_def split: if_splits)
  then show ?case
    using Cons.IH [of "s\<lparr>mx_client := c1\<rparr>"] c1(2) Cons.prems(2) by simp
qed simp

lemma run_mixed:
  "\<exists>s. mixed_run number_json pbr_basic_vt mixed_actions (mixed_initial sample_object) = Some s \<and>
     cs_fault (mx_client s) = None \<and> cs_interface (mx_client s) = sample_object \<and>
     mx_once s = Once_response sample_response \<and> cs_rx (mx_client s) = Rx_response sample_response \<and>
     cs_success_set (mx_client s) \<and> once_responses (mx_events s) = [sample_response] \<and>
     read_responses (cs_events (mx_client s)) = [sample_response]"
proof -
  have opened: "mixed_run number_json pbr_basic_vt (map Streaming (set_actions @ open_actions))
      (mixed_initial sample_object) = Some ((mixed_initial sample_object)\<lparr>mx_client :=
        the (run_sample (set_actions @ open_actions))\<rparr>)"
    by (rule mixed_run_streaming)
      (simp_all add: mixed_initial_def run_opening flip: run_sample_def)
  have "username sample_context \<noteq> ''''" "password sample_context \<noteq> ''''"
    by (simp_all add: sample_context_def)
  then show ?thesis
    unfolding mixed_actions_def mixed_run_append opened
    by (simp add: run_opening mixed_act_def once_act_def once_ops once_goes_def mixed_initial_def
        sample_object_def counters_name_def once_sample_request_built client_act_def is_main_def
        act_rx_def rx_read_def emit_def)
qed


lemma run_mixed_reachable: "mixed_run japi vt as (mixed_initial i) = Some s \<Longrightarrow> mixed_reachable japi vt i s"
  by (rule mixed_run_reachable [OF mixed_starts])

lemma sample_record: "response_record map_to_basic_stat number_json sample_response =
    Some (sample_stat key_p1_r3 1 2 3 4 ''g'' ''a'')"
proof -
  have check: "check_response number_json pbr_basic_vt sample_response sample_counters =
      ([], Inr (Some (BasicStat (sample_stat key_p1_r3 1 2 3 4 ''g'' ''a'')), SUCCESS))"
    by (rule sample_check)
  show ?thesis
    using basic_counters.check_response_record [OF number_json_pointer_keys check]
    by (simp add: add_stats_def split: option.splits)
qed

section \<open>Properties of both calls\<close>

text \<open>
  C6: the data races of the client are these and no others. Whatever the threads do, two accesses to
  one member that nothing orders are either a handler that is set while the receive thread is about
  to call it, or a blocking call and the receive thread storing their records in the counter object.
  All the members of the stream, and the two halves of the gRPC stream, are free of races.
\<close>

theorem client_races_only:
  assumes "mixed_reachable japi vt i s" "races japi vt a b s"
  shows "(\<exists>h. a = Streaming (Set_success_handler h)) \<and> b = Streaming Rx_handle \<or>
    (\<exists>h. a = Streaming (Set_failed_handler h)) \<and> b = Streaming Rx_report \<or>
    a = Blocking Once_treat \<and> b = Streaming Rx_handle"
  using races_cases [OF assms] .

theorem client_races_only_witness:
  "\<exists>s a. mixed_reachable number_json pbr_basic_vt sample_object s \<and>
     races number_json pbr_basic_vt a (Streaming Rx_handle) s \<and> a = Blocking Once_treat"
proof -
  obtain s where s: "mixed_run number_json pbr_basic_vt mixed_actions (mixed_initial sample_object) = Some s"
    "cs_fault (mx_client s) = None" "cs_interface (mx_client s) = sample_object"
    "mx_once s = Once_response sample_response" "cs_rx (mx_client s) = Rx_response sample_response"
    using run_mixed by blast
  have reach: "mixed_reachable number_json pbr_basic_vt sample_object s"
    by (rule run_mixed_reachable [OF s(1)])
  have "stores_record number_json pbr_basic_vt sample_response (mx_client s)"
    using s(3) stores_record_iff [OF number_json_pointer_keys, of "mx_client s" sample_counters]
      sample_record by (simp add: sample_object_def)
  then have race: "races number_json pbr_basic_vt (Blocking Once_treat) (Streaming Rx_handle) s"
    using s(2-5) by (simp add: races_def by_receive_thread_def is_main_def mixed_act_def once_act_def
        client_act_def act_rx_def accesses_def once_accesses_def rx_accesses_def)
  from client_races_only [OF reach race] have "(Blocking Once_treat :: mixed_action) = Blocking Once_treat"
    by auto
  with reach race show ?thesis by blast
qed

text \<open>
  Storing records is a data race. When a blocking call and the receive thread of the same client
  have each read a response and not treated it yet, their next steps race exactly when both
  responses carry a record: both then write the vector of the counter object, and no mutex is held.
\<close>

lemma storing_records_races_iff:
  assumes "json_pointer_keys japi" "mixed_reachable japi pbr_basic_vt (Some (PbrCounters c0)) s"
    and "cs_fault (mx_client s) = None"
    and "mx_once s = Once_response r" "cs_rx (mx_client s) = Rx_response r'"
  shows "races japi pbr_basic_vt (Blocking Once_treat) (Streaming Rx_handle) s \<longleftrightarrow>
    response_record map_to_basic_stat japi r \<noteq> None \<and> response_record map_to_basic_stat japi r' \<noteq> None"
proof -
  obtain c where "cs_interface (mx_client s) = Some (PbrCounters c)"
    using basic_counters.reachable_mixed_records [OF assms(1,2)]
    by (auto simp: basic_counters.mixed_records_def)
  note stores = stores_record_iff [OF assms(1) this]
  show ?thesis
    using assms(3-5) by (auto simp: races_def by_receive_thread_def is_main_def mixed_act_def once_act_def
        client_act_def act_rx_def accesses_def once_accesses_def rx_accesses_def stores)
qed

lemma storing_records_races_iff_example:
  "\<exists>s. mixed_reachable number_json pbr_basic_vt sample_object s \<and> cs_mtx (mx_client s) \<noteq> Some Receive_thread \<and>
     races number_json pbr_basic_vt (Blocking Once_treat) (Streaming Rx_handle) s"
proof -
  obtain s where s: "mixed_run number_json pbr_basic_vt mixed_actions (mixed_initial sample_object) = Some s"
    "cs_fault (mx_client s) = None"
    "mx_once s = Once_response sample_response" "cs_rx (mx_client s) = Rx_response sample_response"
    using run_mixed by blast
  have reach: "mixed_reachable number_json pbr_basic_vt (Some (PbrCounters sample_counters)) s"
    using run_mixed_reachable [OF s(1)] by (simp add: sample_object_def)
  have "races number_json pbr_basic_vt (Blocking Once_treat) (Streaming Rx_handle) s"
    using storing_records_races_iff [OF number_json_pointer_keys reach s(2-4)] sample_record by simp
  moreover have "cs_mtx (mx_client s) \<noteq> Some Receive_thread"
    using mixed_inv [OF reach] s(4) by (simp add: lock_inv_def)
  ultimately show ?thesis using reach by (auto simp: sample_object_def)
qed

end
