(* ===== verification/Program_Races.thy ===== *)
theory Program_Races
  imports Client_Program Mixed_Calls
begin

text \<open>
  The data races of a program that drives a streaming client. Its handlers use the variables they
  captured in the receive thread, its statements use them in the main thread, some under a mutex of
  the program. A table says which variables are used where; the contract \<open>guarded_program\<close> ties the
  table to the code and gives that the only race left is the end of the scope of the variables.
\<close>

section \<open>The uses of the captured variables\<close>

text \<open>A use reads or writes; a locked use is made under the mutex of the program.\<close>

datatype 'v var_use = Var_use (used_var: 'v) (use_writes: bool) (use_locked: bool)

abbreviation var_read :: "'v \<Rightarrow> 'v var_use" where "var_read v \<equiv> Var_use v False False"
abbreviation var_write :: "'v \<Rightarrow> 'v var_use" where "var_write v \<equiv> Var_use v True False"
abbreviation locked_read :: "'v \<Rightarrow> 'v var_use" where "locked_read v \<equiv> Var_use v False True"
abbreviation locked_write :: "'v \<Rightarrow> 'v var_use" where "locked_write v \<equiv> Var_use v True True"

definition use_conflict :: "'v var_use \<Rightarrow> 'v var_use \<Rightarrow> bool" where
  "use_conflict x y \<longleftrightarrow>
     used_var x = used_var y \<and> (use_writes x \<or> use_writes y) \<and> \<not> (use_locked x \<and> use_locked y)"

record ('c, 'q, 'p, 'v) captured =
  cv_main :: "'p \<Rightarrow> 'v var_use list"
  cv_success :: "'c \<Rightarrow> 'q \<Rightarrow> 'v var_use list"
  cv_failed :: "grpc_status \<Rightarrow> 'q \<Rightarrow> 'v var_use list"

definition writes_var :: "'v \<Rightarrow> 'v var_use list \<Rightarrow> bool" where
  "writes_var v us \<longleftrightarrow> (\<exists>x \<in> set us. use_writes x \<and> used_var x = v)"

lemma writes_var_simps [simp]:
  "\<not> writes_var v []"
  "writes_var v (x # us) \<longleftrightarrow> use_writes x \<and> used_var x = v \<or> writes_var v us"
  "writes_var v (us @ us') \<longleftrightarrow> writes_var v us \<or> writes_var v us'"
  by (auto simp: writes_var_def)

text \<open>What the handler called at an event uses.\<close>

definition event_uses ::
  "('c, 'q, 'p, 'v) captured \<Rightarrow> 'c client_state \<Rightarrow> 'q \<Rightarrow> client_event \<Rightarrow> 'v var_use list" where
  "event_uses cv s q e =
     (case e of
        Ev_success_handler \<Rightarrow> (case counters_of s of Some c \<Rightarrow> cv_success cv c q | None \<Rightarrow> [])
      | Ev_failed_handler status \<Rightarrow> cv_failed cv status q
      | _ \<Rightarrow> [])"

definition variable_uses ::
  "'j json_api \<Rightarrow> ('c, 's) pbr_vtable \<Rightarrow> ('c, 'q, 'p, 'v) captured \<Rightarrow> program_action \<Rightarrow>
     ('c, 'q, 'p) program_state \<Rightarrow> 'v var_use list" where
  "variable_uses japi vt cv a st =
     (case a of
        Do_client b \<Rightarrow>
          (case client_act japi vt b (ps_client st) of
             None \<Rightarrow> []
           | Some s' \<Rightarrow>
               concat (map (event_uses cv s' (ps_locals st)) (new_events (ps_client st) s')))
      | Do_command now \<Rightarrow> cv_main cv (ps_pc st)
      | Do_return \<Rightarrow> [])"

text \<open>The accesses to the members of the client, and the step of the client that makes them.\<close>

definition member_step ::
  "('c, 'q, 'p) stream_program \<Rightarrow> program_action \<Rightarrow> ('c, 'q, 'p) program_state \<Rightarrow>
     client_action option" where
  "member_step prog a st =
     (case a of
        Do_client b \<Rightarrow> Some b
      | Do_command now \<Rightarrow>
          (case pg_command prog (ps_pc st) of
             Register f k \<Rightarrow> Some (Call_register (fst (f (ps_locals st))) (snd (f (ps_locals st))))
           | Close p \<Rightarrow> Some Call_close
           | _ \<Rightarrow> None)
      | Do_return \<Rightarrow> None)"

definition as_mixed :: "'c client_state \<Rightarrow> 'c mixed_state" where
  "as_mixed s = \<lparr>mx_client = s, mx_once = Once_idle, mx_events = []\<rparr>"

definition member_accesses ::
  "'j json_api \<Rightarrow> ('c, 's) pbr_vtable \<Rightarrow> ('c, 'q, 'p) stream_program \<Rightarrow> program_action \<Rightarrow>
     ('c, 'q, 'p) program_state \<Rightarrow> access list" where
  "member_accesses japi vt prog a st =
     (case member_step prog a st of
        None \<Rightarrow> [] | Some b \<Rightarrow> accesses japi vt (Streaming b) (as_mixed (ps_client st)))"

definition receive_action :: "program_action \<Rightarrow> bool" where
  "receive_action a \<longleftrightarrow> (case a of Do_client b \<Rightarrow> \<not> is_main b | _ \<Rightarrow> False)"

text \<open>
  A race of the program: the main thread and the receive thread can both take their action, and the
  actions touch a member of the client or a captured variable in conflicting ways.
\<close>

definition program_races ::
  "'j json_api \<Rightarrow> ('c, 's) pbr_vtable \<Rightarrow> ('c, 'q, 'p) stream_program \<Rightarrow> ('c, 'q, 'p, 'v) captured \<Rightarrow>
     program_action \<Rightarrow> program_action \<Rightarrow> ('c, 'q, 'p) program_state \<Rightarrow> bool" where
  "program_races japi vt prog cv a b st \<longleftrightarrow>
     \<not> receive_action a \<and> receive_action b \<and>
     program_act japi vt prog a st \<noteq> None \<and> program_act japi vt prog b st \<noteq> None \<and>
     ((\<exists>x \<in> set (member_accesses japi vt prog a st).
         \<exists>y \<in> set (member_accesses japi vt prog b st). conflicting x y) \<or>
      (\<exists>x \<in> set (variable_uses japi vt cv a st).
         \<exists>y \<in> set (variable_uses japi vt cv b st). use_conflict x y))"

section \<open>The members of the client\<close>

text \<open>A client without a blocking call is one of the clients of \<open>Mixed_Calls\<close>.\<close>

lemma client_reachable_as_mixed:
  assumes "client_reachable japi vt i s"
  shows "mixed_reachable japi vt i (as_mixed s)"
  using assms
proof (induction rule: client_reachable.induct)
  case reach_initial
  have "as_mixed (client_initial i) = mixed_initial i" by (simp add: as_mixed_def mixed_initial_def)
  then show ?case using mixed_starts by simp
next
  case (reach_step s s')
  from reach_step(2) obtain a where "client_act japi vt a s = Some s'" by (elim client_stepE)
  then have "mixed_act japi vt (Streaming a) (as_mixed s) = Some (as_mixed s')"
    by (auto simp: mixed_act_def as_mixed_def client_act_def split: if_splits)
  with reach_step.IH show ?case by (rule mixed_steps)
qed

lemma member_step_enabled:
  assumes "program_act japi vt prog a st \<noteq> None" "member_step prog a st = Some b"
  shows "mixed_act japi vt (Streaming b) (as_mixed (ps_client st)) \<noteq> None"
    and "b \<noteq> Set_success_handler h" "b \<noteq> Set_failed_handler h"
  using assms
  by (auto simp: program_act_def member_step_def program_command_def client_part_def inner_action_def
      mixed_act_def as_mixed_def client_act_def is_main_def split: program_action.splits command.splits
      if_splits option.splits prod.splits)

text \<open>A program sets its handlers before its first call and makes no blocking call.\<close>

lemma members_race_free:
  assumes "program_reachable japi vt prog i q p st" "program_races japi vt prog cv a b st"
  shows "\<not> (\<exists>x \<in> set (member_accesses japi vt prog a st).
    \<exists>y \<in> set (member_accesses japi vt prog b st). conflicting x y)"
proof
  assume "\<exists>x \<in> set (member_accesses japi vt prog a st).
    \<exists>y \<in> set (member_accesses japi vt prog b st). conflicting x y"
  then obtain c d where c: "member_step prog a st = Some c" and d: "member_step prog b st = Some d"
    and conflict: "\<exists>x \<in> set (accesses japi vt (Streaming c) (as_mixed (ps_client st))).
      \<exists>y \<in> set (accesses japi vt (Streaming d) (as_mixed (ps_client st))). conflicting x y"
    by (cases "member_step prog a st"; cases "member_step prog b st") (auto simp: member_accesses_def)
  have acts: "program_act japi vt prog a st \<noteq> None" "program_act japi vt prog b st \<noteq> None"
    "\<not> receive_action a" "receive_action b"
    using assms(2) by (simp_all add: program_races_def)
  then have "is_main c" "\<not> is_main d"
    using c d by (auto simp: receive_action_def member_step_def is_main_def
        split: program_action.splits command.splits)
  then have "races japi vt (Streaming c) (Streaming d) (as_mixed (ps_client st))"
    using member_step_enabled(1) [OF acts(1) c] member_step_enabled(1) [OF acts(2) d] conflict
    by (simp add: races_def by_receive_thread_def)
  from races_cases [OF client_reachable_as_mixed [OF program_client_reachable [OF assms(1)]] this]
  show False using member_step_enabled(2,3) [OF acts(1) c] by auto
qed

section \<open>The captured variables\<close>

lemma event_uses_quiet: "\<not> handler_event e \<Longrightarrow> event_uses cv s q e = []"
  by (cases e) (simp_all add: event_uses_def)

lemma event_uses_handler:
  assumes "y \<in> set (event_uses cv s q e)"
  shows "(\<exists>c. y \<in> set (cv_success cv c q)) \<or> (\<exists>status. y \<in> set (cv_failed cv status q))"
  using assms by (cases e) (auto simp: event_uses_def split: option.splits)

lemma main_calls_no_handler:
  assumes "is_main a"
  shows "variable_uses japi vt cv (Do_client a) st = []"
proof (cases "client_act japi vt a (ps_client st)")
  case (Some s')
  have "event_uses cv s' (ps_locals st) e = []" if "e \<in> set (new_events (ps_client st) s')" for e
    using client_act_events(2) [OF Some assms that] by (rule event_uses_quiet)
  with Some show ?thesis by (simp add: variable_uses_def)
qed (simp add: variable_uses_def)

section \<open>Guarded programs\<close>

text \<open>
  The contract of a program and its table of uses: a variable that the table does not show as written
  keeps its value, and while a stream may be open, a statement uses no variable in conflict with a
  handler. The end of the scope, which writes them all, is excepted.
\<close>

locale guarded_program = scoped_program prog in_scope may_open
  for prog :: "('c, 'q, 'p) stream_program" and in_scope :: "'p \<Rightarrow> bool" and may_open :: "'p \<Rightarrow> bool" +
  fixes cv :: "('c, 'q, 'p, 'v) captured"
    and same :: "'v \<Rightarrow> 'q \<Rightarrow> 'q \<Rightarrow> bool"
  assumes same_refl: "same v q q"
    and success_frame: "\<not> writes_var v (cv_success cv c q) \<Longrightarrow> same v q (pg_success prog c q)"
    and failed_frame: "\<not> writes_var v (cv_failed cv status q) \<Longrightarrow> same v q (pg_failed prog status q)"
    and local_frame: "pg_command prog p = Local l \<Longrightarrow> l now q = (q', p') \<Longrightarrow>
      \<not> writes_var v (cv_main cv p) \<Longrightarrow> same v q q'"
    and wait_frame: "pg_command prog p = Wait w g \<Longrightarrow> g q = (q', p') \<Longrightarrow>
      \<not> writes_var v (cv_main cv p) \<Longrightarrow> same v q q'"
    and success_guarded: "may_open p \<Longrightarrow> \<nexists>p'. pg_command prog p = Destroy_locals p' \<Longrightarrow>
      x \<in> set (cv_main cv p) \<Longrightarrow> y \<in> set (cv_success cv c q) \<Longrightarrow> \<not> use_conflict x y"
    and failed_guarded: "may_open p \<Longrightarrow> \<nexists>p'. pg_command prog p = Destroy_locals p' \<Longrightarrow>
      x \<in> set (cv_main cv p) \<Longrightarrow> y \<in> set (cv_failed cv status q) \<Longrightarrow> \<not> use_conflict x y"

context guarded_program
begin

lemma deliver_frame:
  assumes "\<not> writes_var v (event_uses cv (ps_client st) (ps_locals st) e)"
  shows "same v (ps_locals st) (ps_locals (deliver prog e st))"
  using assms success_frame failed_frame same_refl
  by (cases e) (auto simp: deliver_def run_handler_def event_uses_def split: option.splits)

lemma client_part_frame:
  assumes "client_part japi vt prog a st = Some st'"
    and "\<not> writes_var v (variable_uses japi vt cv (Do_client a) st)"
  shows "same v (ps_locals st) (ps_locals st')"
proof (cases "is_main a")
  case True
  with client_part_main [OF assms(1)] same_refl show ?thesis by auto
next
  case False
  obtain s' where s': "client_act japi vt a (ps_client st) = Some s'"
    and st': "st' = fold (deliver prog) (new_events (ps_client st) s') (st\<lparr>ps_client := s'\<rparr>)"
    using assms(1) by (auto simp: client_part_def split: option.splits)
  have "act_rx japi vt a (ps_client st) = Some s'"
    using s' False by (auto simp: client_act_def split: if_splits)
  from act_rx_calls [OF this] obtain ls h where
    "cs_events s' = cs_events (ps_client st) @ ls @ h"
    and ls: "\<forall>e \<in> set ls. \<not> handler_event e" and h: "h = [] \<or> (\<exists>e. h = [e])"
    by blast
  then have es: "new_events (ps_client st) s' = ls @ h" by (simp add: new_events_def)
  have st'_h: "st' = fold (deliver prog) h (st\<lparr>ps_client := s'\<rparr>)"
    by (simp add: st' es deliver_all_quiet [OF ls])
  from h show ?thesis
  proof (elim disjE exE)
    fix e assume "h = [e]"
    then show ?thesis
      using st'_h assms(2) s' es deliver_frame [of v "st\<lparr>ps_client := s'\<rparr>" e]
      by (simp add: variable_uses_def)
  qed (use st'_h same_refl in simp)
qed

text \<open>The table is complete: a step changes no variable beside those it writes.\<close>

lemma only_written_variables_change:
  assumes "program_act japi vt prog a st = Some st'"
    and "\<not> writes_var v (variable_uses japi vt cv a st)"
  shows "same v (ps_locals st) (ps_locals st')"
proof (cases a)
  case (Do_client b)
  with assms client_part_frame show ?thesis by (auto simp: program_act_def split: if_splits)
next
  case (Do_command now)
  then have act: "program_command japi vt prog now st = Some st'"
    and unwritten: "\<not> writes_var v (cv_main cv (ps_pc st))"
    using assms by (auto simp: program_act_def variable_uses_def split: if_splits)
  show ?thesis
  proof (cases "pg_command prog (ps_pc st)")
    case Register
    from program_command_register [OF act Register] same_refl show ?thesis by auto
  next
    case Close
    from program_command_close [OF act Close] same_refl show ?thesis by auto
  qed (use act same_refl local_frame [OF _ _ unwritten] wait_frame [OF _ _ unwritten] in
    \<open>auto simp: program_command_def split: prod.splits if_splits\<close>)
next
  case Do_return
  with assms same_refl show ?thesis
    by (auto simp: program_act_def program_return_def split: if_splits option.splits pending_call.splits)
qed

lemma handler_uses:
  assumes "y \<in> set (variable_uses japi vt cv (Do_client a) st)"
  shows "(\<exists>c. y \<in> set (cv_success cv c (ps_locals st))) \<or> (\<exists>status. y \<in> set (cv_failed cv status (ps_locals st)))"
proof -
  obtain s e where "y \<in> set (event_uses cv s (ps_locals st) e)"
    using assms by (auto simp: variable_uses_def split: option.splits)
  then show ?thesis by (rule event_uses_handler)
qed

text \<open>The only race of a guarded program is between the end of the scope and a handler.\<close>

lemma races_only_at_end:
  assumes "program_reachable japi vt prog i q p st" "in_scope p"
    and "program_races japi vt prog cv a b st"
  shows "\<exists>now p'. a = Do_command now \<and> ps_call st = None \<and>
    pg_command prog (ps_pc st) = Destroy_locals p' \<and> may_open (ps_pc st)"
proof -
  have acts: "program_act japi vt prog a st \<noteq> None" "program_act japi vt prog b st \<noteq> None"
    "\<not> receive_action a" "receive_action b"
    using assms(3) by (simp_all add: program_races_def)
  obtain x y where x: "x \<in> set (variable_uses japi vt cv a st)"
    and y: "y \<in> set (variable_uses japi vt cv b st)" and xy: "use_conflict x y"
    using assms(3) members_race_free [OF assms(1,3)] by (auto simp: program_races_def)
  obtain d where b: "b = Do_client d" "\<not> is_main d"
    using acts(4) by (auto simp: receive_action_def split: program_action.splits)
  have "\<not> (\<exists>c. a = Do_client c)"
    using x acts(3) main_calls_no_handler [of _ japi vt cv st] by (auto simp: receive_action_def)
  moreover have "a \<noteq> Do_return" using x by (auto simp: variable_uses_def)
  ultimately obtain now where a: "a = Do_command now" by (cases a) auto
  then have call: "ps_call st = None" and x': "x \<in> set (cv_main cv (ps_pc st))"
    using acts(1) x by (auto simp: program_act_def variable_uses_def split: if_splits)
  obtain s' where "act_rx japi vt d (ps_client st) = Some s'"
    using acts(2) b by (auto simp: program_act_def client_part_def client_act_def
        split: if_splits option.splits)
  then have open_pc: "may_open (ps_pc st)"
    using closed_at_marked_points [OF assms(1,2) call] act_rx_joinable by blast
  moreover have "\<exists>p'. pg_command prog (ps_pc st) = Destroy_locals p'"
    using handler_uses y b(1) xy success_guarded [OF open_pc _ x'] failed_guarded [OF open_pc _ x'] by blast
  ultimately show ?thesis using a call by blast
qed

end

section \<open>A sample that meets the end of the scope\<close>

lemma sample_races_at_end:
  assumes "receiving st" "ps_call st = None" "pg_command prog (ps_pc st) = Destroy_locals p'"
    and "x \<in> set (cv_main cv (ps_pc st))"
    and "\<And>c. pbr_stats c \<noteq> [] \<Longrightarrow> y \<in> set (cv_success cv c (ps_locals st))" "use_conflict x y"
  shows "\<exists>st1. program_run number_json pbr_basic_vt prog [Do_client (Rx_receive (Some sample_response))] st =
      Some st1 \<and> program_races number_json pbr_basic_vt prog cv (Do_command 0) (Do_client Rx_handle) st1"
proof -
  obtain c n where c: "cs_interface (ps_client st) = Some (PbrCounters c)"
    and n: "cs_rw (ps_client st) = Some n"
    using assms(1) by (auto simp: receiving_def counters_of_def split: option.splits gnmi_counters.splits)
  define st1 where "st1 = st\<lparr>ps_client := (ps_client st)\<lparr>cs_events := cs_events (ps_client st) @
      [Ev_read n (Some sample_response)], cs_rx := Rx_response sample_response\<rparr>\<rparr>"
  have run: "program_run number_json pbr_basic_vt prog [Do_client (Rx_receive (Some sample_response))] st =
      Some st1"
    using assms(1) n by (simp add: receiving_def program_simps rx_read_def st1_def)
  let ?stat = "sample_stat key_p1_r3 1 2 3 4 ''g'' ''a''"
  let ?c = "c\<lparr>pbr_stats := pbr_stats c @ [?stat]\<rparr>"
  let ?s2 = "(ps_client st1)\<lparr>cs_rx := Rx_read, cs_interface := Some (PbrCounters ?c),
      cs_events := cs_events (ps_client st1) @
        [Ev_log (''Client received a response.'', VERBOSE), Ev_success_handler]\<rparr>"
  have handle: "client_act number_json pbr_basic_vt Rx_handle (ps_client st1) = Some ?s2"
    using assms(1) c by (simp add: receiving_def st1_def client_act_def is_main_def act_rx_def
        rx_response_def sample_check add_stats_def emit_def Let_def)
  then have "event_uses cv ?s2 (ps_locals st1) Ev_success_handler = cv_success cv ?c (ps_locals st)"
    by (simp add: event_uses_def counters_of_def st1_def)
  with handle have "y \<in> set (variable_uses number_json pbr_basic_vt cv (Do_client Rx_handle) st1)"
    using assms(5) [of ?c] by (simp add: variable_uses_def new_events_def)
  moreover have "x \<in> set (variable_uses number_json pbr_basic_vt cv (Do_command 0) st1)"
    using assms(4) by (simp add: variable_uses_def st1_def)
  moreover have "ps_fault st1 = None" "cs_fault (ps_client st1) = None"
    using assms(1) by (simp_all add: receiving_def st1_def)
  then have "program_act number_json pbr_basic_vt prog (Do_client Rx_handle) st1 \<noteq> None"
    "program_act number_json pbr_basic_vt prog (Do_command 0) st1 \<noteq> None"
    using handle assms(2,3)
    by (simp_all add: program_act_def client_part_def inner_action_def program_command_def st1_def)
  moreover have "receive_action (Do_client Rx_handle)" "\<not> receive_action (Do_command 0)"
    by (simp_all add: receive_action_def is_main_def)
  ultimately have "program_races number_json pbr_basic_vt prog cv (Do_command 0) (Do_client Rx_handle) st1"
    using assms(6) unfolding program_races_def by blast
  with run show ?thesis by blast
qed

end
