(* ===== verification/Program_Progress.thy ===== *)
theory Program_Progress
  imports Client_Program
begin

text \<open>
  When a program and its client can go on. A thread waits for the mutex, for the other thread to end, or
  for the condition of the program; the mutex is always given back, and the thread that is joined
  always ends, so the only lasting wait is the one of the program itself.
\<close>

section \<open>The client\<close>

text \<open>Whoever holds the mutex can take its next step.\<close>

lemma main_holder_steps:
  assumes "main_holds (cs_main s)"
  shows "\<exists>a. inner_action a \<and> is_main a \<and> act_main vt a s \<noteq> None"
proof (cases "cs_main s")
  case Reg_open
  then show ?thesis by (intro exI [of _ Main_open]) (simp add: inner_action_def is_main_def act_main_def)
next
  case Reg_unlock
  then show ?thesis by (intro exI [of _ Main_release]) (simp add: inner_action_def is_main_def act_main_def)
next
  case Reg_write
  then show ?thesis by (intro exI [of _ "Main_write True"]) (simp add: inner_action_def is_main_def act_main_def)
next
  case Close_cancel
  then show ?thesis by (intro exI [of _ Main_cancel]) (simp add: inner_action_def is_main_def act_main_def)
qed (use assms in simp_all)

lemma rx_steps:
  assumes "cs_rx s \<noteq> Rx_none" "cs_rx s \<noteq> Rx_done" "cs_rx s = Rx_lock \<Longrightarrow> cs_mtx s = None"
  shows "\<exists>a. \<not> is_main a \<and> act_rx japi vt a s \<noteq> None"
proof (cases "cs_rx s")
  case Rx_read
  then show ?thesis by (intro exI [of _ "Rx_receive None"]) (simp add: is_main_def act_rx_def)
next
  case Rx_response
  then show ?thesis by (intro exI [of _ Rx_handle]) (simp add: is_main_def act_rx_def)
next
  case Rx_lock
  then show ?thesis using assms(3) by (intro exI [of _ Rx_acquire]) (simp add: is_main_def act_rx_def)
next
  case Rx_writes_done
  then show ?thesis by (intro exI [of _ "Rx_half_close True"]) (simp add: is_main_def act_rx_def)
next
  case Rx_finish
  then show ?thesis by (intro exI [of _ "Rx_end st" for st]) (simp add: is_main_def act_rx_def)
next
  case Rx_status
  then show ?thesis by (intro exI [of _ Rx_report]) (simp add: is_main_def act_rx_def)
qed (use assms in simp_all)

lemma rx_inner: "\<not> is_main a \<Longrightarrow> inner_action a"
  by (cases a) (simp_all add: is_main_def inner_action_def)

lemma main_steps:
  assumes "cs_main s \<noteq> Main_idle" "cs_mtx s = None" "cs_main s = Close_join \<Longrightarrow> cs_rx s = Rx_done"
  shows "\<exists>a. inner_action a \<and> is_main a \<and> act_main vt a s \<noteq> None"
proof (cases "main_holds (cs_main s)")
  case True
  then show ?thesis by (rule main_holder_steps)
next
  case False
  then consider pc where "acquired (cs_main s) = Some pc" | "cs_main s = Close_join" | "cs_main s = Close_reset"
    using assms(1) by (cases "cs_main s") auto
  then show ?thesis
  proof cases
    case 1
    then show ?thesis
      using assms(2) by (intro exI [of _ Main_acquire]) (simp add: inner_action_def is_main_def act_main_def)
  next
    case 2
    then show ?thesis
      using assms(3) by (intro exI [of _ Main_join]) (simp add: inner_action_def is_main_def act_main_def)
  next
    case 3
    then show ?thesis by (intro exI [of _ Main_reset]) (simp add: inner_action_def is_main_def act_main_def)
  qed
qed

text \<open>A client whose calling thread is in a call, or whose receive thread runs, is never stuck.\<close>

lemma client_progress:
  assumes "client_reachable japi vt i s" "cs_fault s = None"
    and "cs_main s \<noteq> Main_idle \<or> cs_rx s \<noteq> Rx_none \<and> cs_rx s \<noteq> Rx_done"
  shows "\<exists>a. inner_action a \<and> client_act japi vt a s \<noteq> None"
proof -
  have inv: "lock_inv s" "stream_inv s" using reachable_inv [OF assms(1)] by simp_all
  have main: ?thesis if "\<exists>a. inner_action a \<and> is_main a \<and> act_main vt a s \<noteq> None"
    using that assms(2) by (auto simp: client_act_def)
  have rx: ?thesis if "\<exists>a. \<not> is_main a \<and> act_rx japi vt a s \<noteq> None"
    using that assms(2) rx_inner by (auto simp: client_act_def)
  show ?thesis
  proof (cases "cs_mtx s = Some Main_thread")
    case True
    then have "main_holds (cs_main s)" using inv(1) by (simp add: lock_inv_def)
    from main [OF main_holder_steps [OF this]] show ?thesis .
  next
    case other: False
    show ?thesis
    proof (cases "cs_rx s = Rx_none \<or> cs_rx s = Rx_done")
      case False
      have "cs_rx s = Rx_lock \<Longrightarrow> cs_mtx s = None"
        using other inv(1) by (cases "cs_mtx s") (auto simp: lock_inv_def intro: thread.exhaust)
      with False rx_steps rx show ?thesis by blast
    next
      case True
      then have "cs_mtx s = None" "cs_main s \<noteq> Main_idle"
        using other inv(1) assms(3) by (cases "cs_mtx s"; auto simp: lock_inv_def intro: thread.exhaust)+
      moreover have "cs_main s = Close_join \<Longrightarrow> cs_rx s = Rx_done"
        using True inv(2) by (auto simp: stream_inv_def)
      ultimately show ?thesis using main main_steps by blast
    qed
  qed
qed

section \<open>Programs\<close>

text \<open>Nothing can go on any more: every thread has ended or waits for ever.\<close>

definition stuck ::
  "'j json_api \<Rightarrow> ('c, 's) pbr_vtable \<Rightarrow> ('c, 'q, 'p) stream_program \<Rightarrow> ('c, 'q, 'p) program_state \<Rightarrow>
     bool" where
  "stuck japi vt prog st \<longleftrightarrow> (\<forall>a. program_act japi vt prog a st = None)"

text \<open>The main thread waits for a condition that does not hold.\<close>

definition blocked :: "('c, 'q, 'p) stream_program \<Rightarrow> ('c, 'q, 'p) program_state \<Rightarrow> bool" where
  "blocked prog st \<longleftrightarrow>
     (case pg_command prog (ps_pc st) of Wait w g \<Rightarrow> \<not> w (ps_locals st) | _ \<Rightarrow> False)"

lemma stuck_no_client_step:
  assumes "stuck japi vt prog st" "ps_fault st = None" "cs_fault (ps_client st) = None" "inner_action a"
  shows "client_act japi vt a (ps_client st) = None"
proof -
  have "program_act japi vt prog (Do_client a) st = None" using assms(1) by (simp add: stuck_def)
  with assms(2-4) show ?thesis by (simp add: program_act_def client_part_def split: option.splits)
qed

lemma stuck_no_command:
  assumes "stuck japi vt prog st" "ps_fault st = None" "cs_fault (ps_client st) = None"
    and "ps_call st = None" "cs_main (ps_client st) = Main_idle"
  shows "pg_command prog (ps_pc st) = Halt \<or> blocked prog st"
proof -
  have "program_act japi vt prog (Do_command 0) st = None" using assms(1) by (simp add: stuck_def)
  then have "program_command japi vt prog 0 st = None" using assms(2-4) by (simp add: program_act_def)
  then show ?thesis
    using assms(3,5) by (cases "pg_command prog (ps_pc st)") (auto simp: program_command_def blocked_def
        client_part_def client_act_def is_main_def act_main_def Let_def split: prod.splits)
qed

text \<open>
  A program without faults is stuck exactly when its main thread is at its end, or waits for a
  condition that does not hold, and no receive thread is running.
\<close>

lemma stuck_iff:
  assumes "program_reachable japi vt prog i q p st" "ps_fault st = None" "cs_fault (ps_client st) = None"
  shows "stuck japi vt prog st \<longleftrightarrow>
    ps_call st = None \<and> (pg_command prog (ps_pc st) = Halt \<or> blocked prog st) \<and>
    (cs_rx (ps_client st) = Rx_none \<or> cs_rx (ps_client st) = Rx_done)"
proof
  assume stuck: "stuck japi vt prog st"
  note quiet = stuck_no_client_step [OF stuck assms(2,3)]
  have "cs_main (ps_client st) = Main_idle \<and> (cs_rx (ps_client st) = Rx_none \<or> cs_rx (ps_client st) = Rx_done)"
    using client_progress [OF program_client_reachable [OF assms(1)] assms(3)] quiet by (metis (lifting))
  then have idle: "cs_main (ps_client st) = Main_idle"
    and rx: "cs_rx (ps_client st) = Rx_none \<or> cs_rx (ps_client st) = Rx_done"
    by blast+
  have "program_act japi vt prog Do_return st = None" using stuck by (simp add: stuck_def)
  then have call: "ps_call st = None"
    using assms(2,3) idle by (auto simp: program_act_def program_return_def
        split: option.splits pending_call.splits)
  with stuck_no_command [OF stuck assms(2,3) _ idle] rx
  show "ps_call st = None \<and> (pg_command prog (ps_pc st) = Halt \<or> blocked prog st) \<and>
    (cs_rx (ps_client st) = Rx_none \<or> cs_rx (ps_client st) = Rx_done)"
    by blast
next
  assume rest: "ps_call st = None \<and> (pg_command prog (ps_pc st) = Halt \<or> blocked prog st) \<and>
    (cs_rx (ps_client st) = Rx_none \<or> cs_rx (ps_client st) = Rx_done)"
  have idle: "cs_main (ps_client st) = Main_idle"
    using reachable_call_inv [OF assms(1)] rest by (simp add: call_inv_def)
  have "client_act japi vt a (ps_client st) = None" if "inner_action a" for a
    using that idle rest
    by (cases a) (auto simp: client_act_def act_main_def act_rx_def inner_action_def is_main_def)
  then show "stuck japi vt prog st"
    using rest by (auto simp: stuck_def program_act_def program_command_def program_return_def
        client_part_def blocked_def split: program_action.splits command.splits)
qed

section \<open>Programs that end with a closing\<close>

text \<open>The last statement is a closing: the destructor of the client.\<close>

locale closing_program = scoped_program prog in_scope may_open
  for prog :: "('c, 'q, 'p) stream_program" and in_scope :: "'p \<Rightarrow> bool" and may_open :: "'p \<Rightarrow> bool" +
  assumes start_runs: "in_scope p \<Longrightarrow> pg_command prog p \<noteq> Halt"
    and local_runs: "pg_command prog p = Local l \<Longrightarrow> l now q = (q', p') \<Longrightarrow> pg_command prog p' \<noteq> Halt"
    and wait_runs: "pg_command prog p = Wait w g \<Longrightarrow> g q = (q', p') \<Longrightarrow> pg_command prog p' \<noteq> Halt"
    and destroy_runs: "pg_command prog p = Destroy_locals p' \<Longrightarrow> pg_command prog p' \<noteq> Halt"

context closing_program
begin

lemma ended_closed:
  assumes "program_reachable japi vt prog i q p st" "in_scope p" "pg_command prog (ps_pc st) = Halt"
  shows "ps_call st = None \<and> \<not> cs_joinable (ps_client st) \<and> cs_rx (ps_client st) = Rx_none"
proof -
  have "pg_command prog (ps_pc st) = Halt \<longrightarrow> ps_call st = None \<and> \<not> cs_joinable (ps_client st)"
    using assms(1)
  proof (induction rule: program_invariant)
    case initial
    then show ?case using start_runs [OF assms(2)] by (simp add: program_initial_def)
  next
    case (client a st st')
    note same = client_part_same [OF client(4)]
    show ?case
    proof
      assume "pg_command prog (ps_pc st') = Halt"
      then have closed: "ps_call st = None" "\<not> cs_joinable (ps_client st)"
        using client(5) same(2) by simp_all
      then have "cs_main (ps_client st) = Main_idle"
        using reachable_call_inv [OF client(1)] by (simp add: call_inv_def)
      with same(1) show "ps_call st' = None \<and> \<not> cs_joinable (ps_client st')"
        using closed same(3) inner_idle [OF client(3)] act_rx_joinable by (elim client_act_cases) fastforce+
    qed
  next
    case (command now st st')
    show ?case
    proof (cases "pg_command prog (ps_pc st)")
      case Register
      from program_command_register [OF command(4) Register] show ?thesis using Register by auto
    next
      case Close
      from program_command_close [OF command(4) Close] show ?thesis using Close by auto
    qed (use command(4) local_runs wait_runs destroy_runs in
      \<open>auto simp: program_command_def split: prod.splits if_splits\<close>)
  next
    case (return st st')
    have scope: "scope_inv st" by (rule reachable_scope_inv [OF return(1) assms(2)])
    obtain k where k: "ps_call st = Some k" "cs_main (ps_client st) = Main_idle"
      using return(4) by (auto simp: program_return_def split: if_splits option.splits)
    show ?case
    proof (cases k)
      case (In_register f)
      then have "in_scope (ps_pc st')"
        using scope k return(4) by (auto simp: scope_inv_def program_return_def)
      then show ?thesis using start_runs by blast
    next
      case (In_close p')
      then show ?thesis
        using scope k return(4) by (auto simp: scope_inv_def program_return_def)
    qed
  qed
  moreover have "stream_inv (ps_client st)"
    using reachable_inv [OF program_client_reachable [OF assms(1)]] by simp
  ultimately show ?thesis using assms(3) by (simp add: stream_inv_def)
qed

lemma stuck_ended_or_blocked:
  assumes "program_reachable japi vt prog i q p st" "in_scope p"
    and "ps_fault st = None" "cs_fault (ps_client st) = None"
  shows "stuck japi vt prog st \<longleftrightarrow>
    pg_command prog (ps_pc st) = Halt \<or>
    ps_call st = None \<and> blocked prog st \<and>
      (cs_rx (ps_client st) = Rx_none \<or> cs_rx (ps_client st) = Rx_done)"
  using stuck_iff [OF assms(1,3,4)] ended_closed [OF assms(1,2)] by (auto simp: blocked_def)

end

end
