(* ===== verification/Stream_Tutorial_Threads.thy ===== *)
theory Stream_Tutorial_Threads
  imports Stream_Tutorial_Run Program_Races Program_Progress
begin

text \<open>
  The data races of the composed stream tutorial: its handlers and its loop share the queue, the
  counter of responses and the objects that guard the queue.
\<close>

section \<open>What uses what\<close>

text \<open>
  The variables the handlers capture: \<^verbatim>\<open>my_deque\<close>, \<^verbatim>\<open>count\<close>, \<^verbatim>\<open>number_of_responses\<close>, \<^verbatim>\<open>queue_mtx\<close> and
  \<^verbatim>\<open>queue_cv\<close>. Locking the mutex and notifying the condition use these objects; only the end of their
  scope changes them.
\<close>

datatype tutorial_var = Var_deque | Var_count | Var_limit | Var_mutex | Var_condition

definition queue_push :: "tutorial_var var_use list" where
  "queue_push = [var_read Var_mutex, locked_write Var_deque, var_read Var_condition]"

definition tutorial_success_uses :: "pbr_basic \<Rightarrow> tutorial_locals \<Rightarrow> tutorial_var var_use list" where
  "tutorial_success_uses iface q =
     (if pbr_stats iface \<noteq> []
      then [var_write Var_count, var_read Var_count, var_read Var_limit] @
           (if tq_count (tm_queue q) + 1 \<ge> number_of_responses then queue_push else [])
      else [])"

definition tutorial_failed_uses :: "grpc_status \<Rightarrow> tutorial_locals \<Rightarrow> tutorial_var var_use list" where
  "tutorial_failed_uses status q = (if \<not> status_ok status then queue_push else [])"

fun tutorial_main_uses :: "tutorial_pc \<Rightarrow> tutorial_var var_use list" where
  "tutorial_main_uses Tut_wait =
     [var_read Var_mutex, var_read Var_condition, locked_read Var_deque, locked_write Var_deque]"
| "tutorial_main_uses (Tut_leave _) =
     map var_write [Var_deque, Var_count, Var_limit, Var_mutex, Var_condition]"
| "tutorial_main_uses _ = []"

definition tutorial_captured ::
  "(pbr_basic, tutorial_locals, tutorial_pc, tutorial_var) captured" where
  "tutorial_captured =
     \<lparr>cv_main = tutorial_main_uses, cv_success = tutorial_success_uses,
      cv_failed = tutorial_failed_uses\<rparr>"

text \<open>The value of a variable is the same in two states of the locals.\<close>

fun tutorial_same :: "tutorial_var \<Rightarrow> tutorial_locals \<Rightarrow> tutorial_locals \<Rightarrow> bool" where
  "tutorial_same Var_deque q q' \<longleftrightarrow> tq_deque (tm_queue q') = tq_deque (tm_queue q)"
| "tutorial_same Var_count q q' \<longleftrightarrow> tq_count (tm_queue q') = tq_count (tm_queue q)"
| "tutorial_same _ q q' \<longleftrightarrow> True"

lemmas tutorial_uses = tutorial_captured_def tutorial_success_uses_def tutorial_failed_uses_def
  queue_push_def

interpretation tutorial_guarded: guarded_program "tutorial_program tid" tutorial_in_scope
  tutorial_may_open tutorial_captured tutorial_same
proof
  show "tutorial_same v q q" for v q by (cases v) simp_all
  show "tutorial_same v q (pg_success (tutorial_program tid) c q)"
    if "\<not> writes_var v (cv_success tutorial_captured c q)" for v c q
    using that by (cases v) (auto simp: tutorial_uses tutorial_success_def Let_def split: if_splits)
  show "tutorial_same v q (pg_failed (tutorial_program tid) status q)"
    if "\<not> writes_var v (cv_failed tutorial_captured status q)" for v status q
    using that by (cases v) (auto simp: tutorial_uses tutorial_failed_def Let_def split: if_splits)
  show "tutorial_same v q q'"
    if "pg_command (tutorial_program tid) p = Local l" "l now q = (q', p')" for v p l now q q' p'
    using that by (cases v; cases p) (auto simp: tutorial_head_def tutorial_check_def
        tutorial_branch_def tutorial_again_def Let_def split: if_splits prod.splits)
  show "tutorial_same v q q'"
    if "pg_command (tutorial_program tid) p = Wait w g" "g q = (q', p')"
      "\<not> writes_var v (cv_main tutorial_captured p)" for v p w g q q' p'
    using that by (cases v; cases p) (auto simp: tutorial_uses tutorial_pop_def)
  show "\<not> use_conflict x y"
    if "\<nexists>p'. pg_command (tutorial_program tid) p = Destroy_locals p'"
      "x \<in> set (cv_main tutorial_captured p)" "y \<in> set (cv_success tutorial_captured c q)" for p x y c q
    using that by (cases p) (auto simp: tutorial_uses use_conflict_def split: if_splits)
  show "\<not> use_conflict x y"
    if "\<nexists>p'. pg_command (tutorial_program tid) p = Destroy_locals p'"
      "x \<in> set (cv_main tutorial_captured p)" "y \<in> set (cv_failed tutorial_captured status q)"
    for p x y status q
    using that by (cases p) (auto simp: tutorial_uses use_conflict_def split: if_splits)
qed

section \<open>Properties\<close>

text \<open>
  C37: the stream tutorial has one data race. In every interleaving the members of the client, the
  counter object and the captured variables are used without a race, with one exception: when the
  loop has been left at the limit of ten responses, the end of the scope destroys the variables while
  the receive thread may be in a handler that uses them.
\<close>

theorem stream_tutorial_races_only_at_limit:
  assumes "tutorial_reachable japi tid now st"
    and "program_races japi pbr_basic_vt (tutorial_program tid) tutorial_captured a b st"
  shows "ps_pc st = Tut_leave True \<and> (\<exists>t. a = Do_command t) \<and>
    number_of_responses \<le> success_calls (cs_events (ps_client st))"
proof -
  obtain t p' where a: "a = Do_command t" and call: "ps_call st = None"
    and destroy: "pg_command (tutorial_program tid) (ps_pc st) = Destroy_locals p'"
    and "tutorial_may_open (ps_pc st)"
    using tutorial_guarded.races_only_at_end [OF assms(1) _ assms(2)] by auto
  then have "ps_pc st = Tut_leave True" by (cases "ps_pc st") auto
  with a show ?thesis
    using reachable_tutorial_inv [OF assms(1)] by (auto simp: tutorial_inv_def queue_inv_def)
qed

text \<open>Ten samples are handled, the loop is left, and another sample has been read.\<close>

lemma run_to_race:
  "\<exists>st. tutorial_reachable number_json tid 0 st \<and>
     program_races number_json pbr_basic_vt (tutorial_program tid) tutorial_captured
       (Do_command 0) (Do_client Rx_handle) st"
proof -
  obtain st2 where st2: "tutorial_reachable number_json tid 0 st2" "receiving st2" "ps_call st2 = None"
    "ps_pc st2 = Tut_leave True"
    using run_to_limit [of tid] by blast
  have "use_conflict (var_write Var_count) (var_write Var_count)" by (simp add: use_conflict_def)
  from sample_races_at_end [OF st2(2,3) _ _ _ this, of "tutorial_program tid" "Tut_destructor True"
      tutorial_captured] obtain st3 where
    run: "program_run number_json pbr_basic_vt (tutorial_program tid)
      [Do_client (Rx_receive (Some sample_response))] st2 = Some st3" and
    race: "program_races number_json pbr_basic_vt (tutorial_program tid) tutorial_captured
       (Do_command 0) (Do_client Rx_handle) st3"
    using st2(4) by (auto simp: tutorial_uses)
  from program_run_reachable [OF st2(1) run] race show ?thesis by blast
qed

theorem stream_tutorial_races_only_at_limit_witness:
  "\<exists>st. tutorial_reachable number_json ''1'' 0 st \<and>
     program_races number_json pbr_basic_vt (tutorial_program ''1'') tutorial_captured
       (Do_command 0) (Do_client Rx_handle) st \<and>
     10 \<le> success_calls (cs_events (ps_client st))"
proof -
  obtain st where st: "tutorial_reachable number_json ''1'' 0 st"
    "program_races number_json pbr_basic_vt (tutorial_program ''1'') tutorial_captured
       (Do_command 0) (Do_client Rx_handle) st"
    using run_to_race by blast
  from stream_tutorial_races_only_at_limit [OF this] st show ?thesis
    by (auto simp: number_of_responses_def)
qed

section \<open>Where it can go on\<close>

interpretation tutorial_closing: closing_program "tutorial_program tid" tutorial_in_scope
  tutorial_may_open
proof
  show "pg_command (tutorial_program tid) p \<noteq> Halt" if "tutorial_in_scope p" for p
    using that by (cases p) simp_all
  show "pg_command (tutorial_program tid) p' \<noteq> Halt"
    if "pg_command (tutorial_program tid) p = Local l" "l now q = (q', p')" for p l now q q' p'
    using that by (cases p) (auto simp: tutorial_head_def tutorial_check_def tutorial_branch_def
        tutorial_again_def split: if_splits prod.splits)
  show "pg_command (tutorial_program tid) p' \<noteq> Halt"
    if "pg_command (tutorial_program tid) p = Wait w g" "g q = (q', p')" for p w g q q' p'
    using that by (cases p) (auto simp: tutorial_pop_def)
  show "pg_command (tutorial_program tid) p' \<noteq> Halt"
    if "pg_command (tutorial_program tid) p = Destroy_locals p'" for p p'
    using that by (cases p) auto
qed

text \<open>
  The queue exactly: its failures, with those answered by a retry, are the failures reported, and its
  other entries are the responses from the limit on. After a decision to leave the loop the count is
  not kept.
\<close>

fun queue_counted :: "tutorial_pc \<Rightarrow> bool" where
  "queue_counted (Tut_close nxt) = (nxt = Retry)"
| "queue_counted (Tut_closed nxt) = (nxt = Retry)"
| "queue_counted (Tut_leave _) = False"
| "queue_counted (Tut_destructor _) = False"
| "queue_counted (Tut_end _) = False"
| "queue_counted _ = True"

fun taken_failure :: "tutorial_pc \<Rightarrow> nat" where
  "taken_failure (Tut_item item) = (if fst item then 1 else 0)"
| "taken_failure (Tut_close nxt) = 1"
| "taken_failure (Tut_closed nxt) = 1"
| "taken_failure _ = 0"

fun taken_limit :: "tutorial_pc \<Rightarrow> nat" where
  "taken_limit (Tut_item item) = (if fst item then 0 else 1)"
| "taken_limit _ = 0"

definition queue_exact :: "tutorial_pc \<Rightarrow> client_event list \<Rightarrow> tutorial_locals \<Rightarrow> bool" where
  "queue_exact p es q \<longleftrightarrow> queue_counted p \<longrightarrow>
     tq_count (tm_queue q) = success_calls es \<and>
     length (filter fst (tq_deque (tm_queue q))) + tm_count_retry q + taken_failure p =
       length (failed_calls es) \<and>
     length (filter (Not \<circ> fst) (tq_deque (tm_queue q))) + taken_limit p =
       success_calls es + 1 - number_of_responses"

lemma success_stats:
  assumes "json_pointer_keys japi" "client_reachable japi pbr_basic_vt (Some (PbrCounters c0)) s"
    and "cs_fault s = None" "0 < success_calls (cs_events s)"
  shows "\<exists>c. counters_of s = Some c \<and> pbr_stats c \<noteq> []"
proof -
  from assms(3) basic_counters.reachable_records [OF assms(1,2)] obtain c sts
    where "cs_interface s = Some (PbrCounters c)" "pbr_stats c = pbr_stats c0 @ sts"
      "success_calls (cs_events s) = length sts"
    unfolding basic_counters.records_inv_def by blast
  then show ?thesis using assms(4) by (auto simp: counters_of_def)
qed

lemma queue_exact_success:
  "queue_exact p es q \<Longrightarrow> pbr_stats c \<noteq> [] \<Longrightarrow> success_calls ls = 0 \<Longrightarrow> failed_calls ls = [] \<Longrightarrow>
   queue_exact p (es @ ls @ [Ev_success_handler]) (pg_success (tutorial_program tid) c q)"
  by (auto simp: queue_exact_def tutorial_success_def number_of_responses_def Let_def)

lemma queue_exact_failed:
  "queue_exact p es q \<Longrightarrow> failing status \<Longrightarrow> success_calls ls = 0 \<Longrightarrow> failed_calls ls = [] \<Longrightarrow>
   queue_exact p (es @ ls @ [Ev_failed_handler status]) (pg_failed (tutorial_program tid) status q)"
  by (auto simp: queue_exact_def tutorial_failed_def failing_def Let_def)

lemma queue_exact_quiet:
  "queue_exact p es q \<Longrightarrow> success_calls ls = 0 \<Longrightarrow> failed_calls ls = [] \<Longrightarrow> queue_exact p (es @ ls) q"
  by (simp add: queue_exact_def)

lemma queue_exact_client:
  assumes "json_pointer_keys japi" "tutorial_reachable japi tid now st"
    and "queue_exact (ps_pc st) (cs_events (ps_client st)) (ps_locals st)" "queue_counted (ps_pc st)"
    and "client_part japi pbr_basic_vt (tutorial_program tid) a st = Some st'"
    and "cs_fault (ps_client st') = None"
  shows "queue_exact (ps_pc st') (cs_events (ps_client st')) (ps_locals st')"
proof -
  note same = client_part_same [OF assms(5)]
  have "tutorial_in_scope (ps_pc st)" using assms(4) by (cases "ps_pc st") simp_all
  then have alive: "ps_alive st"
    using tutorial.reachable_scope_inv [OF assms(2)] by (simp add: tutorial.scope_inv_def)
  have reach: "client_reachable japi pbr_basic_vt (Some (PbrCounters stream_counters)) (ps_client st')"
    using program_client_reachable [OF assms(2)] same(1) by (auto intro: reach_step step_act)
  from assms(5) alive show ?thesis
  proof (cases rule: client_part_calls)
    case (quiet es)
    with quiet_counts [OF quiet(2)] assms(3) same(2) show ?thesis by (simp add: queue_exact_quiet)
  next
    case (success ls)
    from quiet_counts [OF success(2)] success_stats [OF assms(1) reach assms(6)] obtain c
      where "counters_of (ps_client st') = Some c" "pbr_stats c \<noteq> []"
      using success(1) by auto
    with queue_exact_success [OF assms(3)] quiet_counts [OF success(2)] success same(2)
    show ?thesis by simp
  next
    case (failed ls status)
    with queue_exact_failed [OF assms(3)] quiet_counts [OF failed(2)] same(2) show ?thesis by simp
  qed
qed

lemma queue_exact_call:
  assumes "queue_exact p (cs_events s) q" "client_act japi vt a s = Some s'" "is_main a"
  shows "queue_exact p (cs_events s') q"
proof -
  have "\<forall>e \<in> set (new_events s s'). \<not> handler_event e" using client_act_events(2) [OF assms(2,3)] by blast
  from quiet_counts [OF this] queue_exact_quiet [OF assms(1)] client_act_events(1) [OF assms(2)]
  show ?thesis by metis
qed

lemma queue_exact_command:
  assumes exact: "queue_exact (ps_pc st) (cs_events (ps_client st)) (ps_locals st)"
    and command: "program_command japi vt (tutorial_program tid) now st = Some st'"
  shows "queue_exact (ps_pc st') (cs_events (ps_client st')) (ps_locals st')"
proof (cases "pg_command (tutorial_program tid) (ps_pc st)")
  case Register
  from program_command_register [OF command Register] exact queue_exact_call show ?thesis
    by (fastforce simp: is_main_def)
next
  case Close
  from program_command_close [OF command Close] exact queue_exact_call show ?thesis
    by (fastforce simp: is_main_def)
next
  case (Local l)
  show ?thesis
  proof (cases "ps_pc st")
    case (Tut_item item)
    obtain as nxt where item: "tutorial_item item = (as, nxt)" by fastforce
    have "st' = st\<lparr>ps_locals := log_in_queue (logged as) (ps_locals st),
        ps_pc := (if fst item then Tut_close nxt else Tut_leave True)\<rparr>"
      using command Tut_item
      by (simp add: program_command_def tutorial_branch_def item tutorial_item_next(1) [OF item])
    then show ?thesis using exact Tut_item by (auto simp: queue_exact_def)
  qed (use Local exact command in \<open>auto simp: program_command_def queue_exact_def tutorial_head_def
      tutorial_check_def tutorial_again_def split: if_splits\<close>)
next
  case (Wait c g)
  then have "ps_pc st = Tut_wait" by (cases "ps_pc st") simp_all
  then show ?thesis
    using exact command by (auto simp: program_command_def queue_exact_def tutorial_pop_def neq_Nil_conv
        split: if_splits)
next
  case (Destroy_locals p)
  then show ?thesis
    using command by (cases "ps_pc st") (auto simp: program_command_def queue_exact_def)
next
  case Halt
  with command show ?thesis by (simp add: program_command_def)
qed

lemma queue_exact_return:
  assumes "call_inv (tutorial_program tid) st" "program_return st = Some st'"
    and "queue_exact (ps_pc st) (cs_events (ps_client st)) (ps_locals st)"
  shows "queue_exact (ps_pc st') (cs_events (ps_client st')) (ps_locals st')"
  using assms
  by (cases "ps_pc st") (auto simp: program_return_def call_inv_def queue_exact_def
      split: if_splits option.splits pending_call.splits)

lemma reachable_queue_exact:
  assumes "json_pointer_keys japi" "tutorial_reachable japi tid now st" "cs_fault (ps_client st) = None"
  shows "queue_exact (ps_pc st) (cs_events (ps_client st)) (ps_locals st)"
proof -
  have "cs_fault (ps_client st) = None \<longrightarrow>
      queue_exact (ps_pc st) (cs_events (ps_client st)) (ps_locals st)"
    using assms(2)
  proof (induction rule: program_invariant)
    case initial
    then show ?case
      by (simp add: queue_exact_def program_initial_def program_client_def client_initial_def
          tutorial_start_def number_of_responses_def)
  next
    case (client a st st')
    note same = client_part_same [OF client(4)]
    show ?case
    proof (cases "queue_counted (ps_pc st)")
      case True
      have "cs_fault (ps_client st) = None" using same(1) by (auto elim: client_act_cases)
      then show ?thesis using queue_exact_client [OF assms(1) client(1) _ True client(4)] client(5) by blast
    next
      case False
      with same(2) show ?thesis by (simp add: queue_exact_def)
    qed
  next
    case (command now st st')
    have "cs_fault (ps_client st') = None \<Longrightarrow> cs_fault (ps_client st) = None"
      using command(4)
      by (auto simp: program_command_def client_part_def client_act_def split: command.splits if_splits
          option.splits prod.splits)
    then show ?case using queue_exact_command [OF _ command(4)] command(5) by blast
  next
    case (return st st')
    then show ?case using queue_exact_return [OF reachable_call_inv [OF return(1)] return(4)] by simp
  qed
  with assms(3) show ?thesis by blast
qed

text \<open>
  C33: the stream tutorial deadlocks after a stream that ends quietly, and only then. Take any state of
  any interleaving that is free of faults. No thread can take a step exactly when the program has
  ended, or when it waits for its queue, its receive thread has ended, every stream that failed was
  followed by a retry, and fewer than ten responses were handled: the current stream has ended with
  OK or CANCELLED, for which no handler is called. In every other state some thread can go on.
\<close>

theorem stream_tutorial_deadlocks_iff:
  assumes "json_pointer_keys japi" "tutorial_reachable japi tid now st"
    and "ps_fault st = None" "cs_fault (ps_client st) = None"
  shows "stuck japi pbr_basic_vt (tutorial_program tid) st \<longleftrightarrow>
    (\<exists>b. ps_pc st = Tut_end b) \<or>
    ps_pc st = Tut_wait \<and> ps_call st = None \<and> cs_rx (ps_client st) = Rx_done \<and>
      length (failures (cs_events (ps_client st))) = tm_count_retry (ps_locals st) \<and>
      success_calls (cs_events (ps_client st)) < number_of_responses"
proof -
  let ?es = "cs_events (ps_client st)"
  have halt: "pg_command (tutorial_program tid) (ps_pc st) = Halt \<longleftrightarrow> (\<exists>b. ps_pc st = Tut_end b)"
    by (cases "ps_pc st") simp_all
  have blocked: "blocked (tutorial_program tid) st \<longleftrightarrow>
      ps_pc st = Tut_wait \<and> tq_deque (tm_queue (ps_locals st)) = []"
    by (cases "ps_pc st") (simp_all add: blocked_def)
  have joinable: "cs_rx (ps_client st) \<noteq> Rx_none" if "ps_pc st = Tut_wait" "ps_call st = None"
    using reachable_streams_inv [OF assms(2)] that
      reachable_inv [OF program_client_reachable [OF assms(2)]]
    by (simp add: streams_inv_def stream_inv_def Let_def)
  have "tq_deque (tm_queue (ps_locals st)) = [] \<longleftrightarrow>
      length (failures ?es) = tm_count_retry (ps_locals st) \<and> success_calls ?es < number_of_responses"
    if "ps_pc st = Tut_wait" "cs_rx (ps_client st) = Rx_done"
  proof -
    have "failed_calls ?es = failures ?es"
      using reachable_reported [OF program_client_reachable [OF assms(2)]] assms(4) that(2)
      by (simp add: reported_inv_def)
    with reachable_queue_exact [OF assms(1,2,4)] that(1) show ?thesis
      by (auto simp: queue_exact_def number_of_responses_def filter_empty_conv)
  qed
  then show ?thesis
    using tutorial_closing.stuck_ended_or_blocked [OF assms(2) _ assms(3,4)] halt blocked joinable by auto
qed

theorem stream_tutorial_deadlocks_iff_witness:
  "\<exists>st. tutorial_reachable number_json ''1'' 0 st \<and> ps_pc st = Tut_wait \<and>
     stuck number_json pbr_basic_vt (tutorial_program ''1'') st"
proof -
  obtain st where run: "program_run number_json pbr_basic_vt (tutorial_program ''1'') quiet_actions
      waiting_state = Some st"
    and st: "ps_pc st = Tut_wait" "ps_call st = None" "cs_rx (ps_client st) = Rx_done"
      "cs_fault (ps_client st) = None" "ps_fault st = None" "failures (cs_events (ps_client st)) = []"
      "tm_count_retry (ps_locals st) = 0" "success_calls (cs_events (ps_client st)) = 0"
    using run_to_quiet by blast
  have reach: "tutorial_reachable number_json ''1'' 0 st"
    by (rule program_run_reachable [OF waiting_reachable run])
  have "length (failures (cs_events (ps_client st))) = tm_count_retry (ps_locals st)"
    "success_calls (cs_events (ps_client st)) < number_of_responses"
    using st(6-8) by (simp_all add: number_of_responses_def)
  with stream_tutorial_deadlocks_iff [OF number_json_pointer_keys reach st(5,4)] st(1-3) reach
  show ?thesis by blast
qed

end
