(* ===== verification/Testing_Tool.thy ===== *)
theory Testing_Tool
  imports Tutorial_Console
begin

text \<open>
  The command line of \<^verbatim>\<open>test/testing_tool/mgbl_api_pbr_testing_tool.cpp\<close>: how its options become the
  arguments of the library. \<^verbatim>\<open>getopt_long\<close> is not modelled; its results, an option letter and its
  argument for each option in order, are the input. The rest of the tool prints and calls the library.
\<close>

text \<open>\<^verbatim>\<open>std::stoi\<close>: as \<open>stoull\<close>, but of the range of \<^verbatim>\<open>int\<close>.\<close>

definition stoi :: "string \<Rightarrow> int result" where
  "stoi s =
     (let (neg, rest) = split_sign (dropWhile is_space s);
          ds = takeWhile is_digit rest;
          v = (if neg then - int (decimal_value ds) else int (decimal_value ds))
      in if ds = [] then Inl (Invalid_argument ''stoi'')
         else if v < - (2 ^ 31) \<or> 2 ^ 31 \<le> v then Inl (Out_of_range ''stoi'')
         else Inr v)"

section \<open>The options\<close>

text \<open>The locals of \<^verbatim>\<open>main\<close>; \<open>tl_ssl_tls\<close> is the local \<^verbatim>\<open>ssl_tls\<close>.\<close>

record tool_locals =
  tl_channel_args :: rpc_channel_args
  tl_context_args :: client_context_args
  tl_rpc_args :: rpc_args
  tl_keys :: "pbr_key list"
  tl_ssl_tls :: bool
  tl_stream_case :: bool
  tl_retry_stream :: int
  tl_responses :: int
  tl_interval :: "32 word"

definition tool_start :: tool_locals where
  "tool_start =
     \<lparr>tl_channel_args = \<lparr>server_address = '''', ssl_tls = False, pem_roots_certs_path = '''',
        pem_private_key_path = '''', pem_cert_chain_path = ''''\<rparr>,
      tl_context_args = \<lparr>username = '''', password = '''', set_deadline = False, deadline = 0\<rparr>,
      tl_rpc_args = default_rpc_args, tl_keys = [], tl_ssl_tls = False, tl_stream_case = False,
      tl_retry_stream = 1, tl_responses = 1, tl_interval = 10\<rparr>"

text \<open>\<^verbatim>\<open>policy_rule.find(':')\<close>, and the two parts around it.\<close>

definition policy_rule_key :: "string \<Rightarrow> pbr_key option" where
  "policy_rule_key policy_rule =
     (case find_char (CHR '':'') policy_rule of
        None \<Rightarrow> None
      | Some pos \<Rightarrow> Some \<lparr>key_policy = substr policy_rule 0 pos, key_rule = drop (pos + 1) policy_rule\<rparr>)"

text \<open>An option ends the program (\<open>None\<close>), throws, or changes the locals.\<close>

definition tool_option :: "int \<Rightarrow> char \<times> string \<Rightarrow> tool_locals \<Rightarrow> tool_locals option result" where
  "tool_option now opt t =
     (let c = fst opt; optarg = snd opt; ch = tl_channel_args t; ctx = tl_context_args t in
      if c = CHR ''z'' then Inr (Some (t\<lparr>tl_stream_case := True\<rparr>))
      else if c = CHR ''y'' then bind_result (stoi optarg) (\<lambda>n. Inr (Some (t\<lparr>tl_retry_stream := n\<rparr>)))
      else if c = CHR ''v'' then bind_result (stoi optarg) (\<lambda>n. Inr (Some (t\<lparr>tl_responses := n\<rparr>)))
      else if c = CHR ''w'' then Inr (Some (t\<lparr>tl_channel_args := ch\<lparr>server_address := optarg\<rparr>\<rparr>))
      else if c = CHR ''a'' then Inr (Some (t\<lparr>tl_ssl_tls := True\<rparr>))
      else if c = CHR ''b'' then Inr (Some (t\<lparr>tl_channel_args := ch\<lparr>pem_roots_certs_path := optarg\<rparr>\<rparr>))
      else if c = CHR ''c'' then Inr (Some (t\<lparr>tl_channel_args := ch\<lparr>pem_private_key_path := optarg\<rparr>\<rparr>))
      else if c = CHR ''d'' then Inr (Some (t\<lparr>tl_channel_args := ch\<lparr>pem_cert_chain_path := optarg\<rparr>\<rparr>))
      else if c = CHR ''u'' then Inr (Some (t\<lparr>tl_context_args := ctx\<lparr>username := optarg\<rparr>\<rparr>))
      else if c = CHR ''p'' then Inr (Some (t\<lparr>tl_context_args := ctx\<lparr>password := optarg\<rparr>\<rparr>))
      else if c = CHR ''g''
      then bind_result (stoi optarg) (\<lambda>n. Inr (Some (t\<lparr>tl_context_args :=
             ctx\<lparr>set_deadline := True, deadline := now + seconds n\<rparr>\<rparr>)))
      else if c = CHR ''f''
      then bind_result (stoi optarg) (\<lambda>n. Inr (Some (t\<lparr>tl_interval := word_of_int n\<rparr>)))
      else if c = CHR ''e''
      then (if optarg = ''JSON''
            then Inr (Some (t\<lparr>tl_rpc_args := (tl_rpc_args t)\<lparr>args_encoding := JSON_IETF\<rparr>\<rparr>))
            else if optarg = ''PROTO''
            then Inr (Some (t\<lparr>tl_rpc_args := (tl_rpc_args t)\<lparr>args_encoding := PROTO\<rparr>\<rparr>))
            else Inr None)
      else if c = CHR ''j''
      then (case policy_rule_key optarg of
              Some key \<Rightarrow> Inr (Some (t\<lparr>tl_keys := tl_keys t @ [key]\<rparr>))
            | None \<Rightarrow> Inr (Some t))
      else Inr None)"

fun tool_options :: "int \<Rightarrow> (char \<times> string) list \<Rightarrow> tool_locals \<Rightarrow> tool_locals option result" where
  "tool_options now [] t = Inr (Some t)"
| "tool_options now (opt # opts) t =
     bind_result (tool_option now opt t)
       (\<lambda>r. case r of None \<Rightarrow> Inr None | Some t' \<Rightarrow> tool_options now opts t')"

text \<open>After the options: the connection, and the interval in nanoseconds.\<close>

definition tool_connection ::
  "(string \<rightharpoonup> string) \<Rightarrow> tool_locals \<Rightarrow> log_entry list \<times> connection result" where
  "tool_connection files t = gnmi_client_connection files (tl_channel_args t)"

definition tool_rpc_args :: "tool_locals \<Rightarrow> rpc_args" where
  "tool_rpc_args t = (tl_rpc_args t)
     \<lparr>sample_interval_nsec := sample_interval_nsec (tl_rpc_args t) * ucast (tl_interval t)\<rparr>"

section \<open>What the options mean\<close>

lemma tool_option_keeps:
  assumes "tool_option now opt t = Inr (Some t')"
  shows "ssl_tls (tl_channel_args t') = ssl_tls (tl_channel_args t)"
    and "tl_keys t' = tl_keys t @
      (if fst opt = CHR ''j'' then (case policy_rule_key (snd opt) of None \<Rightarrow> [] | Some k \<Rightarrow> [k]) else [])"
  using assms by (auto simp: tool_option_def Let_def result_simps split: if_splits option.splits)

lemma tool_options_keeps:
  assumes "tool_options now opts t = Inr (Some t')"
  shows "ssl_tls (tl_channel_args t') = ssl_tls (tl_channel_args t) \<and>
    tl_keys t' = tl_keys t @
      List.map_filter (\<lambda>opt. if fst opt = CHR ''j'' then policy_rule_key (snd opt) else None) opts"
  using assms
proof (induction opts arbitrary: t)
  case (Cons opt opts)
  then obtain t1 where "tool_option now opt t = Inr (Some t1)" "tool_options now opts t1 = Inr (Some t')"
    by (auto simp: result_simps split: option.splits)
  with Cons.IH tool_option_keeps [of now opt t t1] show ?case
    by (auto simp: map_filter_simps split: option.splits)
qed (simp add: map_filter_simps)

text \<open>
  C39: the testing tool never uses TLS. Whatever the options are, the option for TLS included, the
  connection is made with insecure credentials and reads no certificate; the keys it asks for are the
  pairs of the options \<open>j\<close> that contain a colon, in order.
\<close>

theorem testing_tool_never_uses_tls:
  assumes "tool_options now opts tool_start = Inr (Some t)"
  shows "tool_connection files t =
      ([], Inr \<lparr>conn_target = server_address (tl_channel_args t),
                conn_creds = InsecureChannelCredentials\<rparr>) \<and>
    tl_keys t =
      List.map_filter (\<lambda>opt. if fst opt = CHR ''j'' then policy_rule_key (snd opt) else None) opts"
  using tool_options_keeps [OF assms]
  by (simp add: tool_connection_def gnmi_client_connection_def tool_start_def)

theorem testing_tool_never_uses_tls_witness:
  "\<exists>t. tool_options 0 [(CHR ''a'', ''''), (CHR ''b'', ''root.pem''), (CHR ''j'', ''p1:r1'')] tool_start =
       Inr (Some t) \<and> tl_ssl_tls t \<and>
     tool_connection Map.empty t = ([], Inr \<lparr>conn_target = '''', conn_creds = InsecureChannelCredentials\<rparr>) \<and>
     tl_keys t = [\<lparr>key_policy = ''p1'', key_rule = ''r1''\<rparr>]"
proof -
  have key: "policy_rule_key ''p1:r1'' = Some \<lparr>key_policy = ''p1'', key_rule = ''r1''\<rparr>"
    by (simp add: policy_rule_key_def find_from_def substr_def)
  then obtain t where t: "tool_options 0 [(CHR ''a'', ''''), (CHR ''b'', ''root.pem''), (CHR ''j'', ''p1:r1'')]
      tool_start = Inr (Some t)" "tl_ssl_tls t" "server_address (tl_channel_args t) = ''''"
    by (simp add: tool_option_def tool_start_def)
  show ?thesis
    using testing_tool_never_uses_tls [OF t(1), of Map.empty] t key by (simp add: map_filter_simps)
qed

end
