(* ===== verification/Testing_Tool_Run.thy ===== *)
theory Testing_Tool_Run
  imports Testing_Tool Client_Program
begin

text \<open>
  What \<^verbatim>\<open>test/testing_tool/mgbl_api_pbr_testing_tool.cpp\<close> does with its options: the blocking call,
  and the streaming case, whose two handlers and retry loop are composed with the client.
\<close>

section \<open>The blocking call\<close>

text \<open>The lines printed, and the messages; \<open>None\<close> is a call that does not return.\<close>

definition tool_once ::
  "'g stream_api \<Rightarrow> 'j json_api \<Rightarrow> tool_locals \<Rightarrow> (log_entry list \<times> string list result) option" where
  "tool_once sapi japi t =
     (case rpc_register_stats_once sapi japi pbr_basic_vt (tl_context_args t) (tool_rpc_args t)
         (Some (PbrCounters \<lparr>pbr_keys = tl_keys t, pbr_stats = []\<rparr>)) of
        None \<Rightarrow> None
      | Some r \<Rightarrow>
          Some (or_logs r,
            case or_return r of
              Inl e \<Rightarrow> Inl e
            | Inr (code, st) \<Rightarrow>
                Inr (if code = RPC_SUCCESS
                     then (case or_counters r of Some (PbrCounters c) \<Rightarrow> print_pbr (pbr_stats c) | _ \<Rightarrow> [])
                     else [''Stream once error code: '' @ decimal (error_code_value code) @
                           '' grpcStatus error_code: '' @ decimal (status_code st)])))"

section \<open>The streaming case\<close>

text \<open>
  The captured variables \<^verbatim>\<open>retry\<close>, \<^verbatim>\<open>count\<close> (taken as unbounded) and \<^verbatim>\<open>stream_ended\<close>, the console, and
  the locals of the loop.
\<close>

record tool_run_locals =
  tr_retry :: bool
  tr_count :: int
  tr_ended :: bool
  tr_lines :: "string list"
  tr_count_retry :: int
  tr_context :: client_context_args

definition tool_run_start :: "tool_locals \<Rightarrow> tool_run_locals" where
  "tool_run_start t =
     \<lparr>tr_retry = False, tr_count = 0, tr_ended = False, tr_lines = [], tr_count_retry = 0,
      tr_context = tl_context_args t\<rparr>"

definition tool_print :: "string list \<Rightarrow> tool_run_locals \<Rightarrow> tool_run_locals" where
  "tool_print ls q = q\<lparr>tr_lines := tr_lines q @ ls\<rparr>"

definition tool_success ::
  "string \<Rightarrow> int \<Rightarrow> pbr_basic \<Rightarrow> tool_run_locals \<Rightarrow> tool_run_locals" where
  "tool_success tid number_of_stream_responses iface q =
     (if pbr_stats iface \<noteq> []
      then (let q = (tool_print ([''Here are the Pbr stats listed: SubscribeResponse '' @ tid] @
                       stat_lines (last (pbr_stats iface))) q)\<lparr>tr_count := tr_count q + 1\<rparr>
            in if tr_count q \<ge> number_of_stream_responses
               then (tool_print [''Response limit reached. Let's stop the stream''] q)
                      \<lparr>tr_retry := False, tr_ended := True\<rparr>
               else q)
      else q)"

definition tool_failed :: "grpc_status \<Rightarrow> tool_run_locals \<Rightarrow> tool_run_locals" where
  "tool_failed status q =
     (let q = tool_print [''rpc_failed_handler: This rpc failed''] q in
      if \<not> status_ok status
      then (if status_code status = deadline_exceeded
            then (tool_print [''Stream stopped due to deadline exceeded''] q)
                   \<lparr>tr_retry := True, tr_ended := True\<rparr>
            else (tool_print [''Stream stopped for other reason. Let's quit this''] q)
                   \<lparr>tr_retry := False, tr_ended := True\<rparr>)
      else q)"

text \<open>The points of \<^verbatim>\<open>main\<close>; a flag says that the stream may have been left open.\<close>

datatype tool_pc =
    Tool_loop bool
  | Tool_register
  | Tool_checked error_code
  | Tool_wait
  | Tool_close
  | Tool_closed
  | Tool_leave bool
  | Tool_destructor bool
  | Tool_end bool

text \<open>
  The deadline is computed from \<^verbatim>\<open>deadline_var\<close>, a duration in milliseconds that is never assigned; the
  value it happens to have is the argument \<open>deadline_var\<close>.
\<close>

definition tool_head ::
  "int \<Rightarrow> int \<Rightarrow> bool \<Rightarrow> int \<Rightarrow> tool_run_locals \<Rightarrow> tool_run_locals \<times> tool_pc" where
  "tool_head deadline_var retries b now q =
     (if tr_count_retry q < retries
      then (if set_deadline (tr_context q)
            then q\<lparr>tr_context := (tr_context q)\<lparr>deadline := now + deadline_var * 1000000\<rparr>\<rparr>
            else q, Tool_register)
      else (q, Tool_leave b))"

definition tool_check :: "error_code \<Rightarrow> tool_run_locals \<Rightarrow> tool_run_locals \<times> tool_pc" where
  "tool_check err q =
     (if err = RPC_SUCCESS then (q, Tool_wait)
      else (q\<lparr>tr_count_retry := tr_count_retry q + 1\<rparr>, Tool_loop True))"

text \<open>\<^verbatim>\<open>check_retry\<close> and the branch on its result.\<close>

definition tool_check_retry :: "tool_run_locals \<Rightarrow> tool_run_locals \<times> tool_pc" where
  "tool_check_retry q =
     (let try_retry = tr_retry q; q = q\<lparr>tr_retry := False, tr_count := 0, tr_ended := False\<rparr> in
      if try_retry
      then ((tool_print [''We will attempt a retry''] q)\<lparr>tr_count_retry := tr_count_retry q + 1\<rparr>,
            Tool_loop False)
      else (q, Tool_leave False))"

fun tool_command :: "int \<Rightarrow> tool_locals \<Rightarrow> tool_pc \<Rightarrow> (tool_run_locals, tool_pc) command" where
  "tool_command dv t (Tool_loop b) = Local (tool_head dv (tl_retry_stream t) b)"
| "tool_command dv t Tool_register = Register (\<lambda>q. (tr_context q, tool_rpc_args t)) Tool_checked"
| "tool_command dv t (Tool_checked err) = Local (\<lambda>_. tool_check err)"
| "tool_command dv t Tool_wait = Wait tr_ended (\<lambda>q. (q, Tool_close))"
| "tool_command dv t Tool_close = Close Tool_closed"
| "tool_command dv t Tool_closed = Local (\<lambda>_. tool_check_retry)"
| "tool_command dv t (Tool_leave b) = Destroy_locals (Tool_destructor b)"
| "tool_command dv t (Tool_destructor b) = Close (Tool_end b)"
| "tool_command dv t (Tool_end b) = Halt"

definition tool_program ::
  "string \<Rightarrow> int \<Rightarrow> tool_locals \<Rightarrow> (pbr_basic, tool_run_locals, tool_pc) stream_program" where
  "tool_program tid dv t =
     \<lparr>pg_success = tool_success tid (tl_responses t), pg_failed = tool_failed,
      pg_command = tool_command dv t\<rparr>"

lemma tool_program_simps [simp]:
  "pg_success (tool_program tid dv t) = tool_success tid (tl_responses t)"
  "pg_failed (tool_program tid dv t) = tool_failed"
  "pg_command (tool_program tid dv t) = tool_command dv t"
  by (simp_all add: tool_program_def)

definition tool_counters :: "tool_locals \<Rightarrow> pbr_basic" where
  "tool_counters t = \<lparr>pbr_keys = tl_keys t, pbr_stats = []\<rparr>"

abbreviation tool_reachable ::
  "'j json_api \<Rightarrow> string \<Rightarrow> int \<Rightarrow> tool_locals \<Rightarrow> (pbr_basic, tool_run_locals, tool_pc) program_state \<Rightarrow>
     bool" where
  "tool_reachable japi tid dv t \<equiv> program_reachable japi pbr_basic_vt (tool_program tid dv t)
     (Some (PbrCounters (tool_counters t))) (tool_run_start t) (Tool_loop False)"

section \<open>The marks of the tool\<close>

fun tool_in_scope :: "tool_pc \<Rightarrow> bool" where
  "tool_in_scope (Tool_destructor _) = False"
| "tool_in_scope (Tool_end _) = False"
| "tool_in_scope _ = True"

fun tool_may_open :: "tool_pc \<Rightarrow> bool" where
  "tool_may_open (Tool_loop b) = b"
| "tool_may_open Tool_closed = False"
| "tool_may_open (Tool_leave b) = b"
| "tool_may_open (Tool_destructor b) = b"
| "tool_may_open (Tool_end b) = b"
| "tool_may_open _ = True"

interpretation tool: scoped_program "tool_program tid dv t" tool_in_scope tool_may_open
proof
  fix p l now q q' p'
  assume "pg_command (tool_program tid dv t) p = Local l" "l now q = (q', p')"
  then show "(tool_in_scope p' \<longleftrightarrow> tool_in_scope p) \<and> (tool_may_open p \<longrightarrow> tool_may_open p')"
    by (cases p) (auto simp: tool_head_def tool_check_def tool_check_retry_def Let_def split: if_splits)
next
  fix p f k code
  assume "pg_command (tool_program tid dv t) p = Register f k"
  then show "tool_in_scope p \<and> tool_in_scope (k code) \<and> tool_may_open (k code)"
    by (cases p) auto
next
  fix p p'
  assume "pg_command (tool_program tid dv t) p = Close p'"
  then show "tool_in_scope p' \<longleftrightarrow> tool_in_scope p" by (cases p) auto
next
  fix p c g q q' p'
  assume "pg_command (tool_program tid dv t) p = Wait c g" "g q = (q', p')"
  then show "(tool_in_scope p' \<longleftrightarrow> tool_in_scope p) \<and> (tool_may_open p \<longrightarrow> tool_may_open p')"
    by (cases p) auto
next
  fix p p'
  assume "pg_command (tool_program tid dv t) p = Destroy_locals p'"
  then show "\<not> tool_in_scope p' \<and> (tool_may_open p \<longrightarrow> tool_may_open p')"
    by (cases p) auto
qed

section \<open>What the points know\<close>

fun tool_left_open :: "tool_pc \<Rightarrow> bool" where
  "tool_left_open (Tool_loop b) = b"
| "tool_left_open (Tool_leave b) = b"
| "tool_left_open (Tool_destructor b) = b"
| "tool_left_open (Tool_end b) = b"
| "tool_left_open _ = False"

text \<open>
  A flag stands for a registration that did not succeed, and \<^verbatim>\<open>stream_ended\<close> for a handler that has
  ended the stream.
\<close>

definition tool_inv :: "int \<Rightarrow> tool_pc \<Rightarrow> client_event list \<Rightarrow> tool_run_locals \<Rightarrow> bool" where
  "tool_inv limit p es q \<longleftrightarrow>
     (\<forall>err. p = Tool_checked err \<longrightarrow> Ev_registered err \<in> set es) \<and>
     (tool_left_open p \<longrightarrow> (\<exists>code. code \<noteq> RPC_SUCCESS \<and> Ev_registered code \<in> set es)) \<and>
     tr_count q \<le> int (success_calls es) \<and>
     (tr_ended q \<longrightarrow> failed_calls es \<noteq> [] \<or> limit \<le> int (success_calls es))"

lemma tool_inv_event: "tool_inv limit p es q \<Longrightarrow> tool_inv limit p (es @ [e]) q"
  by (auto simp: tool_inv_def)

lemma tool_inv_events: "tool_inv limit p es q \<Longrightarrow> tool_inv limit p (es @ es') q"
  by (induction es' rule: rev_induct) (auto simp: tool_inv_event simp flip: append_assoc)

lemma tool_inv_client:
  assumes "client_part japi vt (tool_program tid dv t) a st = Some st'"
    and "tool_inv (tl_responses t) p (cs_events (ps_client st)) (ps_locals st)"
  shows "tool_inv (tl_responses t) p (cs_events (ps_client st')) (ps_locals st')"
  using assms
proof (rule client_part_locals)
  show "tool_inv (tl_responses t) p (es @ [Ev_success_handler]) (pg_success (tool_program tid dv t) c q)"
    if "tool_inv (tl_responses t) p es q" for es q c
    using that by (auto simp: tool_inv_def tool_success_def tool_print_def Let_def)
  show "tool_inv (tl_responses t) p (es @ [Ev_failed_handler status]) (pg_failed (tool_program tid dv t) status q)"
    if "tool_inv (tl_responses t) p es q" for es q status
    using that by (auto simp: tool_inv_def tool_failed_def tool_print_def Let_def)
qed (rule tool_inv_event)

lemma tool_command_inv:
  assumes inv: "tool_inv (tl_responses t) (ps_pc st) (cs_events (ps_client st)) (ps_locals st)"
    and command: "program_command japi vt (tool_program tid dv t) now st = Some st'"
  shows "tool_inv (tl_responses t) (ps_pc st') (cs_events (ps_client st')) (ps_locals st')"
proof (cases "pg_command (tool_program tid dv t) (ps_pc st)")
  case Register
  from program_command_register [OF command Register] obtain a s' k where
    "client_act japi vt a (ps_client st) = Some s'"
    "st' = st\<lparr>ps_call := Some (In_register k), ps_client := s'\<rparr>"
    by blast
  with inv show ?thesis
    using client_act_events(1) [of japi vt a "ps_client st" s'] tool_inv_events by simp
next
  case Close
  from program_command_close [OF command Close] obtain s' where
    "client_act japi vt Call_close (ps_client st) = Some s'"
    "ps_client st' = s'" "ps_pc st' = ps_pc st" "ps_locals st' = ps_locals st"
    by auto
  with inv show ?thesis
    using client_act_events(1) [of japi vt Call_close "ps_client st" s'] tool_inv_events by simp
next
  case Halt
  with command show ?thesis by (simp add: program_command_def)
qed (use inv command in \<open>cases "ps_pc st"; auto simp: program_command_def tool_inv_def tool_head_def
    tool_check_def tool_check_retry_def tool_print_def Let_def split: if_splits\<close>)+

lemma tool_return_inv:
  assumes "call_inv (tool_program tid dv t) st" "returns_inv st" "cs_fault (ps_client st) = None"
    and "program_return st = Some st'"
    and "tool_inv (tl_responses t) (ps_pc st) (cs_events (ps_client st)) (ps_locals st)"
  shows "tool_inv (tl_responses t) (ps_pc st') (cs_events (ps_client st')) (ps_locals st')"
proof -
  have idle: "cs_main (ps_client st) = Main_idle"
    using assms(4) by (simp add: program_return_def split: if_splits)
  obtain k where k: "ps_call st = Some k"
    using assms(4) by (auto simp: program_return_def split: if_splits option.splits)
  show ?thesis
  proof (cases k)
    case (In_register f)
    then have "\<exists>code. Ev_registered code \<in> set (cs_events (ps_client st))"
      using assms(2,3) k idle by (auto simp: returns_inv_def)
    then have "Ev_registered (registered_code (cs_events (ps_client st))) \<in> set (cs_events (ps_client st))"
      using registered_code_event by blast
    moreover have "ps_pc st = Tool_register \<and> f = Tool_checked"
      using assms(1) k In_register by (cases "ps_pc st") (auto simp: call_inv_def)
    ultimately show ?thesis
      using assms(4,5) k In_register idle by (auto simp: program_return_def tool_inv_def)
  next
    case (In_close p)
    then show ?thesis
      using assms(1,4,5) k idle
      by (cases "ps_pc st") (auto simp: program_return_def call_inv_def tool_inv_def)
  qed
qed

lemma reachable_tool_inv:
  assumes "tool_reachable japi tid dv t st"
  shows "tool_inv (tl_responses t) (ps_pc st) (cs_events (ps_client st)) (ps_locals st)"
  using assms
proof (induction rule: program_invariant)
  case initial
  then show ?case by (simp add: tool_inv_def program_initial_def tool_run_start_def)
next
  case (client a st st')
  then show ?case using tool_inv_client client_part_same(2) by metis
next
  case (command now st st')
  then show ?case using tool_command_inv by blast
next
  case (return st st')
  then show ?case
    using tool_return_inv [OF reachable_call_inv [OF return(1)] reachable_returns_inv [OF return(1)]] return
    by simp
qed

section \<open>The deadline\<close>

text \<open>The contexts that carry a deadline counted from the value of \<^verbatim>\<open>deadline_var\<close>.\<close>

definition deadline_ctx :: "int \<Rightarrow> tool_locals \<Rightarrow> client_context_args \<Rightarrow> bool" where
  "deadline_ctx dv t x \<longleftrightarrow>
     (\<exists>now. x = (tl_context_args t)\<lparr>deadline := now + dv * 1000000\<rparr>)"

lemma deadline_ctx_again:
  "deadline_ctx dv t ((tl_context_args t)\<lparr>deadline := now + dv * 1000000\<rparr>)"
  "deadline_ctx dv t x \<Longrightarrow> deadline_ctx dv t (x\<lparr>deadline := now + dv * 1000000\<rparr>)"
  by (auto simp: deadline_ctx_def)

fun opening_with :: "main_pc \<Rightarrow> client_context_args option" where
  "opening_with (Reg_lock_open x r) = Some x"
| "opening_with (Reg_open x r) = Some x"
| "opening_with _ = None"

definition deadline_inv ::
  "int \<Rightarrow> tool_locals \<Rightarrow> (pbr_basic, tool_run_locals, tool_pc) program_state \<Rightarrow> bool" where
  "deadline_inv dv t st \<longleftrightarrow>
     (\<forall>n x. Ev_subscribe n x \<in> set (cs_events (ps_client st)) \<longrightarrow>
        (\<exists>a. deadline_ctx dv t a \<and> x = make_context a)) \<and>
     (\<forall>a. opening_with (cs_main (ps_client st)) = Some a \<longrightarrow> deadline_ctx dv t a) \<and>
     (ps_pc st = Tool_register \<longrightarrow> deadline_ctx dv t (tr_context (ps_locals st))) \<and>
     (tr_context (ps_locals st) = tl_context_args t \<or> deadline_ctx dv t (tr_context (ps_locals st)))"

lemma act_main_subscribes:
  assumes "act_main vt a s = Some s'" "inner_action a"
  shows "Ev_subscribe n x \<in> set (cs_events s') \<Longrightarrow> Ev_subscribe n x \<in> set (cs_events s) \<or>
      (\<exists>b. opening_with (cs_main s) = Some b \<and> x = make_context b)"
    and "opening_with (cs_main s') = Some b \<Longrightarrow> opening_with (cs_main s) = Some b"
  using assms
  by (cases "cs_main s"; cases a; auto simp: act_main_def inner_action_def register_open_def
      register_write_def close_cancel_def close_joined_def close_reset_def emit_def fail_with_def Let_def
      split: if_splits option.splits)+

lemma act_rx_subscribes:
  assumes "act_rx japi vt a s = Some s'" "Ev_subscribe n x \<in> set (cs_events s')"
  shows "Ev_subscribe n x \<in> set (cs_events s)"
  using assms
  by (cases rule: act_rx_cases) (auto simp: rx_ops Let_def split: option.splits prod.splits
      sum.splits gnmi_counters.splits if_splits)

lemma tool_context_kept:
  assumes "client_part japi vt (tool_program tid dv t) a st = Some st'"
  shows "tr_context (ps_locals st') = tr_context (ps_locals st)"
  using client_part_locals [OF assms, of "\<lambda>_ q. tr_context q = tr_context (ps_locals st)"]
  by (simp add: tool_success_def tool_failed_def tool_print_def Let_def)

lemma deadline_inv_client:
  assumes "deadline_inv dv t st" "inner_action a"
    and "client_part japi vt (tool_program tid dv t) a st = Some st'"
  shows "deadline_inv dv t st'"
proof -
  note same = client_part_same [OF assms(3)] tool_context_kept [OF assms(3)]
  from same(1) show ?thesis
  proof (cases rule: client_act_cases)
    case main
    with act_main_subscribes [OF main(3) assms(2)] assms(1) same show ?thesis
      unfolding deadline_inv_def by metis
  next
    case rx
    with act_rx_subscribes [OF rx(3)] act_rx_joinable [OF rx(3)] assms(1) same show ?thesis
      unfolding deadline_inv_def by metis
  qed
qed

lemma register_enter_subscribes:
  "Ev_subscribe n x \<in> set (cs_events (register_enter vt a args s)) \<Longrightarrow> Ev_subscribe n x \<in> set (cs_events s)"
  "opening_with (cs_main (register_enter vt a args s)) = Some b \<Longrightarrow> b = a \<or> opening_with (cs_main s) = Some b"
  by (auto simp: register_enter_def emit_def fail_with_def Let_def
      split: option.splits gnmi_counters.splits prod.splits if_splits)

lemma deadline_inv_command:
  assumes "deadline_inv dv t st" "set_deadline (tl_context_args t)"
    and "program_command japi vt (tool_program tid dv t) now st = Some st'"
  shows "deadline_inv dv t st'"
proof (cases "pg_command (tool_program tid dv t) (ps_pc st)")
  case (Register f k)
  then have at: "ps_pc st = Tool_register" "fst (f (ps_locals st)) = tr_context (ps_locals st)"
    by (cases "ps_pc st"; auto)+
  from program_command_register [OF assms(3) Register] obtain args s' where
    "client_act japi vt (Call_register (tr_context (ps_locals st)) args) (ps_client st) = Some s'"
    and st': "st' = st\<lparr>ps_call := Some (In_register k), ps_client := s'\<rparr>"
    unfolding at(2) by blast
  then have "s' = register_enter vt (tr_context (ps_locals st)) args (ps_client st)"
    by (auto simp: client_act_def act_main_def is_main_def split: if_splits)
  then show ?thesis
    using assms(1) at(1) st' register_enter_subscribes
      [where vt = vt and a = "tr_context (ps_locals st)" and args = args and s = "ps_client st"]
    unfolding deadline_inv_def by fastforce
next
  case (Close p)
  from program_command_close [OF assms(3) Close] obtain s' where
    "client_act japi vt Call_close (ps_client st) = Some s'"
    and st': "st' = st\<lparr>ps_call := Some (In_close p), ps_client := s'\<rparr>"
    by blast
  then have "s' = close_enter (ps_client st)"
    by (auto simp: client_act_def act_main_def is_main_def split: if_splits)
  then show ?thesis
    using assms(1) st' by (auto simp: deadline_inv_def close_enter_def)
next
  case (Local l)
  have set: "set_deadline (tr_context (ps_locals st))"
    using assms(1,2) by (auto simp: deadline_inv_def deadline_ctx_def)
  show ?thesis
    using assms(1,3) Local set deadline_ctx_again
    by (cases "ps_pc st") (auto simp: program_command_def deadline_inv_def tool_head_def tool_check_def
        tool_check_retry_def tool_print_def Let_def split: if_splits)
qed (use assms(1,3) in \<open>cases "ps_pc st"; auto simp: program_command_def deadline_inv_def split: if_splits\<close>)+

lemma reachable_deadline_inv:
  assumes "tool_reachable japi tid dv t st" "set_deadline (tl_context_args t)"
  shows "deadline_inv dv t st"
  using assms(1)
proof (induction rule: program_invariant)
  case initial
  then show ?case
    by (simp add: deadline_inv_def program_initial_def program_client_def client_initial_def
        tool_run_start_def)
next
  case (client a st st')
  then show ?case using deadline_inv_client by blast
next
  case (command now st st')
  then show ?case using deadline_inv_command assms(2) by blast
next
  case (return st st')
  then show ?case
    using reachable_call_inv [OF return(1)]
    by (cases "ps_pc st") (auto simp: program_return_def deadline_inv_def call_inv_def
        split: if_splits option.splits pending_call.splits)
qed

section \<open>A run\<close>

text \<open>One registration, whose write is answered by \<open>b\<close>.\<close>

definition tool_sample :: tool_locals where
  "tool_sample = tool_start
     \<lparr>tl_keys := [key_p1_r3], tl_stream_case := True, tl_context_args :=
        \<lparr>username = ''u'', password = ''p'', set_deadline = True, deadline = seconds 10\<rparr>\<rparr>"

definition tool_register_actions :: "bool \<Rightarrow> program_action list" where
  "tool_register_actions b =
     [Do_command 0, Do_command 0, Do_client Main_acquire, Do_client Main_open, Do_client Main_release,
      Do_client Main_acquire, Do_client (Main_write b), Do_return, Do_command 0]"

definition tool_request :: subscribe_request where
  "tool_request = Some (sample_list ((tool_rpc_args tool_sample)\<lparr>args_mode := STREAM\<rparr>)
     [pbr_request_path key_p1_r3])"

lemma tool_request_built:
  "subscribe_request_helper None ((tool_rpc_args tool_sample)\<lparr>args_mode := STREAM\<rparr>)
     \<lparr>rsa_prefix = path_origin, paths_of_interest = get_gnmi_paths [key_p1_r3]\<rparr> =
   ([], tool_request, SUCCESS)"
proof -
  have "args_encoding ((tool_rpc_args tool_sample)\<lparr>args_mode := STREAM\<rparr>) = PROTO"
    by (simp add: tool_rpc_args_def tool_sample_def tool_start_def default_rpc_args_def)
  then show ?thesis
    using subscribe_request_helper_keys [of "[key_p1_r3]"] servable_key_p1_r3
    by (simp add: tool_request_def)
qed

lemma register_enter_tool:
  "cs_interface s = Some (PbrCounters (tool_counters tool_sample)) \<Longrightarrow>
   register_enter pbr_basic_vt x (tool_rpc_args tool_sample) s =
     s\<lparr>cs_main := (if \<not> cs_joinable s then Reg_lock_open x tool_request
                   else Reg_lock_write tool_request)\<rparr>"
  by (simp add: register_enter_def counters_name_def emit_def tool_counters_def tool_request_built
      tool_sample_def [THEN arg_cong [of _ _ tl_keys]])

lemma tool_sample_simps [simp]:
  "set_deadline (tl_context_args tool_sample)" "tl_retry_stream tool_sample = 1"
  "tl_responses tool_sample = 1" "deadline (tl_context_args tool_sample) = seconds 10"
  by (simp_all add: tool_sample_def tool_start_def)

lemma run_tool_register:
  "\<exists>st. program_run japi pbr_basic_vt (tool_program tid 7 tool_sample) (tool_register_actions b)
      (program_initial (Some (PbrCounters (tool_counters tool_sample))) (tool_run_start tool_sample)
        (Tool_loop False)) = Some st \<and>
    receiving st \<and> ps_alive st \<and> ps_call st = None \<and> cs_main (ps_client st) = Main_idle \<and>
    ps_pc st = (if b then Tool_wait else Tool_loop True) \<and>
    tr_count_retry (ps_locals st) = (if b then 0 else 1) \<and>
    cs_mtx (ps_client st) = None \<and> cs_failed_set (ps_client st) \<and>
    failures (cs_events (ps_client st)) = [] \<and> success_calls (cs_events (ps_client st)) = 0 \<and>
    (\<exists>x. Ev_subscribe 0 x \<in> set (cs_events (ps_client st)))"
  by (simp add: tool_register_actions_def program_simps program_initial_def program_client_def
      client_initial_def register_enter_tool tool_head_def tool_check_def tool_run_start_def
      receiving_def counters_of_def)

section \<open>Properties of the streaming case\<close>

text \<open>
  A handler of the testing tool uses destroyed variables only after a registration that failed. On
  every other way through its loop the tool has closed the stream before the scope of the variables
  ends; when a write failed, the loop goes on without closing, and may run out of tries.
\<close>

lemma testing_tool_dangling_only_after_failed_registration:
  assumes "tool_reachable japi tid dv t st" "ps_fault st \<noteq> None"
  shows "ps_pc st \<in> {Tool_destructor True, Tool_end True} \<and>
    (\<exists>code. code \<noteq> RPC_SUCCESS \<and> Ev_registered code \<in> set (cs_events (ps_client st)))"
proof -
  have pc: "ps_pc st \<in> {Tool_destructor True, Tool_end True}"
    using tool.dangling_only_if_left_open [OF assms(1) _ assms(2)] by (cases "ps_pc st") auto
  then show ?thesis
    using reachable_tool_inv [OF assms(1)] by (auto simp: tool_inv_def)
qed

lemma run_tool_to_leave:
  "\<exists>st. tool_reachable number_json tid 7 tool_sample st \<and> receiving st \<and> ps_call st = None \<and>
     ps_pc st = Tool_leave True"
proof -
  obtain st1 where st1: "program_run number_json pbr_basic_vt (tool_program tid 7 tool_sample)
      (tool_register_actions False) (program_initial (Some (PbrCounters (tool_counters tool_sample)))
        (tool_run_start tool_sample) (Tool_loop False)) = Some st1"
    "receiving st1" "ps_call st1 = None" "ps_pc st1 = Tool_loop True" "tr_count_retry (ps_locals st1) = 1"
    using run_tool_register [of number_json tid False] by auto
  obtain st2 where st2: "program_run number_json pbr_basic_vt (tool_program tid 7 tool_sample)
      [Do_command 0] st1 = Some st2" "receiving st2" "ps_call st2 = None" "ps_pc st2 = Tool_leave True"
    using st1(2-5) by (simp add: program_act_def program_command_def tool_head_def receiving_def)
  from program_run_reachable [OF program_run_initial [OF st1(1)] st2(1)] st2 show ?thesis by blast
qed

lemma run_tool_to_dangling:
  "\<exists>st. tool_reachable number_json tid 7 tool_sample st \<and> ps_fault st = Some dangling_locals"
proof -
  obtain st1 where st1: "tool_reachable number_json tid 7 tool_sample st1" "receiving st1"
    "ps_call st1 = None" "ps_pc st1 = Tool_leave True"
    using run_tool_to_leave by blast
  obtain st2 where st2: "program_run number_json pbr_basic_vt (tool_program tid 7 tool_sample)
      [Do_command 0] st1 = Some st2" "receiving st2" "\<not> ps_alive st2"
    using st1(2-4) by (simp add: program_act_def program_command_def receiving_def)
  obtain st3 where st3: "program_run number_json pbr_basic_vt (tool_program tid 7 tool_sample)
      sample_actions st2 = Some st3" "ps_fault st3 = Some dangling_locals"
    using sample_handled_program [OF st2(2), of "tool_program tid 7 tool_sample"] st2(3)
    by (auto simp: handled_def)
  from program_run_reachable [OF program_run_reachable [OF st1(1) st2(1)] st3(1)] st3(2)
  show ?thesis by blast
qed

lemma testing_tool_dangling_only_after_failed_registration_example:
  "\<exists>st code. tool_reachable number_json ''1'' 7 tool_sample st \<and> ps_fault st = Some dangling_locals \<and>
     code \<noteq> RPC_SUCCESS \<and> Ev_registered code \<in> set (cs_events (ps_client st))"
proof -
  obtain st where st: "tool_reachable number_json ''1'' 7 tool_sample st"
    "ps_fault st = Some dangling_locals"
    using run_tool_to_dangling by blast
  then show ?thesis using testing_tool_dangling_only_after_failed_registration [OF st(1)] by fastforce
qed

text \<open>
  The testing tool is stuck after a stream that ends quietly. When it waits, the receive thread has
  ended, no stream has failed and fewer responses were handled than the option asks for, no step of
  any thread is possible; the same holds for a server that cancels the stream.
\<close>

lemma testing_tool_stuck_on_quiet_end:
  assumes "tool_reachable japi tid dv t st"
    and "ps_pc st = Tool_wait" "ps_call st = None" "cs_rx (ps_client st) = Rx_done"
    and "cs_fault (ps_client st) = None" "failures (cs_events (ps_client st)) = []"
    and "int (success_calls (cs_events (ps_client st))) < tl_responses t"
  shows "\<not> tr_ended (ps_locals st) \<and>
    (\<forall>a. program_act japi pbr_basic_vt (tool_program tid dv t) a st = None)"
proof
  have "failed_calls (cs_events (ps_client st)) = []"
    using reachable_reported [OF program_client_reachable [OF assms(1)]] assms(4-6)
    by (simp add: reported_inv_def)
  then show waiting: "\<not> tr_ended (ps_locals st)"
    using reachable_tool_inv [OF assms(1)] assms(7) by (auto simp: tool_inv_def)
  show "\<forall>a. program_act japi pbr_basic_vt (tool_program tid dv t) a st = None"
    by (intro allI, rule waiting_stuck [OF reachable_call_inv [OF assms(1)] assms(3,4)])
      (simp add: assms(2), simp add: waiting)
qed

lemma testing_tool_stuck_on_quiet_end_example:
  "\<exists>st. tool_reachable number_json ''1'' 7 tool_sample st \<and> ps_pc st = Tool_wait \<and>
     (\<forall>a. program_act number_json pbr_basic_vt (tool_program ''1'' 7 tool_sample) a st = None)"
proof -
  obtain st1 where st1: "program_run number_json pbr_basic_vt (tool_program ''1'' 7 tool_sample)
      (tool_register_actions True) (program_initial (Some (PbrCounters (tool_counters tool_sample)))
        (tool_run_start tool_sample) (Tool_loop False)) = Some st1"
    "receiving st1" "ps_call st1 = None" "ps_pc st1 = Tool_wait" "cs_mtx (ps_client st1) = None"
    "failures (cs_events (ps_client st1)) = []" "success_calls (cs_events (ps_client st1)) = 0"
    using run_tool_register [of number_json "''1''" True] by auto
  have "\<exists>st. program_run number_json pbr_basic_vt (tool_program ''1'' 7 tool_sample)
      (map Do_client (end_actions ok_status)) st1 = Some st \<and> ps_pc st = Tool_wait \<and>
      ps_call st = None \<and> cs_rx (ps_client st) = Rx_done \<and> cs_fault (ps_client st) = None \<and>
      failures (cs_events (ps_client st)) = [] \<and> success_calls (cs_events (ps_client st)) = 0"
    using st1(2-7) by (auto simp: end_actions_def program_simps rx_read_def rx_writes_done_def
        rx_finish_def rx_status_def scripted_status failing_def receiving_def)
  then obtain st where st: "program_run number_json pbr_basic_vt (tool_program ''1'' 7 tool_sample)
      (map Do_client (end_actions ok_status)) st1 = Some st" "ps_pc st = Tool_wait"
      "ps_call st = None" "cs_rx (ps_client st) = Rx_done" "cs_fault (ps_client st) = None"
      "failures (cs_events (ps_client st)) = []" "success_calls (cs_events (ps_client st)) = 0"
    by blast
  have reach: "tool_reachable number_json ''1'' 7 tool_sample st"
    using program_run_reachable [OF program_run_initial [OF st1(1)] st(1)] .
  have "int (success_calls (cs_events (ps_client st))) < tl_responses tool_sample"
    using st(7) by simp
  from testing_tool_stuck_on_quiet_end [OF reach st(2-6) this] reach st(2) show ?thesis by blast
qed

text \<open>
  The deadline given to the testing tool is not the deadline of its streams. Every stream is opened
  with the deadline \<^verbatim>\<open>now() + deadline_var\<close>, where \<^verbatim>\<open>deadline_var\<close> is never assigned; the number of
  seconds of the option plays no part.
\<close>

lemma testing_tool_deadline_not_from_option:
  assumes "tool_reachable japi tid dv t st" "set_deadline (tl_context_args t)"
    and "Ev_subscribe n x \<in> set (cs_events (ps_client st))"
  shows "\<exists>now. x = make_context ((tl_context_args t)\<lparr>deadline := now + dv * 1000000\<rparr>)"
  using reachable_deadline_inv [OF assms(1,2)] assms(3)
  unfolding deadline_inv_def deadline_ctx_def by blast

lemma testing_tool_deadline_not_from_option_example:
  "\<exists>st x now. tool_reachable number_json ''1'' 7 tool_sample st \<and>
     Ev_subscribe 0 x \<in> set (cs_events (ps_client st)) \<and>
     x = make_context ((tl_context_args tool_sample)\<lparr>deadline := now + 7000000\<rparr>)"
proof -
  obtain st x where run: "program_run number_json pbr_basic_vt (tool_program ''1'' 7 tool_sample)
      (tool_register_actions True) (program_initial (Some (PbrCounters (tool_counters tool_sample)))
        (tool_run_start tool_sample) (Tool_loop False)) = Some st"
    and x: "Ev_subscribe 0 x \<in> set (cs_events (ps_client st))"
    using run_tool_register [of number_json "''1''" True] by blast
  note reach = program_run_initial [OF run]
  from testing_tool_deadline_not_from_option [OF reach _ x] x reach show ?thesis by fastforce
qed

end
