(* ===== verification/Testing_Tool_Threads.thy ===== *)
theory Testing_Tool_Threads
  imports Testing_Tool_Run Program_Races Program_Progress
begin

text \<open>
  The data races of the composed testing tool. Of the variables its handlers share with its loop only
  \<^verbatim>\<open>stream_ended\<close> is always used under the mutex; \<^verbatim>\<open>retry\<close> and \<^verbatim>\<open>count\<close> are used without it, and rest on
  the closing of the stream.
\<close>

section \<open>What uses what\<close>

datatype tool_var =
    Var_retry
  | Var_tool_count
  | Var_stream_ended
  | Var_responses
  | Var_stream_mtx
  | Var_stream_cv

definition end_stream_uses :: "tool_var var_use list" where
  "end_stream_uses =
     [var_write Var_retry, var_read Var_stream_mtx, locked_write Var_stream_ended, var_read Var_stream_cv]"

definition tool_success_uses :: "int \<Rightarrow> pbr_basic \<Rightarrow> tool_run_locals \<Rightarrow> tool_var var_use list" where
  "tool_success_uses number_of_stream_responses iface q =
     (if pbr_stats iface \<noteq> []
      then [var_write Var_tool_count, var_read Var_tool_count, var_read Var_responses] @
           (if tr_count q + 1 \<ge> number_of_stream_responses then end_stream_uses else [])
      else [])"

definition tool_failed_uses :: "grpc_status \<Rightarrow> tool_run_locals \<Rightarrow> tool_var var_use list" where
  "tool_failed_uses status q = (if \<not> status_ok status then end_stream_uses else [])"

text \<open>
  \<^verbatim>\<open>number_of_stream_responses\<close> belongs to the whole of \<^verbatim>\<open>main\<close>, which reads it at the head of the loop; the
  other variables end with the scope.
\<close>

fun tool_main_uses :: "tool_pc \<Rightarrow> tool_var var_use list" where
  "tool_main_uses (Tool_loop _) = [var_read Var_responses]"
| "tool_main_uses Tool_wait =
     [var_read Var_stream_mtx, var_read Var_stream_cv, locked_read Var_stream_ended]"
| "tool_main_uses Tool_closed =
     [var_read Var_retry, var_write Var_retry, var_write Var_tool_count, var_read Var_stream_mtx,
      locked_write Var_stream_ended]"
| "tool_main_uses (Tool_leave _) =
     map var_write [Var_retry, Var_tool_count, Var_stream_ended, Var_stream_mtx, Var_stream_cv]"
| "tool_main_uses _ = []"

definition tool_captured :: "tool_locals \<Rightarrow> (pbr_basic, tool_run_locals, tool_pc, tool_var) captured" where
  "tool_captured t =
     \<lparr>cv_main = tool_main_uses, cv_success = tool_success_uses (tl_responses t),
      cv_failed = tool_failed_uses\<rparr>"

fun tool_same :: "tool_var \<Rightarrow> tool_run_locals \<Rightarrow> tool_run_locals \<Rightarrow> bool" where
  "tool_same Var_retry q q' \<longleftrightarrow> tr_retry q' = tr_retry q"
| "tool_same Var_tool_count q q' \<longleftrightarrow> tr_count q' = tr_count q"
| "tool_same Var_stream_ended q q' \<longleftrightarrow> tr_ended q' = tr_ended q"
| "tool_same _ q q' \<longleftrightarrow> True"

lemmas tool_uses = tool_captured_def tool_success_uses_def tool_failed_uses_def end_stream_uses_def

interpretation tool_guarded: guarded_program "tool_program tid dv t" tool_in_scope tool_may_open
  "tool_captured t" tool_same
proof
  show "tool_same v q q" for v q by (cases v) simp_all
  show "tool_same v q (pg_success (tool_program tid dv t) c q)"
    if "\<not> writes_var v (cv_success (tool_captured t) c q)" for v c q
    using that by (cases v) (auto simp: tool_uses tool_success_def tool_print_def Let_def split: if_splits)
  show "tool_same v q (pg_failed (tool_program tid dv t) status q)"
    if "\<not> writes_var v (cv_failed (tool_captured t) status q)" for v status q
    using that by (cases v) (auto simp: tool_uses tool_failed_def tool_print_def Let_def split: if_splits)
  show "tool_same v q q'"
    if "pg_command (tool_program tid dv t) p = Local l" "l now q = (q', p')"
      "\<not> writes_var v (cv_main (tool_captured t) p)" for v p l now q q' p'
    using that by (cases v; cases p) (auto simp: tool_uses tool_head_def tool_check_def
        tool_check_retry_def tool_print_def Let_def split: if_splits)
  show "tool_same v q q'"
    if "pg_command (tool_program tid dv t) p = Wait w g" "g q = (q', p')" for v p w g q q' p'
    using that by (cases v; cases p) auto
  show "\<not> use_conflict x y"
    if "tool_may_open p" "\<nexists>p'. pg_command (tool_program tid dv t) p = Destroy_locals p'"
      "x \<in> set (cv_main (tool_captured t) p)" "y \<in> set (cv_success (tool_captured t) c q)" for p x y c q
    using that by (cases p) (auto simp: tool_uses use_conflict_def split: if_splits)
  show "\<not> use_conflict x y"
    if "tool_may_open p" "\<nexists>p'. pg_command (tool_program tid dv t) p = Destroy_locals p'"
      "x \<in> set (cv_main (tool_captured t) p)" "y \<in> set (cv_failed (tool_captured t) status q)"
    for p x y status q
    using that by (cases p) (auto simp: tool_uses use_conflict_def split: if_splits)
qed

section \<open>Properties\<close>

text \<open>
  C40: the testing tool has one data race. \<^verbatim>\<open>check_retry\<close> reads and resets \<^verbatim>\<open>retry\<close> and \<^verbatim>\<open>count\<close> without the
  mutex, but only when no receive thread exists; so the only race, in any interleaving, is between a
  handler and the end of the scope, after a registration that failed and was not closed.
\<close>

theorem testing_tool_races_only_after_failed_registration:
  assumes "tool_reachable japi tid dv t st"
    and "program_races japi pbr_basic_vt (tool_program tid dv t) (tool_captured t) a b st"
  shows "ps_pc st = Tool_leave True \<and> (\<exists>now. a = Do_command now) \<and>
    (\<exists>code. code \<noteq> RPC_SUCCESS \<and> Ev_registered code \<in> set (cs_events (ps_client st)))"
proof -
  obtain now p' where a: "a = Do_command now" and call: "ps_call st = None"
    and destroy: "pg_command (tool_program tid dv t) (ps_pc st) = Destroy_locals p'"
    and "tool_may_open (ps_pc st)"
    using tool_guarded.races_only_at_end [OF assms(1) _ assms(2)] by auto
  then have "ps_pc st = Tool_leave True" by (cases "ps_pc st") auto
  with a show ?thesis
    using reachable_tool_inv [OF assms(1)] by (auto simp: tool_inv_def)
qed

theorem testing_tool_races_only_after_failed_registration_witness:
  "\<exists>st code. tool_reachable number_json ''1'' 7 tool_sample st \<and>
     program_races number_json pbr_basic_vt (tool_program ''1'' 7 tool_sample) (tool_captured tool_sample)
       (Do_command 0) (Do_client Rx_handle) st \<and>
     code \<noteq> RPC_SUCCESS \<and> Ev_registered code \<in> set (cs_events (ps_client st))"
proof -
  let ?prog = "tool_program ''1'' 7 tool_sample"
  obtain st2 where st2: "tool_reachable number_json ''1'' 7 tool_sample st2" "receiving st2"
    "ps_call st2 = None" "ps_pc st2 = Tool_leave True"
    using run_tool_to_leave by blast
  have "use_conflict (var_write Var_tool_count) (var_write Var_tool_count)" by (simp add: use_conflict_def)
  from sample_races_at_end [OF st2(2,3) _ _ _ this, of ?prog "Tool_destructor True"
      "tool_captured tool_sample"] obtain st3 where
    run: "program_run number_json pbr_basic_vt ?prog [Do_client (Rx_receive (Some sample_response))] st2 =
      Some st3" and
    race: "program_races number_json pbr_basic_vt ?prog (tool_captured tool_sample)
       (Do_command 0) (Do_client Rx_handle) st3"
    using st2(4) by (auto simp: tool_uses)
  note reach = program_run_reachable [OF st2(1) run]
  from testing_tool_races_only_after_failed_registration [OF reach race] reach race show ?thesis by blast
qed

section \<open>Where it can go on\<close>

interpretation tool_closing: closing_program "tool_program tid dv t" tool_in_scope tool_may_open
proof
  show "pg_command (tool_program tid dv t) p \<noteq> Halt" if "tool_in_scope p" for p
    using that by (cases p) simp_all
  show "pg_command (tool_program tid dv t) p' \<noteq> Halt"
    if "pg_command (tool_program tid dv t) p = Local l" "l now q = (q', p')" for p l now q q' p'
    using that by (cases p) (auto simp: tool_head_def tool_check_def tool_check_retry_def Let_def
        split: if_splits)
  show "pg_command (tool_program tid dv t) p' \<noteq> Halt"
    if "pg_command (tool_program tid dv t) p = Wait w g" "g q = (q', p')" for p w g q q' p'
    using that by (cases p) auto
  show "pg_command (tool_program tid dv t) p' \<noteq> Halt"
    if "pg_command (tool_program tid dv t) p = Destroy_locals p'" for p p'
    using that by (cases p) auto
qed

text \<open>
  The testing tool cannot go on only at its end, or while it waits for \<^verbatim>\<open>stream_ended\<close> and no receive
  thread is running that could set it.
\<close>

lemma testing_tool_deadlocks_iff:
  assumes "tool_reachable japi tid dv t st" "ps_fault st = None" "cs_fault (ps_client st) = None"
  shows "stuck japi pbr_basic_vt (tool_program tid dv t) st \<longleftrightarrow>
    (\<exists>b. ps_pc st = Tool_end b) \<or>
    ps_pc st = Tool_wait \<and> ps_call st = None \<and> \<not> tr_ended (ps_locals st) \<and>
      (cs_rx (ps_client st) = Rx_none \<or> cs_rx (ps_client st) = Rx_done)"
proof -
  have "pg_command (tool_program tid dv t) (ps_pc st) = Halt \<longleftrightarrow> (\<exists>b. ps_pc st = Tool_end b)"
    by (cases "ps_pc st") simp_all
  moreover have "blocked (tool_program tid dv t) st \<longleftrightarrow> ps_pc st = Tool_wait \<and> \<not> tr_ended (ps_locals st)"
    by (cases "ps_pc st") (simp_all add: blocked_def)
  ultimately show ?thesis using tool_closing.stuck_ended_or_blocked [OF assms(1) _ assms(2,3)] by auto
qed

end
