(* ===== verification/Handler_Calls.thy ===== *)
theory Handler_Calls
  imports Client_Stream
begin

text \<open>
  Handlers that call back into the client. A handler runs in the receive thread, in the middle of the
  loop of \<open>Client_Stream\<close>; here its body is any sequence of calls of \<^verbatim>\<open>rpc_register_stats_stream\<close> and
  \<^verbatim>\<open>rpc_stream_close\<close>, so the same operations run in either thread. The failed handler is called while
  the receive thread holds \<^verbatim>\<open>subscription_mode_stream_mtx\<close>. Handlers run behind the assignment of the new
  thread to \<^verbatim>\<open>receive_thread\<close>; the short time before it, in which the thread already runs, is left out.
\<close>

section \<open>The receive thread inside a handler\<close>

text \<open>
  \<open>hs_call\<close> is \<open>None\<close> outside a handler; inside, it is where the handler is: \<open>Main_idle\<close> in its own code,
  or a point of the client operation it called.
\<close>

record 'c handler_state =
  hs_client :: "'c client_state"
  hs_call :: "main_pc option"

definition handler_initial :: "'c gnmi_counters option \<Rightarrow> 'c handler_state" where
  "handler_initial i = \<lparr>hs_client = client_initial i, hs_call = None\<rparr>"

datatype handler_action =
    Outside client_action
  | Enter_failed_handler
  | Inside client_action
  | Leave_handler

text \<open>Locking a \<^verbatim>\<open>std::mutex\<close> the thread owns.\<close>

definition relocked :: fault where
  "relocked = Undefined_behaviour ''mutex locked by its owner''"

text \<open>A step of an operation, with the point of the handler in the place of the calling thread's.\<close>

definition in_handler :: "main_pc \<Rightarrow> 'c client_state \<Rightarrow> 'c client_state" where
  "in_handler pc s = s\<lparr>cs_main := pc\<rparr>"

definition back_in_handler :: "'c client_state \<Rightarrow> 'c handler_state \<Rightarrow> 'c handler_state" where
  "back_in_handler s' h =
     h\<lparr>hs_client := s'\<lparr>cs_main := cs_main (hs_client h)\<rparr>, hs_call := Some (cs_main s')\<rparr>"

definition faulted :: "fault \<Rightarrow> 'c handler_state \<Rightarrow> 'c handler_state" where
  "faulted f h = h\<lparr>hs_client := fail_with f (hs_client h)\<rparr>"

definition handler_acquire :: "main_pc \<Rightarrow> 'c handler_state \<Rightarrow> 'c handler_state option" where
  "handler_acquire pc h =
     (case acquired pc of
        None \<Rightarrow> None
      | Some pc' \<Rightarrow>
          (case cs_mtx (hs_client h) of
             None \<Rightarrow> Some (h\<lparr>hs_client := (hs_client h)\<lparr>cs_mtx := Some Receive_thread\<rparr>, hs_call := Some pc'\<rparr>)
           | Some Receive_thread \<Rightarrow> Some (faulted relocked h)
           | Some Main_thread \<Rightarrow> None))"

text \<open>The join is made by the receive thread, which is the thread it waits for.\<close>

definition handler_join :: "'c handler_state \<Rightarrow> 'c handler_state option" where
  "handler_join h =
     (case thread_join Receive_thread (hs_client h) of
        None \<Rightarrow> None
      | Some s' \<Rightarrow>
          Some (h\<lparr>hs_client := s',
                  hs_call := (if cs_fault s' = None then Some Close_reset else hs_call h)\<rparr>))"

text \<open>
  The calls of a handler. The setters are left out: replacing the function object that is running has
  no defined behaviour.
\<close>

definition handler_operation ::
  "('c, 's) pbr_vtable \<Rightarrow> client_action \<Rightarrow> main_pc \<Rightarrow> 'c handler_state \<Rightarrow> 'c handler_state option" where
  "handler_operation vt a pc h =
     (case a of
        Set_success_handler _ \<Rightarrow> None
      | Set_failed_handler _ \<Rightarrow> None
      | Main_acquire \<Rightarrow> handler_acquire pc h
      | Main_join \<Rightarrow> if pc = Close_join then handler_join h else None
      | _ \<Rightarrow>
          (case act_main vt a (in_handler pc (hs_client h)) of
             None \<Rightarrow> None
           | Some s' \<Rightarrow> Some (back_in_handler s' h)))"

text \<open>The failed handler is due: the final status is a failure and the handler is set.\<close>

definition failed_handler_due :: "'c client_state \<Rightarrow> bool" where
  "failed_handler_due s \<longleftrightarrow>
     (case cs_rx s of
        Rx_status st \<Rightarrow> \<not> status_ok st \<and> \<not> status_cancelled st \<and> cs_failed_set s
      | _ \<Rightarrow> False)"

definition outside_step ::
  "'j json_api \<Rightarrow> ('c, 's) pbr_vtable \<Rightarrow> client_action \<Rightarrow> 'c handler_state \<Rightarrow> 'c handler_state option" where
  "outside_step japi vt a h =
     (if \<not> is_main a \<and> (hs_call h \<noteq> None \<or> a = Rx_report \<and> failed_handler_due (hs_client h)) then None
      else (case client_act japi vt a (hs_client h) of
              None \<Rightarrow> None
            | Some s' \<Rightarrow>
                Some (h\<lparr>hs_client := s',
                        hs_call := (if success_calls (cs_events s') \<noteq> success_calls (cs_events (hs_client h))
                                    then Some Main_idle else hs_call h)\<rparr>)))"

text \<open>
  The success handler is entered by the step that handles a response. The failed handler is entered
  before the report, which is completed when the handler returns.
\<close>

definition handler_act ::
  "'j json_api \<Rightarrow> ('c, 's) pbr_vtable \<Rightarrow> handler_action \<Rightarrow> 'c handler_state \<Rightarrow> 'c handler_state option" where
  "handler_act japi vt a h =
     (if cs_fault (hs_client h) \<noteq> None then None
      else (case a of
              Outside b \<Rightarrow> outside_step japi vt b h
            | Enter_failed_handler \<Rightarrow>
                if hs_call h = None \<and> failed_handler_due (hs_client h)
                then Some (h\<lparr>hs_call := Some Main_idle\<rparr>) else None
            | Inside b \<Rightarrow>
                (case hs_call h of
                   None \<Rightarrow> None
                 | Some pc \<Rightarrow> if is_main b then handler_operation vt b pc h else None)
            | Leave_handler \<Rightarrow>
                if hs_call h \<noteq> Some Main_idle then None
                else (case cs_rx (hs_client h) of
                        Rx_status st \<Rightarrow>
                          Some (h\<lparr>hs_client := rx_status st (hs_client h), hs_call := None\<rparr>)
                      | _ \<Rightarrow> Some (h\<lparr>hs_call := None\<rparr>))))"

inductive handler_reachable ::
  "'j json_api \<Rightarrow> ('c, 's) pbr_vtable \<Rightarrow> 'c gnmi_counters option \<Rightarrow> 'c handler_state \<Rightarrow> bool"
  for japi vt i where
  handler_starts: "handler_reachable japi vt i (handler_initial i)"
| handler_steps: "handler_reachable japi vt i h \<Longrightarrow> handler_act japi vt a h = Some h' \<Longrightarrow>
    handler_reachable japi vt i h'"

section \<open>The invariant\<close>

text \<open>Where a handler can be inside the client's operations.\<close>

fun handler_pc :: "main_pc \<Rightarrow> bool" where
  "handler_pc Main_idle = True"
| "handler_pc (Reg_lock_write _) = True"
| "handler_pc (Reg_write _) = True"
| "handler_pc Close_lock = True"
| "handler_pc Close_cancel = True"
| "handler_pc Close_join = True"
| "handler_pc _ = False"

definition handler_holds :: "'c handler_state \<Rightarrow> bool" where
  "handler_holds h \<longleftrightarrow> (\<exists>pc. hs_call h = Some pc \<and> main_holds pc)"

text \<open>Points that are reached only after the mutex was locked.\<close>

definition past_lock :: "main_pc \<Rightarrow> bool" where
  "past_lock pc \<longleftrightarrow> main_holds pc \<or> pc = Close_join"

lemma past_lock_simps [simp]:
  "\<not> past_lock Main_idle" "\<not> past_lock (Reg_lock_write r)" "past_lock (Reg_write r)"
  "\<not> past_lock Close_lock" "past_lock Close_cancel" "past_lock Close_join"
  "main_holds pc \<Longrightarrow> past_lock pc"
  by (simp_all add: past_lock_def)

definition handler_inv :: "'c handler_state \<Rightarrow> bool" where
  "handler_inv h \<longleftrightarrow>
     (let s = hs_client h in
      stream_inv s \<and>
      (cs_mtx s = Some Main_thread \<longleftrightarrow> main_holds (cs_main s)) \<and>
      (cs_mtx s = Some Receive_thread \<longleftrightarrow> rx_holds (cs_rx s) \<or> handler_holds h) \<and>
      (\<forall>n. phase_of n (cs_events s) = Some (stream_phase_of s n)) \<and>
      (\<forall>pc. hs_call h = Some pc \<longrightarrow> handler_pc pc \<and>
         (cs_rx s = Rx_read \<or> (\<exists>st. cs_rx s = Rx_status st) \<and> \<not> past_lock pc)))"

lemma handler_inv_initial: "handler_inv (handler_initial i)"
  by (simp add: handler_inv_def handler_initial_def client_initial_def stream_inv_def handler_holds_def
      stream_phase_of_def phase_at_def Let_def)

lemma act_main_mutex:
  assumes "act_main vt a s = Some s'" "cs_mtx s = Some Main_thread \<longleftrightarrow> main_holds (cs_main s)"
  shows "(cs_mtx s' = Some Main_thread \<longleftrightarrow> main_holds (cs_main s')) \<and>
    (cs_mtx s' = Some Receive_thread \<longleftrightarrow> cs_mtx s = Some Receive_thread)"
  using assms
  by (cases a) (auto simp: act_main_def main_ops Let_def acquired_points
      split: if_splits option.splits main_pc.splits gnmi_counters.splits prod.splits)

lemma act_main_rx:
  assumes "act_main vt a s = Some s'" "stream_inv s"
  shows "cs_rx s' = cs_rx s \<or> cs_rx s = Rx_none \<or> cs_rx s = Rx_done"
  using assms
  by (cases a) (auto simp: act_main_def main_ops stream_inv_def Let_def
      split: if_splits option.splits main_pc.splits gnmi_counters.splits prod.splits)

lemma act_rx_mutex:
  assumes "act_rx japi vt a s = Some s'" "cs_mtx s = Some Receive_thread \<longleftrightarrow> rx_holds (cs_rx s)"
  shows "(cs_mtx s' = Some Receive_thread \<longleftrightarrow> rx_holds (cs_rx s')) \<and>
    (cs_mtx s' = Some Main_thread \<longleftrightarrow> cs_mtx s = Some Main_thread) \<and> cs_main s' = cs_main s"
  using assms
  by (cases a) (auto simp: act_rx_def rx_ops Let_def
      split: if_splits option.splits rx_pc.splits gnmi_counters.splits prod.splits sum.splits)

text \<open>A success handler is entered right after its response, and the thread reads next.\<close>

lemma act_rx_enters:
  assumes "act_rx japi vt a s = Some s'" "success_calls (cs_events s') \<noteq> success_calls (cs_events s)"
  shows "cs_rx s' = Rx_read"
  using assms
  by (cases rule: act_rx_cases) (auto simp: rx_ops Let_def
      split: if_splits option.splits gnmi_counters.splits prod.splits sum.splits)

lemma handler_holds_simps [simp]:
  "hs_call h = None \<Longrightarrow> \<not> handler_holds h"
  "hs_call h = Some pc \<Longrightarrow> handler_holds h \<longleftrightarrow> main_holds pc"
  by (simp_all add: handler_holds_def)

lemma outside_main_inv:
  assumes inv: "handler_inv h" and act: "act_main vt a (hs_client h) = Some s'"
  shows "handler_inv (h\<lparr>hs_client := s'\<rparr>)"
proof -
  have stream: "stream_inv (hs_client h)" using inv by (simp add: handler_inv_def Let_def)
  note rx = act_main_rx [OF act stream] and mtx = act_main_mutex [OF act]
    and stream' = act_main_stream_inv [OF stream act] and phase = act_main_phase [OF stream _ act]
  have "rx_holds (cs_rx s') = rx_holds (cs_rx (hs_client h))"
  proof (cases "cs_rx s' = cs_rx (hs_client h)")
    case False
    then have "cs_rx (hs_client h) = Rx_none \<or> cs_rx (hs_client h) = Rx_done" using rx by blast
    then show ?thesis
      using act False by (cases a) (auto simp: act_main_def main_ops Let_def
          split: if_splits option.splits main_pc.splits gnmi_counters.splits prod.splits)
  qed simp
  moreover have "cs_rx s' = cs_rx (hs_client h)"
    if "cs_rx (hs_client h) = Rx_read \<or> (\<exists>st. cs_rx (hs_client h) = Rx_status st)"
    using that rx by auto
  ultimately show ?thesis
    using inv mtx stream' phase
    unfolding handler_inv_def Let_def handler_holds_def by (simp, metis)
qed

lemma outside_rx_inv:
  assumes inv: "handler_inv h" and "hs_call h = None" and act: "act_rx japi vt a (hs_client h) = Some s'"
    and call: "call = (if success_calls (cs_events s') \<noteq> success_calls (cs_events (hs_client h))
      then Some Main_idle else None)"
  shows "handler_inv (h\<lparr>hs_client := s', hs_call := call\<rparr>)"
proof -
  have stream: "stream_inv (hs_client h)" using inv by (simp add: handler_inv_def Let_def)
  have "cs_mtx (hs_client h) = Some Receive_thread \<longleftrightarrow> rx_holds (cs_rx (hs_client h))"
    using inv assms(2) by (simp add: handler_inv_def Let_def)
  note mtx = act_rx_mutex [OF act this] and stream' = act_rx_stream_inv [OF stream act]
    and phase = act_rx_phase [OF stream _ act] and enters = act_rx_enters [OF act]
  show ?thesis
    using inv mtx stream' phase enters call by (simp add: handler_inv_def Let_def)
qed

text \<open>Inside a handler: the operations change the mutex and the history only.\<close>

definition same_stream :: "'c client_state \<Rightarrow> 'c client_state \<Rightarrow> bool" where
  "same_stream s s' \<longleftrightarrow>
     cs_joinable s' = cs_joinable s \<and> cs_rx s' = cs_rx s \<and> cs_ctx s' = cs_ctx s \<and>
     cs_rw s' = cs_rw s \<and> cs_streams s' = cs_streams s \<and> cs_main s' = cs_main s \<and>
     (\<forall>n. phase_of n (cs_events s') = phase_of n (cs_events s))"

lemma handler_inv_frame:
  assumes "handler_inv h" "hs_call h = Some pc" "same_stream (hs_client h) s'" "handler_pc pc'"
    and "cs_mtx s' = Some Main_thread \<longleftrightarrow> cs_mtx (hs_client h) = Some Main_thread"
    and "cs_mtx s' = Some Receive_thread \<longleftrightarrow> rx_holds (cs_rx (hs_client h)) \<or> main_holds pc'"
    and "past_lock pc' \<longrightarrow> cs_rx (hs_client h) = Rx_read"
  shows "handler_inv (h\<lparr>hs_client := s', hs_call := Some pc'\<rparr>)"
proof -
  have "stream_inv s'" "\<forall>n. stream_phase_of s' n = stream_phase_of (hs_client h) n"
    using assms(1,3)
    by (auto simp: handler_inv_def same_stream_def stream_inv_def stream_phase_of_def Let_def
        split: option.splits)
  then show ?thesis
    using assms by (auto simp: handler_inv_def same_stream_def Let_def)
qed

lemma handler_inv_points:
  assumes "handler_inv h" "hs_call h = Some pc"
  shows "handler_pc pc" "cs_joinable (hs_client h)" "stream_inv (hs_client h)"
    "cs_rx (hs_client h) = Rx_read \<or> (\<exists>st. cs_rx (hs_client h) = Rx_status st) \<and> \<not> past_lock pc"
    "cs_mtx (hs_client h) = Some Receive_thread \<longleftrightarrow> rx_holds (cs_rx (hs_client h)) \<or> main_holds pc"
  using assms by (auto simp: handler_inv_def stream_inv_def Let_def)

lemma handler_acquire_inv:
  assumes "handler_inv h" "hs_call h = Some pc" "handler_acquire pc h = Some h'"
  shows "handler_inv h'"
proof -
  note points = handler_inv_points [OF assms(1,2)]
  obtain pc' where pc': "acquired pc = Some pc'"
    using assms(3) by (auto simp: handler_acquire_def split: option.splits)
  have "handler_pc pc'" using points(1) pc' by (cases pc) auto
  consider "cs_mtx (hs_client h) = None" | "cs_mtx (hs_client h) = Some Receive_thread"
    using assms(3) pc' by (auto simp: handler_acquire_def split: option.splits thread.splits)
  then show ?thesis
  proof cases
    case 1
    have rx: "cs_rx (hs_client h) = Rx_read" using points(4,5) 1 by auto
    have "h' = h\<lparr>hs_client := (hs_client h)\<lparr>cs_mtx := Some Receive_thread\<rparr>, hs_call := Some pc'\<rparr>"
      using assms(3) pc' 1 by (simp add: handler_acquire_def)
    moreover have "handler_inv (h\<lparr>hs_client := (hs_client h)\<lparr>cs_mtx := Some Receive_thread\<rparr>,
        hs_call := Some pc'\<rparr>)"
      using assms(1,2) \<open>handler_pc pc'\<close> acquired_points(1) [OF pc'] rx 1
      by (intro handler_inv_frame [OF assms(1,2)]) (simp_all add: same_stream_def)
    ultimately show ?thesis by simp
  next
    case 2
    have "h' = h\<lparr>hs_client := fail_with relocked (hs_client h), hs_call := Some pc\<rparr>"
      using assms(2,3) pc' 2 by (cases h) (auto simp: handler_acquire_def faulted_def)
    moreover have "handler_inv (h\<lparr>hs_client := fail_with relocked (hs_client h), hs_call := Some pc\<rparr>)"
      using points by (intro handler_inv_frame [OF assms(1,2)]) (auto simp: same_stream_def fail_with_def)
    ultimately show ?thesis by simp
  qed
qed

text \<open>The calls of the other operations, one by one; the branches for a client without a thread are dead.\<close>

lemma handler_operation_cases:
  assumes "handler_operation vt a pc h = Some h'" "handler_pc pc" "cs_joinable (hs_client h)"
  obtains (acquire) "a = Main_acquire" "handler_acquire pc h = Some h'"
    | (join) "a = Main_join" "pc = Close_join" "h' = faulted self_join h"
    | (register) x args where "pc = Main_idle"
        "h' = back_in_handler (register_enter vt x args (in_handler pc (hs_client h))) h"
    | (close) "pc = Main_idle" "h' = back_in_handler (close_enter (in_handler pc (hs_client h))) h"
    | (writing) r b where "pc = Reg_write r"
        "h' = back_in_handler (register_write r b (in_handler pc (hs_client h))) h"
    | (cancel) "pc = Close_cancel" "h' = back_in_handler (close_cancel (in_handler pc (hs_client h))) h"
proof (cases a)
  case (Call_register x args)
  with assms show ?thesis
    by (auto simp: handler_operation_def act_main_def in_handler_def intro: that(3)
        split: if_splits option.splits)
next
  case Call_close
  with assms show ?thesis
    by (auto simp: handler_operation_def act_main_def in_handler_def intro: that(4)
        split: if_splits option.splits)
next
  case Main_acquire
  with assms show ?thesis by (auto simp: handler_operation_def intro: that(1))
next
  case (Main_write b)
  with assms show ?thesis
    by (cases pc) (auto simp: handler_operation_def act_main_def in_handler_def intro: that(5))
next
  case Main_cancel
  with assms show ?thesis
    by (cases pc) (auto simp: handler_operation_def act_main_def in_handler_def intro: that(6))
next
  case Main_join
  with assms show ?thesis
    by (intro that(2)) (auto simp: handler_operation_def handler_join_def thread_join_def faulted_def
        fail_with_def split: if_splits)
qed (use assms in \<open>cases pc; auto simp: handler_operation_def act_main_def in_handler_def\<close>)+

lemma back_in_handler_inv:
  assumes "handler_inv h" "hs_call h = Some pc" "same_stream (hs_client h) (s'\<lparr>cs_main := cs_main (hs_client h)\<rparr>)"
    and "handler_pc (cs_main s')"
    and "past_lock (cs_main s') \<longrightarrow> past_lock pc"
    and "\<not> main_holds (cs_main s') \<and> cs_mtx s' = (if main_holds pc then None else cs_mtx (hs_client h)) \<or>
      cs_main s' = pc \<and> cs_mtx s' = cs_mtx (hs_client h)"
  shows "handler_inv (back_in_handler s' h)"
proof -
  note points = handler_inv_points [OF assms(1,2)]
  show ?thesis
    unfolding back_in_handler_def using assms(3-6) points(4,5)
    by (intro handler_inv_frame [OF assms(1,2)]) auto
qed

lemma register_enter_joinable:
  assumes "cs_joinable s"
  shows "handler_pc (cs_main (register_enter vt x args s)) \<or> cs_main (register_enter vt x args s) = cs_main s"
    and "\<not> past_lock (cs_main (register_enter vt x args s)) \<or> cs_main (register_enter vt x args s) = cs_main s"
    and "cs_mtx (register_enter vt x args s) = cs_mtx s"
    and "same_stream s ((register_enter vt x args s)\<lparr>cs_main := cs_main s\<rparr>)"
  using assms
  by (simp_all add: register_enter_def same_stream_def emit_def fail_with_def Let_def
      split: option.split gnmi_counters.split prod.split)

lemma handler_operation_inv:
  assumes inv: "handler_inv h" and call: "hs_call h = Some pc"
    and op: "handler_operation vt a pc h = Some h'"
  shows "handler_inv h'"
proof -
  note points = handler_inv_points [OF inv call]
  from op points(1,2) show ?thesis
  proof (cases rule: handler_operation_cases)
    case acquire
    then show ?thesis using handler_acquire_inv [OF inv call] by simp
  next
    case join
    have "h' = h\<lparr>hs_client := fail_with self_join (hs_client h), hs_call := Some pc\<rparr>"
      using join(3) call by (cases h) (simp add: faulted_def)
    moreover have "handler_inv (h\<lparr>hs_client := fail_with self_join (hs_client h), hs_call := Some pc\<rparr>)"
      using points by (intro handler_inv_frame [OF inv call]) (auto simp: same_stream_def fail_with_def)
    ultimately show ?thesis by simp
  next
    case (register x args)
    have "cs_joinable (in_handler pc (hs_client h))" using points(2) by (simp add: in_handler_def)
    from register_enter_joinable [OF this, of vt x args] show ?thesis
      unfolding register(2) using register(1) points(1)
      by (intro back_in_handler_inv [OF inv call]) (auto simp: same_stream_def in_handler_def)
  next
    case close
    then show ?thesis
      using points(2) by (auto intro!: back_in_handler_inv [OF inv call]
          simp: same_stream_def in_handler_def close_enter_def)
  next
    case (writing r b)
    obtain n where n: "cs_rw (hs_client h) = Some n" "cs_ctx (hs_client h) \<noteq> None" "cs_streams (hs_client h) = Suc n"
      using points(2,3) by (auto simp: stream_inv_def)
    have "phase_of n (cs_events (hs_client h)) \<noteq> Some Unopened"
      using inv n(3) rx_phase_opened [of "cs_rx (hs_client h)"]
      by (simp add: handler_inv_def stream_phase_of_def phase_at_def Let_def)
    then show ?thesis
      unfolding writing(2) using n writing(1)
      by (intro back_in_handler_inv [OF inv call])
        (auto simp: same_stream_def in_handler_def register_write_def emit_def Let_def)
  next
    case cancel
    then show ?thesis
      by (auto intro!: back_in_handler_inv [OF inv call]
          simp: same_stream_def in_handler_def close_cancel_def emit_def Let_def)
  qed
qed

lemma leave_handler_inv:
  assumes inv: "handler_inv h" and "hs_call h = Some Main_idle" "cs_rx (hs_client h) = Rx_status st"
  shows "handler_inv (h\<lparr>hs_client := rx_status st (hs_client h), hs_call := None\<rparr>)"
proof -
  have "act_rx undefined undefined Rx_report (hs_client h) = Some (rx_status st (hs_client h))"
    using assms(3) by (simp add: act_rx_def)
  moreover have "handler_inv (h\<lparr>hs_call := None\<rparr>)"
    using inv assms(2) by (simp add: handler_inv_def Let_def)
  ultimately have "handler_inv (h\<lparr>hs_call := None, hs_client := rx_status st (hs_client h),
      hs_call := None\<rparr>)"
    using outside_rx_inv [of "h\<lparr>hs_call := None\<rparr>" undefined undefined Rx_report
        "rx_status st (hs_client h)" None] act_rx_enters
    by (fastforce simp: rx_status_def emit_def fail_with_def Let_def)
  then show ?thesis by simp
qed

lemma outside_step_inv:
  assumes inv: "handler_inv h" and step: "outside_step japi vt a h = Some h'"
  shows "handler_inv h'"
proof -
  obtain s' where act: "client_act japi vt a (hs_client h) = Some s'"
    using step by (auto simp: outside_step_def split: if_splits option.splits)
  let ?call = "\<lambda>old. if success_calls (cs_events s') \<noteq> success_calls (cs_events (hs_client h))
      then Some Main_idle else old"
  have h': "h' = h\<lparr>hs_client := s', hs_call := ?call (hs_call h)\<rparr>"
    using step act by (auto simp: outside_step_def split: if_splits)
  from act show ?thesis
  proof (cases rule: client_act_cases)
    case main
    have "stream_inv (hs_client h)" using inv by (simp add: handler_inv_def Let_def)
    from act_main_counters [OF this main(3)] have "h' = h\<lparr>hs_client := s'\<rparr>"
      by (cases h) (simp add: h')
    then show ?thesis using outside_main_inv [OF inv main(3)] by simp
  next
    case rx
    then have "hs_call h = None" using step by (auto simp: outside_step_def split: if_splits)
    then show ?thesis using outside_rx_inv [OF inv _ rx(3)] h' by (auto split: if_splits)
  qed
qed

lemma handler_act_inv:
  assumes "handler_inv h" "handler_act japi vt a h = Some h'"
  shows "handler_inv h'"
  using assms
proof (cases a)
  case (Outside b)
  with assms show ?thesis using outside_step_inv by (auto simp: handler_act_def split: if_splits)
next
  case Enter_failed_handler
  with assms show ?thesis
    by (auto simp: handler_act_def handler_inv_def failed_handler_due_def Let_def
        split: if_splits rx_pc.splits)
next
  case (Inside b)
  with assms show ?thesis
    using handler_operation_inv by (auto simp: handler_act_def split: if_splits option.splits)
next
  case Leave_handler
  then have call: "hs_call h = Some Main_idle"
    using assms(2) by (auto simp: handler_act_def split: if_splits)
  show ?thesis
  proof (cases "\<exists>st. cs_rx (hs_client h) = Rx_status st")
    case True
    then show ?thesis
      using assms Leave_handler call leave_handler_inv by (auto simp: handler_act_def split: if_splits)
  next
    case False
    then have "h' = h\<lparr>hs_call := None\<rparr>"
      using assms(2) Leave_handler call by (auto simp: handler_act_def split: if_splits rx_pc.splits)
    then show ?thesis using assms(1) call by (simp add: handler_inv_def Let_def)
  qed
qed

lemma reachable_handler_inv:
  assumes "handler_reachable japi vt i h"
  shows "handler_inv h"
  using assms
  by (induction rule: handler_reachable.induct) (simp_all add: handler_inv_initial handler_act_inv)

section \<open>What a handler may call\<close>


lemma inside_operation:
  assumes "handler_act japi vt (Inside a) h = Some h'" "hs_call h = Some pc"
  shows "handler_operation vt a pc h = Some h'"
  using assms by (auto simp: handler_act_def split: if_splits)

fun handler_run ::
  "'j json_api \<Rightarrow> ('c, 's) pbr_vtable \<Rightarrow> handler_action list \<Rightarrow> 'c handler_state \<Rightarrow>
     'c handler_state option" where
  "handler_run japi vt [] h = Some h"
| "handler_run japi vt (a # as) h =
     (case handler_act japi vt a h of None \<Rightarrow> None | Some h' \<Rightarrow> handler_run japi vt as h')"

lemma handler_run_reachable:
  "handler_reachable japi vt i h \<Longrightarrow> handler_run japi vt as h = Some h' \<Longrightarrow>
     handler_reachable japi vt i h'"
  by (induction as arbitrary: h) (auto split: option.splits, blast intro: handler_steps)

text \<open>The sample client of \<open>Client_Stream\<close>, up to its first handler.\<close>

definition sample_run :: "handler_action list \<Rightarrow> pbr_basic handler_state option" where
  "sample_run as = handler_run number_json pbr_basic_vt as (handler_initial sample_object)"

lemma sample_run_reachable: "sample_run as = Some h \<Longrightarrow>
    handler_reachable number_json pbr_basic_vt sample_object h"
  unfolding sample_run_def by (rule handler_run_reachable [OF handler_starts])

definition to_success_handler :: "handler_action list" where
  "to_success_handler = map Outside (set_actions @ open_actions @
     [Rx_receive (Some sample_response), Rx_handle])"

definition to_failed_handler :: "handler_action list" where
  "to_failed_handler = map Outside (set_actions @ open_actions @
     [Rx_receive None, Rx_acquire, Rx_half_close True, Rx_end unavailable]) @ [Enter_failed_handler]"

lemma register_enter_sampled:
  "cs_interface s = Some (PbrCounters sampled_counters) \<Longrightarrow>
   register_enter pbr_basic_vt sample_context default_rpc_args s =
     s\<lparr>cs_main := (if \<not> cs_joinable s then Reg_lock_open sample_context sample_request
                   else Reg_lock_write sample_request)\<rparr>"
  using sample_request_built
  by (simp add: register_enter_def sampled_counters_def counters_name_def emit_def)

lemmas handler_simps = sample_run_def handler_initial_def handler_act_def outside_step_def
  handler_operation_def in_handler_def back_in_handler_def handler_acquire_def faulted_def
  failed_handler_due_def set_actions_def open_actions_def sample_object_def sample_handled
  unavailable_failing close_enter_def close_cancel_def register_enter_sampled

lemma run_failed_handler_register: "\<exists>h. sample_run (to_failed_handler @
      [Inside (Call_register sample_context default_rpc_args)]) = Some h \<and>
    hs_call h = Some (Reg_lock_write sample_request) \<and> cs_rx (hs_client h) = Rx_status unavailable"
  by (simp add: to_failed_handler_def handler_simps run_simps)

lemma run_success_handler_close: "\<exists>h h'. sample_run to_success_handler = Some h \<and>
    hs_call h = Some Main_idle \<and> cs_rx (hs_client h) = Rx_read \<and>
    handler_run number_json pbr_basic_vt [Inside Call_close, Outside Call_close] h = Some h' \<and>
    cs_fault (hs_client h') = None \<and> cs_mtx (hs_client h') = None"
  by (simp add: to_success_handler_def handler_simps run_simps)

lemma run_success_handler_register: "\<exists>h. sample_run (to_success_handler @
      [Inside (Call_register sample_context default_rpc_args), Inside Main_acquire]) = Some h \<and>
    hs_call h = Some (Reg_write sample_request) \<and> cs_fault (hs_client h) = None"
  by (simp add: to_success_handler_def handler_simps run_simps)


text \<open>A handler inside \<^verbatim>\<open>rpc_stream_close\<close>, called while the stream is being read.\<close>

definition handler_closing :: "'c handler_state \<Rightarrow> bool" where
  "handler_closing h \<longleftrightarrow>
     (\<exists>pc \<in> {Close_lock, Close_cancel, Close_join}. hs_call h = Some pc) \<and> cs_rx (hs_client h) = Rx_read"

lemma handler_closing_begins:
  assumes "handler_reachable japi vt i h" "hs_call h = Some Main_idle" "cs_rx (hs_client h) = Rx_read"
    and "handler_act japi vt (Inside Call_close) h = Some h'"
  shows "handler_closing h'"
proof -
  have "cs_joinable (hs_client h)"
    using handler_inv_points(2) [OF reachable_handler_inv [OF assms(1)] assms(2)] .
  then show ?thesis
    using inside_operation [OF assms(4,2)] assms(3)
    by (auto simp: handler_closing_def handler_operation_def act_main_def in_handler_def
        back_in_handler_def close_enter_def)
qed

lemma handler_closing_step:
  assumes reach: "handler_reachable japi vt i h" and closing: "handler_closing h"
    and act: "handler_act japi vt a h = Some h'"
  shows "handler_closing h'"
proof -
  obtain pc where pc: "hs_call h = Some pc" "pc \<in> {Close_lock, Close_cancel, Close_join}"
    and rx: "cs_rx (hs_client h) = Rx_read"
    using closing by (auto simp: handler_closing_def)
  note points = handler_inv_points [OF reachable_handler_inv [OF reach] pc(1)]
  show ?thesis
  proof (cases a)
    case (Outside b)
    obtain s' where s': "act_main vt b (hs_client h) = Some s'"
      "h' = h\<lparr>hs_client := s', hs_call := (if success_calls (cs_events s') \<noteq>
         success_calls (cs_events (hs_client h)) then Some Main_idle else hs_call h)\<rparr>"
      using act Outside pc(1)
      by (auto simp: handler_act_def outside_step_def client_act_def split: if_splits option.splits)
    have "h' = h\<lparr>hs_client := s'\<rparr>"
      using act_main_counters [OF points(3) s'(1)] s'(2) by (cases h) simp
    moreover have "cs_rx s' = Rx_read" using act_main_rx [OF s'(1) points(3)] rx by auto
    ultimately show ?thesis using pc by (auto simp: handler_closing_def)
  next
    case (Inside b)
    from inside_operation [OF act [unfolded Inside] pc(1)] points(1,2) show ?thesis
      by (cases rule: handler_operation_cases) (use pc rx in
        \<open>auto simp: handler_closing_def handler_acquire_def faulted_def fail_with_def back_in_handler_def
          close_cancel_def in_handler_def emit_def Let_def split: option.splits thread.splits\<close>)
  qed (use act pc in \<open>auto simp: handler_act_def split: if_splits\<close>)
qed

lemma handler_closing_run:
  assumes "handler_reachable japi vt i h" "handler_closing h" "handler_run japi vt as h = Some h'"
  shows "handler_closing h' \<and> handler_reachable japi vt i h'"
  using assms
  by (induction as arbitrary: h) (auto split: option.splits dest: handler_closing_step intro: handler_steps)

lemma handler_closing_ends:
  assumes "handler_reachable japi vt i h" "handler_closing h" "cs_fault (hs_client h) = None"
    and "cs_mtx (hs_client h) \<noteq> Some Main_thread"
  shows "\<exists>bs h'. handler_run japi vt (map Inside bs) h = Some h' \<and> last bs = Main_join \<and>
    cs_fault (hs_client h') = Some self_join"
proof -
  obtain pc where pc: "hs_call h = Some pc" "pc \<in> {Close_lock, Close_cancel, Close_join}"
    and rx: "cs_rx (hs_client h) = Rx_read"
    using assms(2) by (auto simp: handler_closing_def)
  note points = handler_inv_points [OF reachable_handler_inv [OF assms(1)] pc(1)]
  have free: "cs_mtx (hs_client h) = None" if "pc = Close_lock"
    using points(5) rx that assms(4) by (cases "cs_mtx (hs_client h)"; cases "the (cs_mtx (hs_client h))") auto
  let ?bs = "drop (if pc = Close_lock then 0 else if pc = Close_cancel then 1 else 2)
    [Main_acquire, Main_cancel, Main_join]"
  have "\<exists>h'. handler_run japi vt (map Inside ?bs) h = Some h' \<and> cs_fault (hs_client h') = Some self_join"
    using pc free points(2) assms(3)
    by (auto simp: handler_act_def is_main_def handler_operation_def handler_acquire_def handler_join_def
        act_main_def in_handler_def back_in_handler_def close_cancel_def thread_join_def emit_def
        fail_with_def Let_def)
  moreover have "last ?bs = Main_join" using pc(2) by auto
  ultimately show ?thesis by blast
qed

text \<open>
  C24: a success handler must not close its client. Let a handler that runs while the stream is being
  read call \<^verbatim>\<open>rpc_stream_close\<close>, and let the other thread do anything meanwhile. The handler finds its
  thread joinable, stays inside the call and never returns to the receive loop; whenever the calling
  thread does not hold the mutex, the steps of the handler lead, with nothing to wait for, to a join
  of the receive thread by itself, which throws out of the thread and ends the process.
\<close>

theorem close_in_handler_joins_itself:
  assumes "handler_reachable japi vt i h" "hs_call h = Some Main_idle" "cs_rx (hs_client h) = Rx_read"
    and "handler_run japi vt (Inside Call_close # as) h = Some h'"
  shows "(\<exists>pc \<in> {Close_lock, Close_cancel, Close_join}. hs_call h' = Some pc) \<and>
    handler_act japi vt Leave_handler h' = None \<and>
    (cs_fault (hs_client h') = None \<and> cs_mtx (hs_client h') \<noteq> Some Main_thread \<longrightarrow>
       (\<exists>bs h''. handler_run japi vt (map Inside bs) h' = Some h'' \<and> last bs = Main_join \<and>
          cs_fault (hs_client h'') = Some self_join))"
proof -
  obtain h1 where h1: "handler_act japi vt (Inside Call_close) h = Some h1" "handler_run japi vt as h1 = Some h'"
    using assms(4) by (auto split: option.splits)
  have "handler_closing h' \<and> handler_reachable japi vt i h'"
    using handler_closing_run [OF handler_steps [OF assms(1) h1(1)]
      handler_closing_begins [OF assms(1-3) h1(1)] h1(2)] .
  then show ?thesis
    using handler_closing_ends [of japi vt i h'] by (auto simp: handler_closing_def handler_act_def)
qed

theorem close_in_handler_joins_itself_witness:
  "\<exists>h h'. sample_run to_success_handler = Some h \<and>
     handler_run number_json pbr_basic_vt [Inside Call_close, Outside Call_close] h = Some h' \<and>
     (\<exists>bs h''. handler_run number_json pbr_basic_vt (map Inside bs) h' = Some h'' \<and>
        cs_fault (hs_client h'') = Some self_join)"
proof -
  obtain h h' where run: "sample_run to_success_handler = Some h"
    and h: "hs_call h = Some Main_idle" "cs_rx (hs_client h) = Rx_read"
    and h': "handler_run number_json pbr_basic_vt [Inside Call_close, Outside Call_close] h = Some h'"
      "cs_fault (hs_client h') = None" "cs_mtx (hs_client h') = None"
    using run_success_handler_close by blast
  from close_in_handler_joins_itself [OF sample_run_reachable [OF run] h h'(1)] h'(2,3) run h'(1)
  show ?thesis by auto
qed

text \<open>
  C25: a success handler may register. When a handler is about to write its request it holds the mutex
  alone and the stream it writes to is still being read, whatever the other thread is doing; the
  write returns to the handler, releases the mutex and cannot fail for a null pointer.
\<close>

theorem register_in_handler_writes_to_open_stream:
  assumes "handler_reachable japi vt i h" "hs_call h = Some (Reg_write r)"
    and "cs_fault (hs_client h) = None"
  shows "cs_mtx (hs_client h) = Some Receive_thread \<and> \<not> main_holds (cs_main (hs_client h)) \<and>
    (\<exists>n. cs_rw (hs_client h) = Some n \<and> phase_of n (cs_events (hs_client h)) = Some Reading) \<and>
    (\<exists>h'. handler_act japi vt (Inside (Main_write b)) h = Some h' \<and> hs_call h' = Some Main_idle \<and>
       cs_fault (hs_client h') = None \<and> cs_mtx (hs_client h') = None)"
proof -
  note inv = reachable_handler_inv [OF assms(1)]
  note points = handler_inv_points [OF inv assms(2)]
  have mtx: "cs_mtx (hs_client h) = Some Receive_thread" and rx: "cs_rx (hs_client h) = Rx_read"
    using points(4,5) by auto
  obtain n where n: "cs_rw (hs_client h) = Some n" "cs_ctx (hs_client h) \<noteq> None" "cs_streams (hs_client h) = Suc n"
    using points(2,3) by (auto simp: stream_inv_def)
  have "phase_of n (cs_events (hs_client h)) = Some Reading"
    using inv rx n(3) by (simp add: handler_inv_def stream_phase_of_def phase_at_def Let_def)
  moreover have "\<not> main_holds (cs_main (hs_client h))"
    using inv mtx by (simp add: handler_inv_def Let_def)
  ultimately show ?thesis
    using mtx n assms(2,3)
    by (auto simp: handler_act_def is_main_def handler_operation_def act_main_def in_handler_def
        register_write_def back_in_handler_def emit_def Let_def)
qed

theorem register_in_handler_writes_to_open_stream_witness:
  "\<exists>h. handler_reachable number_json pbr_basic_vt sample_object h \<and>
     (\<exists>n. cs_rw (hs_client h) = Some n \<and> phase_of n (cs_events (hs_client h)) = Some Reading) \<and>
     hs_call h = Some (Reg_write sample_request)"
proof -
  obtain h where run: "sample_run (to_success_handler @
      [Inside (Call_register sample_context default_rpc_args), Inside Main_acquire]) = Some h"
    and h: "hs_call h = Some (Reg_write sample_request)" "cs_fault (hs_client h) = None"
    using run_success_handler_register by blast
  note reach = sample_run_reachable [OF run]
  from register_in_handler_writes_to_open_stream [OF reach h] reach h(1) show ?thesis by blast
qed

end
