(* ===== verification/Handler_Once.thy ===== *)
theory Handler_Once
  imports Handler_Calls Mixed_Calls
begin

text \<open>
  Handlers that make a blocking call. \<^verbatim>\<open>rpc_register_stats_once\<close> runs in the receive thread then, in the
  small steps of \<open>Mixed_Calls\<close>, while the calling thread goes on with the operations of the stream. It
  takes no mutex; but the receive thread keeps what it holds: a failed handler holds the mutex of the
  stream until the server has ended the blocking call.
\<close>

section \<open>The receive thread inside a blocking call\<close>

text \<open>\<open>hx_once\<close> is where the handler is in its blocking call, and \<open>hx_events\<close> the history of these calls.\<close>

record 'c handler_once_state =
  hx_handler :: "'c handler_state"
  hx_once :: once_pc
  hx_events :: "once_event list"

definition handler_once_initial :: "'c gnmi_counters option \<Rightarrow> 'c handler_once_state" where
  "handler_once_initial i = \<lparr>hx_handler = handler_initial i, hx_once = Once_idle, hx_events = []\<rparr>"

datatype handler_once_action =
    Around handler_action
  | In_once once_action

text \<open>
  The state as the blocking call sees it: its caller is the handler, which is in no other operation. An
  exception of the call is one the handler catches; another would end the process.
\<close>

definition once_view :: "'c handler_once_state \<Rightarrow> 'c mixed_state" where
  "once_view x =
     \<lparr>mx_client = in_handler Main_idle (hs_client (hx_handler x)), mx_once = hx_once x,
      mx_events = hx_events x\<rparr>"

definition once_back :: "'c mixed_state \<Rightarrow> 'c handler_once_state \<Rightarrow> 'c handler_once_state" where
  "once_back m x =
     \<lparr>hx_handler = (hx_handler x)
        \<lparr>hs_client := in_handler (cs_main (hs_client (hx_handler x))) (mx_client m)\<rparr>,
      hx_once = mx_once m, hx_events = mx_events m\<rparr>"

text \<open>While the call runs, the handler neither calls another operation nor returns.\<close>

definition handler_code :: "handler_action \<Rightarrow> bool" where
  "handler_code a \<longleftrightarrow> (case a of Inside _ \<Rightarrow> True | Leave_handler \<Rightarrow> True | _ \<Rightarrow> False)"

definition handler_once_act ::
  "'j json_api \<Rightarrow> ('c, 's) pbr_vtable \<Rightarrow> handler_once_action \<Rightarrow> 'c handler_once_state \<Rightarrow>
     'c handler_once_state option" where
  "handler_once_act japi vt a x =
     (case a of
        Around b \<Rightarrow>
          if handler_code b \<and> hx_once x \<noteq> Once_idle then None
          else map_option (\<lambda>h. x\<lparr>hx_handler := h\<rparr>) (handler_act japi vt b (hx_handler x))
      | In_once b \<Rightarrow>
          if hs_call (hx_handler x) \<noteq> Some Main_idle \<or> cs_fault (hs_client (hx_handler x)) \<noteq> None then None
          else map_option (\<lambda>m. once_back m x) (once_act japi vt b (once_view x)))"

inductive handler_once_reachable ::
  "'j json_api \<Rightarrow> ('c, 's) pbr_vtable \<Rightarrow> 'c gnmi_counters option \<Rightarrow> 'c handler_once_state \<Rightarrow> bool"
  for japi vt i where
  handler_once_starts: "handler_once_reachable japi vt i (handler_once_initial i)"
| handler_once_steps: "handler_once_reachable japi vt i x \<Longrightarrow>
    handler_once_act japi vt a x = Some x' \<Longrightarrow> handler_once_reachable japi vt i x'"

fun handler_once_run ::
  "'j json_api \<Rightarrow> ('c, 's) pbr_vtable \<Rightarrow> handler_once_action list \<Rightarrow> 'c handler_once_state \<Rightarrow>
     'c handler_once_state option" where
  "handler_once_run japi vt [] x = Some x"
| "handler_once_run japi vt (a # as) x =
     (case handler_once_act japi vt a x of None \<Rightarrow> None | Some x' \<Rightarrow> handler_once_run japi vt as x')"

lemma handler_once_run_reachable:
  "handler_once_reachable japi vt i x \<Longrightarrow> handler_once_run japi vt as x = Some x' \<Longrightarrow>
     handler_once_reachable japi vt i x'"
  by (induction as arbitrary: x) (auto split: option.splits intro: handler_once_steps)

section \<open>The invariant\<close>

text \<open>A blocking call changes the counter object and no other member, so the invariant of handlers holds.\<close>

lemma once_back_same:
  assumes "once_act japi vt b (once_view x) = Some m"
  shows "same_members (hs_client (hx_handler x)) (hs_client (hx_handler (once_back m x)))"
    and "hs_call (hx_handler (once_back m x)) = hs_call (hx_handler x)"
  using once_act_same [OF assms] by (simp_all add: once_view_def once_back_def in_handler_def same_members_def)

lemma same_members_handler_inv:
  assumes "handler_inv h" "same_members (hs_client h) s'"
  shows "handler_inv (h\<lparr>hs_client := s'\<rparr>)"
proof -
  have "stream_inv s'"
    using assms by (simp add: handler_inv_def same_members_def stream_inv_def Let_def split: option.splits)
  then show ?thesis
    using assms by (simp add: handler_inv_def same_members_def stream_phase_of_def handler_holds_def Let_def)
qed

lemma once_back_inv:
  assumes "handler_inv (hx_handler x)" "once_act japi vt b (once_view x) = Some m"
  shows "handler_inv (hx_handler (once_back m x))"
  using same_members_handler_inv [OF assms(1) once_back_same(1) [OF assms(2)]]
  by (simp add: once_back_def)

text \<open>The handler is in a blocking call only when it is in its own code.\<close>

definition once_in_handler :: "'c handler_once_state \<Rightarrow> bool" where
  "once_in_handler x \<longleftrightarrow> hx_once x \<noteq> Once_idle \<longrightarrow> hs_call (hx_handler x) = Some Main_idle"

lemma outside_keeps_call:
  assumes "outside_step japi vt a h = Some h'" "hs_call h = Some pc" "handler_inv h"
  shows "hs_call h' = Some pc"
proof -
  obtain s' where act: "client_act japi vt a (hs_client h) = Some s'" and main: "is_main a"
    using assms(1,2) by (auto simp: outside_step_def split: if_splits option.splits)
  have "stream_inv (hs_client h)" using assms(3) by (simp add: handler_inv_def Let_def)
  moreover have "act_main vt a (hs_client h) = Some s'"
    using act main by (auto simp: client_act_def split: if_splits)
  ultimately have "success_calls (cs_events s') = success_calls (cs_events (hs_client h))"
    using act_main_counters by blast
  then show ?thesis
    using assms(1,2) act main by (auto simp: outside_step_def split: if_splits)
qed

lemma handler_once_act_cases:
  assumes "handler_once_act japi vt a x = Some x'"
  obtains (around) b h where "a = Around b" "handler_code b \<Longrightarrow> hx_once x = Once_idle"
      "handler_act japi vt b (hx_handler x) = Some h" "x' = x\<lparr>hx_handler := h\<rparr>"
    | (once) b m where "a = In_once b" "hs_call (hx_handler x) = Some Main_idle"
      "cs_fault (hs_client (hx_handler x)) = None"
      "once_act japi vt b (once_view x) = Some m" "x' = once_back m x"
  using assms by (cases a) (auto simp: handler_once_act_def split: if_splits)

lemma around_keeps_call:
  assumes "handler_act japi vt b h = Some h'" "\<not> handler_code b" "hs_call h = Some Main_idle" "handler_inv h"
  shows "hs_call h' = Some Main_idle"
  using assms outside_keeps_call [OF _ assms(3,4)]
  by (cases b) (auto simp: handler_act_def handler_code_def split: if_splits)

lemma reachable_handler_once_inv:
  assumes "handler_once_reachable japi vt i x"
  shows "handler_inv (hx_handler x) \<and> once_in_handler x"
  using assms
proof (induction rule: handler_once_reachable.induct)
  case handler_once_starts
  show ?case by (simp add: handler_once_initial_def handler_inv_initial once_in_handler_def)
next
  case (handler_once_steps x a x')
  from handler_once_steps.hyps(2) show ?case
  proof (cases rule: handler_once_act_cases)
    case (around b h)
    then show ?thesis
      using handler_once_steps.IH handler_act_inv [OF _ around(3)] around_keeps_call [OF around(3)]
      by (cases "handler_code b") (auto simp: once_in_handler_def)
  next
    case (once b m)
    then show ?thesis
      using handler_once_steps.IH once_back_inv [OF _ once(4)] once_back_same(2) [OF once(4)]
      by (simp add: once_in_handler_def)
  qed
qed

section \<open>Its own steps\<close>

text \<open>The step of the blocking call at a point, with any answer of gRPC to it.\<close>

fun once_answers :: "once_pc \<Rightarrow> once_action set" where
  "once_answers Once_idle = {Call_once x args | x args. True}"
| "once_answers (Once_write r) = range Once_write_returns"
| "once_answers Once_read = range Once_receive"
| "once_answers (Once_response r) = {Once_treat}"
| "once_answers Once_writes_done = range Once_half_close"
| "once_answers Once_finish = range Once_end"

lemma once_act_enabled:
  "cs_main (mx_client m) = Main_idle \<Longrightarrow> once_act japi vt b m \<noteq> None \<longleftrightarrow> b \<in> once_answers (mx_once m)"
  by (cases "mx_once m"; cases b) (auto simp: once_act_def)

lemma in_once_enabled:
  assumes "hs_call (hx_handler x) = Some Main_idle" "cs_fault (hs_client (hx_handler x)) = None"
  shows "handler_once_act japi vt (In_once b) x \<noteq> None \<longleftrightarrow> b \<in> once_answers (hx_once x)"
  using assms once_act_enabled [of "once_view x" japi vt b]
  by (simp add: handler_once_act_def once_view_def in_handler_def)

text \<open>What the calling thread cannot do while the receive thread is in a handler.\<close>

lemma handler_blocks_join:
  assumes "handler_inv h" "hs_call h = Some pc"
  shows "handler_act japi vt (Outside Main_join) h = None"
  using handler_inv_points(4) [OF assms]
  by (auto simp: handler_act_def outside_step_def client_act_def is_main_def act_main_def)

lemma failed_handler_blocks_mutex:
  assumes "handler_inv h" "hs_call h = Some pc" "cs_rx (hs_client h) = Rx_status st"
  shows "cs_mtx (hs_client h) = Some Receive_thread \<and>
    handler_act japi vt (Outside Main_acquire) h = None"
  using handler_inv_points(5) [OF assms(1,2)] assms(3)
  by (simp add: handler_act_def outside_step_def client_act_def is_main_def act_main_def
      split: option.split)

section \<open>The records\<close>

text \<open>The calls of a handler on the stream touch neither the counters nor the responses.\<close>

lemma handler_operation_counters:
  assumes "handler_inv h" "hs_call h = Some pc" "handler_operation vt a pc h = Some h'"
  shows "cs_interface (hs_client h') = cs_interface (hs_client h) \<and>
    read_responses (cs_events (hs_client h')) = read_responses (cs_events (hs_client h)) \<and>
    cs_rx (hs_client h') = cs_rx (hs_client h)"
proof -
  note points = handler_inv_points [OF assms(1,2)]
  from assms(3) points(1,2) show ?thesis
  proof (cases rule: handler_operation_cases)
    case (register x args)
    then show ?thesis
      by (simp add: back_in_handler_def in_handler_def register_enter_def emit_def fail_with_def Let_def
          split: option.split gnmi_counters.split prod.split)
  qed (auto simp: handler_acquire_def faulted_def fail_with_def back_in_handler_def in_handler_def
      register_write_def close_enter_def close_cancel_def emit_def Let_def
      split: option.splits thread.splits)
qed

context pbr_base
begin

lemma mixed_records_same:
  assumes "mixed_records japi c0 s"
    and "cs_interface (mx_client s') = cs_interface (mx_client s)"
    and "read_responses (cs_events (mx_client s')) = read_responses (cs_events (mx_client s))"
    and "pending (cs_rx (mx_client s')) = pending (cs_rx (mx_client s))"
    and "mx_once s' = mx_once s" "mx_events s' = mx_events s"
  shows "mixed_records japi c0 s'"
  using assms by (simp add: mixed_records_def)

lemma once_view_simps:
  "cs_interface (mx_client (once_view x)) = cs_interface (hs_client (hx_handler x))"
  "cs_events (mx_client (once_view x)) = cs_events (hs_client (hx_handler x))"
  "cs_rx (mx_client (once_view x)) = cs_rx (hs_client (hx_handler x))"
  "mx_once (once_view x) = hx_once x" "mx_events (once_view x) = hx_events x"
  by (simp_all add: once_view_def in_handler_def)

lemma rx_step_records:
  assumes "json_pointer_keys japi" "mixed_records japi c0 (once_view x)"
    and "act_rx japi vt a (hs_client (hx_handler x)) = Some s'"
    and "hs_client h = s'"
  shows "mixed_records japi c0 (once_view (x\<lparr>hx_handler := h\<rparr>))"
proof -
  let ?m = "\<lparr>mx_client = hs_client (hx_handler x), mx_once = hx_once x, mx_events = hx_events x\<rparr>"
  have "mixed_records japi c0 ?m"
    by (rule mixed_records_same [OF assms(2)]) (simp_all add: once_view_simps)
  from act_rx_mixed_records [OF assms(1) this, of a s'] assms(3)
  have "mixed_records japi c0 (?m\<lparr>mx_client := s'\<rparr>)" by simp
  then show ?thesis
    by (rule mixed_records_same) (simp_all add: once_view_simps assms(4))
qed

lemma around_records:
  assumes "json_pointer_keys japi" "mixed_records japi c0 (once_view x)" "handler_inv (hx_handler x)"
    and "handler_act japi vt b (hx_handler x) = Some h"
  shows "mixed_records japi c0 (once_view (x\<lparr>hx_handler := h\<rparr>))"
proof (cases b)
  case (Outside a)
  then obtain s' where act: "client_act japi vt a (hs_client (hx_handler x)) = Some s'" "hs_client h = s'"
    using assms(4) by (auto simp: handler_act_def outside_step_def split: if_splits option.splits)
  from act(1) show ?thesis
  proof (cases rule: client_act_cases)
    case main
    have "stream_inv (hs_client (hx_handler x))" using assms(3) by (simp add: handler_inv_def Let_def)
    from act_main_counters [OF this main(3)] act(2) show ?thesis
      by (intro mixed_records_same [OF assms(2)]) (simp_all add: once_view_simps)
  next
    case rx
    from rx_step_records [OF assms(1,2) rx(3) act(2)] show ?thesis .
  qed
next
  case Enter_failed_handler
  then have "hs_client h = hs_client (hx_handler x)"
    using assms(4) by (auto simp: handler_act_def split: if_splits)
  then show ?thesis by (intro mixed_records_same [OF assms(2)]) (simp_all add: once_view_simps)
next
  case (Inside a)
  then obtain pc where "hs_call (hx_handler x) = Some pc" "handler_operation vt a pc (hx_handler x) = Some h"
    using assms(4) by (auto simp: handler_act_def split: if_splits option.splits)
  from handler_operation_counters [OF assms(3) this] show ?thesis
    by (intro mixed_records_same [OF assms(2)]) (simp_all add: once_view_simps)
next
  case Leave_handler
  then have "hs_client h = hs_client (hx_handler x) \<or>
      (\<exists>st. cs_rx (hs_client (hx_handler x)) = Rx_status st \<and>
        hs_client h = rx_status st (hs_client (hx_handler x)))"
    using assms(4) by (auto simp: handler_act_def split: if_splits rx_pc.splits)
  then show ?thesis
  proof (elim disjE exE conjE)
    assume "hs_client h = hs_client (hx_handler x)"
    then show ?thesis by (intro mixed_records_same [OF assms(2)]) (simp_all add: once_view_simps)
  next
    fix st assume "cs_rx (hs_client (hx_handler x)) = Rx_status st"
      "hs_client h = rx_status st (hs_client (hx_handler x))"
    then show ?thesis
      using rx_step_records [OF assms(1,2), of Rx_report "hs_client h" h] by (simp add: act_rx_def)
  qed
qed

lemma reachable_handler_once_records:
  assumes "json_pointer_keys japi" "handler_once_reachable japi vt (Some (PbrCounters c0)) x"
  shows "mixed_records japi c0 (once_view x)"
  using assms(2)
proof (induction rule: handler_once_reachable.induct)
  case handler_once_starts
  show ?case
    by (simp add: mixed_records_def once_view_def handler_once_initial_def handler_initial_def
        in_handler_def client_initial_def)
next
  case (handler_once_steps x a x')
  from handler_once_steps.hyps(2) show ?case
  proof (cases rule: handler_once_act_cases)
    case (around b h)
    then show ?thesis
      using around_records [OF assms(1) handler_once_steps.IH]
        reachable_handler_once_inv [OF handler_once_steps.hyps(1)] by simp
  next
    case (once b m)
    from once_act_mixed_records [OF assms(1) handler_once_steps.IH once(4)] show ?thesis
      unfolding once(5)
      by (rule mixed_records_same) (simp_all add: once_view_simps once_back_def in_handler_def)
  qed
qed

end

section \<open>Runs\<close>

lemma handler_once_run_append: "handler_once_run japi vt (as @ bs) x =
    (case handler_once_run japi vt as x of None \<Rightarrow> None | Some x' \<Rightarrow> handler_once_run japi vt bs x')"
  by (induction as arbitrary: x) (auto split: option.splits)

lemma handler_once_run_around:
  assumes "handler_run japi vt as (hx_handler x) = Some h" "hx_once x = Once_idle"
  shows "handler_once_run japi vt (map Around as) x = Some (x\<lparr>hx_handler := h\<rparr>)"
  using assms
proof (induction as arbitrary: x)
  case (Cons a as)
  then obtain h1 where h1: "handler_act japi vt a (hx_handler x) = Some h1" "handler_run japi vt as h1 = Some h"
    by (auto split: option.splits)
  then have "handler_once_act japi vt (Around a) x = Some (x\<lparr>hx_handler := h1\<rparr>)"
    using Cons.prems(2) by (simp add: handler_once_act_def)
  then show ?case using Cons.IH [of "x\<lparr>hx_handler := h1\<rparr>"] h1(2) Cons.prems(2) by simp
qed simp

definition sample_once_run :: "handler_once_action list \<Rightarrow> pbr_basic handler_once_state option" where
  "sample_once_run as = handler_once_run number_json pbr_basic_vt as (handler_once_initial sample_object)"

lemma sample_once_run_reachable: "sample_once_run as = Some x \<Longrightarrow>
    handler_once_reachable number_json pbr_basic_vt sample_object x"
  unfolding sample_once_run_def by (rule handler_once_run_reachable [OF handler_once_starts])

lemma sample_once_run_around:
  assumes "sample_run as = Some h"
  shows "sample_once_run (map Around as @ bs) = handler_once_run number_json pbr_basic_vt bs
    \<lparr>hx_handler = h, hx_once = Once_idle, hx_events = []\<rparr>"
  using handler_once_run_around [of number_json pbr_basic_vt as "handler_once_initial sample_object" h] assms
  by (simp add: sample_once_run_def handler_once_run_append sample_run_def handler_once_initial_def)

definition once_in_handler_actions :: "handler_once_action list" where
  "once_in_handler_actions = map In_once
     [Call_once sample_context default_rpc_args, Once_write_returns True,
      Once_receive (Some sample_response), Once_treat]"

lemma run_success_handler: "\<exists>h. sample_run to_success_handler = Some h \<and> hs_call h = Some Main_idle \<and>
    cs_interface (hs_client h) = Some (PbrCounters sampled_counters) \<and> cs_fault (hs_client h) = None \<and>
    cs_rx (hs_client h) = Rx_read \<and> read_responses (cs_events (hs_client h)) = [sample_response]"
  by (simp add: to_success_handler_def handler_simps run_simps)

lemma run_failed_handler: "\<exists>h. sample_run to_failed_handler = Some h \<and> hs_call h = Some Main_idle \<and>
    cs_interface (hs_client h) = Some (PbrCounters sample_counters) \<and> cs_fault (hs_client h) = None \<and>
    cs_rx (hs_client h) = Rx_status unavailable"
  by (simp add: to_failed_handler_def handler_simps run_simps)

lemmas once_in_handler_simps = handler_once_act_def once_view_def once_back_def in_handler_def
  once_act_def once_enter_def once_written_def once_answered_def once_treated_def counters_name_def
  once_sample_request_built sample_context_def [THEN arg_cong [of _ _ username]]
  sample_context_def [THEN arg_cong [of _ _ password]]

lemma run_once_in_success_handler:
  "\<exists>x. sample_once_run (map Around to_success_handler @ once_in_handler_actions) = Some x \<and>
     once_responses (hx_events x) = [sample_response] \<and> hx_once x = Once_read \<and>
     cs_rx (hs_client (hx_handler x)) = Rx_read \<and>
     read_responses (cs_events (hs_client (hx_handler x))) = [sample_response]"
proof -
  obtain h where h: "sample_run to_success_handler = Some h" "hs_call h = Some Main_idle"
    "cs_interface (hs_client h) = Some (PbrCounters sampled_counters)" "cs_fault (hs_client h) = None"
    "cs_rx (hs_client h) = Rx_read" "read_responses (cs_events (hs_client h)) = [sample_response]"
    using run_success_handler by blast
  have "pbr_keys sampled_counters = pbr_keys sample_counters" by (simp add: sampled_counters_def)
  then show ?thesis
    unfolding sample_once_run_around [OF h(1)] once_in_handler_actions_def using h(2-6)
    by (simp add: once_in_handler_simps sample_check add_stats_def Let_def)
qed

lemma run_once_in_failed_handler:
  "\<exists>x. sample_once_run (map Around to_failed_handler @
       [In_once (Call_once sample_context default_rpc_args)]) = Some x \<and>
     hx_once x = Once_write once_sample_request \<and> cs_fault (hs_client (hx_handler x)) = None \<and>
     cs_rx (hs_client (hx_handler x)) = Rx_status unavailable"
proof -
  obtain h where h: "sample_run to_failed_handler = Some h" "hs_call h = Some Main_idle"
    "cs_interface (hs_client h) = Some (PbrCounters sample_counters)" "cs_fault (hs_client h) = None"
    "cs_rx (hs_client h) = Rx_status unavailable"
    using run_failed_handler by blast
  then show ?thesis
    unfolding sample_once_run_around [OF h(1)] by (simp add: once_in_handler_simps Let_def)
qed

section \<open>What a blocking call in a handler does\<close>

text \<open>
  C21: a blocking call in a handler holds up its client. The call itself waits for nothing but the
  answers of its server: at each point it can take its next step, whatever the answer is. Until it
  has returned, the calling thread cannot finish a closing, as the thread it joins has not ended; and
  when the call is made by the failed handler, the receive thread holds the mutex all the time, and
  the calling thread cannot enter a critical section, to register or to close, either.
\<close>

theorem blocking_call_in_handler_holds_up_client:
  assumes "handler_once_reachable japi vt i x" "hx_once x \<noteq> Once_idle"
    and "cs_fault (hs_client (hx_handler x)) = None"
  shows "(\<forall>b. handler_once_act japi vt (In_once b) x \<noteq> None \<longleftrightarrow> b \<in> once_answers (hx_once x)) \<and>
    once_answers (hx_once x) \<noteq> {} \<and>
    handler_once_act japi vt (Around (Outside Main_join)) x = None \<and>
    (\<forall>st. cs_rx (hs_client (hx_handler x)) = Rx_status st \<longrightarrow>
       cs_mtx (hs_client (hx_handler x)) = Some Receive_thread \<and>
       handler_once_act japi vt (Around (Outside Main_acquire)) x = None)"
proof -
  have inv: "handler_inv (hx_handler x)" and call: "hs_call (hx_handler x) = Some Main_idle"
    using reachable_handler_once_inv [OF assms(1)] assms(2) by (simp_all add: once_in_handler_def)
  have outside: "handler_once_act japi vt (Around (Outside a)) x = None"
    if "handler_act japi vt (Outside a) (hx_handler x) = None" for a
    using that by (simp add: handler_once_act_def)
  have "once_answers (hx_once x) \<noteq> {}" by (cases "hx_once x") auto
  then show ?thesis
    using in_once_enabled [OF call assms(3)] outside [OF handler_blocks_join [OF inv call]]
      failed_handler_blocks_mutex [OF inv call] outside by blast
qed

theorem blocking_call_in_handler_holds_up_client_witness:
  "\<exists>x. handler_once_reachable number_json pbr_basic_vt sample_object x \<and>
     hx_once x = Once_write once_sample_request \<and>
     handler_once_act number_json pbr_basic_vt (In_once (Once_write_returns False)) x \<noteq> None \<and>
     handler_once_act number_json pbr_basic_vt (Around (Outside Main_acquire)) x = None"
proof -
  obtain x where run: "sample_once_run (map Around to_failed_handler @
      [In_once (Call_once sample_context default_rpc_args)]) = Some x"
    and x: "hx_once x = Once_write once_sample_request" "cs_fault (hs_client (hx_handler x)) = None"
      "cs_rx (hs_client (hx_handler x)) = Rx_status unavailable"
    using run_once_in_failed_handler by blast
  note reach = sample_once_run_reachable [OF run]
  have "Once_write_returns False \<in> once_answers (hx_once x)" by (auto simp: x(1))
  with blocking_call_in_handler_holds_up_client [OF reach _ x(2)] reach x(1,3) show ?thesis
    by (metis once_pc.distinct(1))
qed

text \<open>
  C22: a blocking call in a handler stores its records safely. Both the response of the stream and those
  of the call are treated by the receive thread, so nothing can come between: in every interleaving
  the object holds its initial records and then a merge of the records of the stream and those of
  the calls, each in the order they were read, and no response of the stream waits during a call.
\<close>

theorem blocking_call_in_handler_records:
  assumes "json_pointer_keys japi"
    and "handler_once_reachable japi pbr_basic_vt (Some (PbrCounters c0)) x"
  shows "\<exists>c zs rs os. cs_interface (hs_client (hx_handler x)) = Some (PbrCounters c) \<and>
    pbr_stats c = pbr_stats c0 @ zs \<and>
    zs \<in> shuffles (recorded map_to_basic_stat japi rs) (recorded map_to_basic_stat japi os) \<and>
    read_responses (cs_events (hs_client (hx_handler x))) =
      rs @ pending (cs_rx (hs_client (hx_handler x))) \<and>
    once_responses (hx_events x) = os @ once_pending (hx_once x) \<and>
    (hx_once x \<noteq> Once_idle \<longrightarrow> pending (cs_rx (hs_client (hx_handler x))) = [])"
proof -
  have "pending (cs_rx (hs_client (hx_handler x))) = []" if "hx_once x \<noteq> Once_idle"
    using reachable_handler_once_inv [OF assms(2)] that handler_inv_points(4) [of "hx_handler x" Main_idle]
    by (auto simp: once_in_handler_def)
  then show ?thesis
    using basic_counters.reachable_handler_once_records [OF assms]
    unfolding basic_counters.mixed_records_def basic_counters.once_view_simps by blast
qed

text \<open>The stream gives a record, and its handler makes a call that gives another.\<close>

theorem blocking_call_in_handler_records_witness:
  "\<exists>x c. sample_once_run (map Around to_success_handler @ once_in_handler_actions) = Some x \<and>
     cs_interface (hs_client (hx_handler x)) = Some (PbrCounters c) \<and> length (pbr_stats c) = 2"
proof -
  obtain x where run: "sample_once_run (map Around to_success_handler @ once_in_handler_actions) = Some x"
    and x: "once_responses (hx_events x) = [sample_response]" "hx_once x = Once_read"
      "cs_rx (hs_client (hx_handler x)) = Rx_read"
      "read_responses (cs_events (hs_client (hx_handler x))) = [sample_response]"
    using run_once_in_success_handler by blast
  have "handler_once_reachable number_json pbr_basic_vt (Some (PbrCounters sample_counters)) x"
    using sample_once_run_reachable [OF run] by (simp add: sample_object_def)
  from blocking_call_in_handler_records [OF number_json_pointer_keys this] x obtain c zs where
    c: "cs_interface (hs_client (hx_handler x)) = Some (PbrCounters c)"
      "pbr_stats c = pbr_stats sample_counters @ zs"
    and zs: "zs \<in> shuffles (recorded map_to_basic_stat number_json [sample_response])
      (recorded map_to_basic_stat number_json [sample_response])"
    by auto
  have "length zs = 2" using length_shuffles [OF zs] sample_record by simp
  with run c show ?thesis by (auto simp: sample_counters_def)
qed

end
