(* ===== verification/Once_Steps.thy ===== *)
theory Once_Steps
  imports Mixed_Calls
begin

text \<open>
  The small steps of \<open>Mixed_Calls\<close> compute \<^verbatim>\<open>rpc_register_stats_once\<close> as \<open>Gnmi_Client\<close> states it: for any
  gRPC library the calling thread alone can make the same calls, with the same answers, messages,
  records and result.
\<close>

section \<open>Histories and the calls in them\<close>

text \<open>The messages in a history of blocking calls.\<close>

definition once_logs :: "once_event list \<Rightarrow> log_entry list" where
  "once_logs es = List.map_filter (\<lambda>e. case e of Once_log l \<Rightarrow> Some l | _ \<Rightarrow> None) es"

lemma once_logs_simps [simp]:
  "once_logs [] = []"
  "once_logs (es @ es') = once_logs es @ once_logs es'"
  "once_logs (map Once_log ls) = ls"
  "once_logs (e # es) = (case e of Once_log l \<Rightarrow> [l] | _ \<Rightarrow> []) @ once_logs es"
  by (simp_all add: once_logs_def map_filter_def comp_def split: once_event.splits)

text \<open>
  The calls of gRPC in a history, with the answers that a given library gives: \<open>None\<close> when one of the
  answers is another, or when the calls do not fit (a stream is opened first, and once).
\<close>

fun replay_event :: "'g stream_api \<Rightarrow> once_event \<Rightarrow> 'g option \<Rightarrow> 'g option option" where
  "replay_event sapi (Once_subscribed ctx) None = Some (Some (rpc_subscribe sapi ctx))"
| "replay_event sapi (Once_wrote r b) (Some g) =
     (let (b', g') = rw_write sapi r g in if b' = b then Some (Some g') else None)"
| "replay_event sapi (Once_answered answer) (Some g) =
     (let (answer', g') = rw_read sapi g in if answer' = answer then Some (Some g') else None)"
| "replay_event sapi (Once_half_closed b) (Some g) =
     (let (b', g') = rw_writes_done sapi g in if b' = b then Some (Some g') else None)"
| "replay_event sapi (Once_finished st) (Some g) =
     (let (st', g') = rw_finish sapi g in if st' = st then Some (Some g') else None)"
| "replay_event sapi (Once_log l) g = Some g"
| "replay_event sapi (Once_returned res) g = Some g"
| "replay_event sapi _ _ = None"

fun replay :: "'g stream_api \<Rightarrow> once_event list \<Rightarrow> 'g option \<Rightarrow> 'g option option" where
  "replay sapi [] g = Some g"
| "replay sapi (e # es) g = (case replay_event sapi e g of None \<Rightarrow> None | Some g' \<Rightarrow> replay sapi es g')"

lemma replay_append [simp]: "replay sapi (es @ es') g =
    (case replay sapi es g of None \<Rightarrow> None | Some g' \<Rightarrow> replay sapi es' g')"
  by (induction es arbitrary: g) (auto split: option.splits)

lemma replay_logs [simp]: "replay sapi (map Once_log ls) g = Some g"
  by (induction ls) simp_all

text \<open>A run of the calling thread alone from one state to another, with what it adds to the history.\<close>

definition once_runs ::
  "'j json_api \<Rightarrow> ('c, 's) pbr_vtable \<Rightarrow> 'c mixed_state \<Rightarrow> once_event list \<Rightarrow> 'c mixed_state \<Rightarrow> bool" where
  "once_runs japi vt s es s' \<longleftrightarrow>
     (\<exists>as. mixed_run japi vt (map Blocking as) s = Some s') \<and> mx_events s' = mx_events s @ es"

lemma once_runs_refl: "once_runs japi vt s [] s"
  unfolding once_runs_def by (intro conjI exI [of _ "[]"]) simp_all

lemma once_runs_step:
  assumes "cs_fault (mx_client s) = None" "once_act japi vt a s = Some s1"
    and "mx_events s1 = mx_events s @ es" "once_runs japi vt s1 es' s'"
  shows "once_runs japi vt s (es @ es') s'"
proof -
  obtain as where "mixed_run japi vt (map Blocking as) s1 = Some s'"
    using assms(4) by (auto simp: once_runs_def)
  then have "mixed_run japi vt (map Blocking (a # as)) s = Some s'"
    using assms(1,2) by (simp add: mixed_act_def)
  then show ?thesis
    using assms(3,4) unfolding once_runs_def by (metis append.assoc)
qed

lemmas once_runs_one = once_runs_step [OF _ _ _ once_runs_refl, simplified]

lemma once_runs_trans:
  assumes "once_runs japi vt s es s1" "once_runs japi vt s1 es' s'"
  shows "once_runs japi vt s (es @ es') s'"
proof -
  obtain as bs where "mixed_run japi vt (map Blocking as) s = Some s1"
    "mixed_run japi vt (map Blocking bs) s1 = Some s'"
    using assms by (auto simp: once_runs_def)
  then have "mixed_run japi vt (map Blocking (as @ bs)) s = Some s'"
    by (simp add: mixed_run_append)
  then show ?thesis using assms unfolding once_runs_def by (metis append.assoc)
qed

definition at_once :: "once_pc \<Rightarrow> 'c gnmi_counters option \<Rightarrow> 'c mixed_state \<Rightarrow> bool" where
  "at_once pc i s \<longleftrightarrow> mx_once s = pc \<and> cs_interface (mx_client s) = i \<and> cs_main (mx_client s) = Main_idle"

lemma at_once_goes [simp]: "at_once pc i (once_goes pc' es s) \<longleftrightarrow>
    pc' = pc \<and> cs_interface (mx_client s) = i \<and> cs_main (mx_client s) = Main_idle"
  by (auto simp: at_once_def)

lemma at_once_throws [simp]: "at_once pc i (once_throws e l s) \<longleftrightarrow>
    pc = Once_idle \<and> cs_interface (mx_client s) = i \<and> cs_main (mx_client s) = Main_idle"
  using once_throws_same [of s e l] by (auto simp: at_once_def same_members_def)

text \<open>The loop over \<^verbatim>\<open>Read\<close>.\<close>

definition loop_runs ::
  "'g stream_api \<Rightarrow> 'j json_api \<Rightarrow> ('c, 's) pbr_vtable \<Rightarrow> 'c mixed_state \<Rightarrow> 'g option \<Rightarrow>
     log_entry list \<Rightarrow> 'c \<Rightarrow> 'g \<Rightarrow> fault option \<Rightarrow> bool" where
  "loop_runs sapi japi vt s g logs c' g' e \<longleftrightarrow>
     (\<exists>es s'. once_runs japi vt s es s' \<and> once_logs es = logs \<and> replay sapi es g = Some (Some g') \<and>
        (case e of
           None \<Rightarrow> at_once Once_writes_done (Some (PbrCounters c')) s' \<and> cs_fault (mx_client s') = None
         | Some f \<Rightarrow> at_once Once_idle (Some (PbrCounters c')) s' \<and> es \<noteq> [] \<and>
             last es = Once_returned (Inl f)))"

lemma loop_runs_step:
  assumes "once_runs japi vt s es s1" "replay sapi es g0 = Some g" "loop_runs sapi japi vt s1 g logs c' g' e"
  shows "loop_runs sapi japi vt s g0 (once_logs es @ logs) c' g' e"
proof -
  obtain es' s' where rest: "once_runs japi vt s1 es' s'" "once_logs es' = logs" "replay sapi es' g = Some (Some g')"
    "case e of
       None \<Rightarrow> at_once Once_writes_done (Some (PbrCounters c')) s' \<and> cs_fault (mx_client s') = None
     | Some f \<Rightarrow> at_once Once_idle (Some (PbrCounters c')) s' \<and> es' \<noteq> [] \<and>
         last es' = Once_returned (Inl f)"
    using assms(3) unfolding loop_runs_def by blast
  show ?thesis
    unfolding loop_runs_def
    by (intro exI [of _ "es @ es'"] exI [of _ s'] conjI once_runs_trans [OF assms(1) rest(1)])
      (use rest(2-4) assms(2) in \<open>auto split: option.splits\<close>)
qed

definition reads_run ::
  "'g stream_api \<Rightarrow> 'j json_api \<Rightarrow> ('c, 's) pbr_vtable \<Rightarrow> 'c \<Rightarrow> 'g \<Rightarrow> log_entry list \<Rightarrow>
     log_entry list \<times> 'c \<times> 'g \<times> fault option \<Rightarrow> bool" where
  "reads_run sapi japi vt c g logs res \<longleftrightarrow>
     (\<forall>s logs' c' g' e. res = (logs', c', g', e) \<longrightarrow> at_once Once_read (Some (PbrCounters c)) s \<longrightarrow>
        cs_fault (mx_client s) = None \<longrightarrow>
        (\<exists>new. logs' = logs @ new \<and> loop_runs sapi japi vt s (Some g) new c' g' e))"

lemma once_reads_runs:
  fixes sapi :: "'g stream_api" and japi :: "'j json_api" and vt :: "('c, 's) pbr_vtable"
  assumes "once_reads sapi japi vt c g logs = Some res"
  shows "reads_run sapi japi vt c g logs res"
proof (rule once_reads.raw_induct [OF _ assms, of reads_run])
  fix reads :: "'g stream_api \<Rightarrow> 'j json_api \<Rightarrow> ('c, 's) pbr_vtable \<Rightarrow> 'c \<Rightarrow> 'g \<Rightarrow> log_entry list \<Rightarrow>
      (log_entry list \<times> 'c \<times> 'g \<times> fault option) option"
    and sapi :: "'g stream_api" and japi :: "'j json_api" and vt :: "('c, 's) pbr_vtable" and c g logs res
  assume 1: "\<And>sapi japi vt c g logs res. reads sapi japi vt c g logs = Some res \<Longrightarrow>
      reads_run sapi japi vt c g logs res"
    "(case rw_read sapi g of
        (None, g') \<Rightarrow> Some (logs, c, g', None)
      | (Some response, g') \<Rightarrow>
          (case check_response japi vt response c of
             (l, Inl e) \<Rightarrow> Some (logs @ l, c, g', Some e)
           | (l, Inr (p, code)) \<Rightarrow>
               if code = SUCCESS
               then (case vt_add_stats vt p c of
                       (l', c') \<Rightarrow>
                         reads sapi japi vt c' g'
                           (logs @ l @ [(''Client received a response.'', VERBOSE)] @ l'))
               else reads sapi japi vt c g' (logs @ l))) = Some res"
  show "reads_run sapi japi vt c g logs res"
    unfolding reads_run_def
  proof (intro allI impI)
    fix s logs' c' g' e
    assume res: "res = (logs', c', g', e)" and s: "at_once Once_read (Some (PbrCounters c)) s"
      "cs_fault (mx_client s) = None"
    obtain answer g1 where read: "rw_read sapi g = (answer, g1)" by fastforce
    have read_act: "once_act japi vt (Once_receive answer) s = Some (once_answered answer s)"
      using s(1) by (simp add: once_act_def at_once_def)
    have answered: "once_runs japi vt s [Once_answered answer] (once_answered answer s)"
      by (rule once_runs_one [OF s(2) read_act]) (simp add: once_answered_def)
    show "\<exists>new. logs' = logs @ new \<and> loop_runs sapi japi vt s (Some g) new c' g' e"
    proof (cases answer)
      case None
      then show ?thesis
        using 1(2) res read answered s by (auto simp: loop_runs_def once_answered_def at_once_def
            intro!: exI [of _ "[Once_answered None]"])
    next
      case (Some r)
      let ?s1 = "once_answered (Some r) s"
      have s1: "mx_once ?s1 = Once_response r" "mx_client ?s1 = mx_client s"
        by (simp_all add: once_answered_def)
      have treat_act: "once_act japi vt Once_treat ?s1 = Some (once_treated japi vt r ?s1)"
        by (simp add: once_act_def s1)
      have to_treated: "once_runs japi vt s (Once_answered (Some r) # es) (once_treated japi vt r ?s1)"
        if "mx_events (once_treated japi vt r ?s1) = mx_events ?s1 @ es" for es
        using once_runs_trans [OF answered [unfolded Some] once_runs_one [OF _ treat_act that]] s(2)
        by (simp add: s1)
      have i: "cs_interface (mx_client ?s1) = Some (PbrCounters c)" "cs_main (mx_client ?s1) = Main_idle"
        using s(1) by (simp_all add: s1 at_once_def)
      obtain l out where check: "check_response japi vt r c = (l, out)" by fastforce
      show ?thesis
      proof (cases out)
        case (Inl f)
        have treated: "once_treated japi vt r ?s1 = once_throws f l ?s1"
          by (simp add: once_treated_def i check Inl)
        have "res = (logs @ l, c, g1, Some f)"
          using 1(2) read check Some Inl by simp
        then show ?thesis
          using res i read Some to_treated [unfolded treated, OF once_throws_simps(2)]
          by (auto simp: loop_runs_def
              intro!: exI [of _ "Once_answered (Some r) # map Once_log l @ [Once_returned (Inl f)]"]
                exI [of _ "once_throws f l ?s1"])
      next
        case (Inr pc)
        obtain p code where pc: "pc = (p, code)" by fastforce
        obtain l' c1 where add: "(if code = SUCCESS then vt_add_stats vt p c else ([], c)) = (l', c1)"
          by fastforce
        let ?m = "if code = SUCCESS then [(''Client received a response.'', VERBOSE)] else []"
        let ?s2 = "once_treated japi vt r ?s1"
        have rest: "reads sapi japi vt c1 g1 (logs @ l @ ?m @ l') = Some res"
          using 1(2) read check Some Inr pc add by (auto split: if_splits prod.splits)
        have s2: "mx_events ?s2 = mx_events ?s1 @ map Once_log (l @ ?m @ l')"
          "at_once Once_read (Some (PbrCounters c1)) ?s2" "cs_fault (mx_client ?s2) = None"
          using i s(2) add by (auto simp: once_treated_def check Inr pc s1 split: if_splits prod.splits)
        obtain new where new: "logs' = (logs @ l @ ?m @ l') @ new" "loop_runs sapi japi vt ?s2 (Some g1) new c' g' e"
          using 1(1) [OF rest] res s2(2,3) unfolding reads_run_def by blast
        from loop_runs_step [OF to_treated [OF s2(1)] _ new(2)] new(1) read Some show ?thesis
          by (auto intro!: exI [of _ "(l @ ?m @ l') @ new"])
      qed
    qed
  qed
qed


lemma once_finish_runs:
  assumes "at_once Once_writes_done i s" "cs_fault (mx_client s) = None"
  shows "\<exists>es s'. once_runs japi vt s es s' \<and> at_once Once_idle i s' \<and>
    logs @ once_logs es = or_logs (once_finish sapi args logs c g) \<and> es \<noteq> [] \<and>
    replay sapi es (Some g) = Some (or_stream (once_finish sapi args logs c g)) \<and>
    last es = Once_returned (or_return (once_finish sapi args logs c g))"
proof -
  obtain ok g1 where ok: "rw_writes_done sapi g = (ok, g1)" by fastforce
  obtain status g2 where status: "rw_finish sapi g1 = (status, g2)" by fastforce
  let ?s1 = "once_half_closed ok s"
  let ?s2 = "once_ended status ?s1"
  have "once_act japi vt (Once_half_close ok) s = Some ?s1"
    using assms(1) by (simp add: once_act_def at_once_def)
  then have first: "once_runs japi vt s (Once_half_closed ok #
      (if ok then []
       else [Once_log (''Signal to server that we are done writing, was unsuccessful'', WARNING)])) ?s1"
    by (rule once_runs_one [OF assms(2)]) (simp add: once_half_closed_def)
  have "once_act japi vt (Once_end status) ?s1 = Some ?s2"
    by (simp add: once_act_def once_half_closed_def)
  then have second: "once_runs japi vt ?s1
      [Once_finished status,
       Once_log (if \<not> status_ok status then (''Subscribe rpc failed: '' @ status_message status, ERROR)
                 else (''Subscribe rpc passed '', INFO)),
       Once_returned (Inr (if \<not> status_ok status then RPC_FAILURE else RPC_SUCCESS, status))] ?s2"
    using assms(2) by (intro once_runs_one) (simp_all add: once_half_closed_def once_ended_def)
  have "at_once Once_idle i ?s2"
    using assms(1) by (simp add: once_ended_def once_half_closed_def at_once_def)
  with once_runs_trans [OF first second] show ?thesis
    by (intro exI conjI) (auto simp: once_finish_def ok status)
qed

lemma call_once_enters:
  assumes "at_once Once_idle i s" "cs_fault (mx_client s) = None"
    and "mx_events (once_enter vt ctx args s) = mx_events s @ es"
  shows "once_runs japi vt s es (once_enter vt ctx args s)"
  using assms by (intro once_runs_one [of s japi vt "Call_once ctx args"])
    (simp_all add: once_act_def at_once_def)

text \<open>An accepted call, up to the end of its loop and from there.\<close>

lemma once_accepted_runs:
  assumes "rpc_register_stats_once sapi japi vt ctx args (cs_interface (mx_client s)) = Some r"
    and "at_once Once_idle (Some (PbrCounters c)) s" "cs_fault (mx_client s) = None"
    and "vt_name vt c = ''pbr''" "credentials_given ctx"
  shows "\<exists>logs c' g' e. loop_runs sapi japi vt s None logs c' g' e \<and>
    r = (case e of
        None \<Rightarrow> once_finish sapi (once_args args) logs c' g'
      | Some f \<Rightarrow> \<lparr>or_logs = logs, or_counters = Some (PbrCounters c'), or_args = once_args args,
          or_stream = Some g', or_return = Inl f\<rparr>)"
proof -
  have c: "cs_interface (mx_client s) = Some (PbrCounters c)" "vt_name vt c = ''pbr''" "credentials_given ctx"
    "cs_main (mx_client s) = Main_idle"
    using assms(2,4,5) by (simp_all add: at_once_def)
  note enter = call_once_enters [OF assms(2,3)]
  obtain l1 request code where helper: "subscribe_request_helper None (once_args args)
      \<lparr>rsa_prefix = path_origin, paths_of_interest = vt_paths vt c\<rparr> = (l1, request, code)"
    by (metis prod_cases3)
  obtain written g where wr: "rw_write sapi request (rpc_subscribe sapi (make_context ctx)) = (written, g)"
    by fastforce
  let ?s1 = "once_enter vt ctx args s"
  let ?s2 = "once_written request written ?s1"
  let ?l2 = "if written then (''Subscribe Once Request: Write operation succeeded'', INFO)
    else (''Subscribe Once Request: Write operation failed'', ERROR)"
  have s1: "?s1 = once_goes (Once_write request) (map Once_log l1 @ [Once_subscribed (make_context ctx)]) s"
    using c helper by (simp add: once_enter_def counters_name_def credentials_given_def once_args_def)
  then have first: "once_runs japi vt s (map Once_log l1 @ [Once_subscribed (make_context ctx)]) ?s1"
    by (intro enter) simp
  have "once_act japi vt (Once_write_returns written) ?s1 = Some ?s2"
    by (simp add: once_act_def s1)
  then have second: "once_runs japi vt ?s1 [Once_wrote request written, Once_log ?l2] ?s2"
    using assms(3) by (intro once_runs_one) (simp_all add: s1 once_written_def)
  have s2: "at_once Once_read (Some (PbrCounters c)) ?s2" "cs_fault (mx_client ?s2) = None"
    using c(1,4) assms(3) by (simp_all add: s1 once_written_def)
  obtain logs c' g' e where reads: "once_reads sapi japi vt c g (l1 @ [?l2]) = Some (logs, c', g', e)"
    and r: "r = (case e of
        None \<Rightarrow> once_finish sapi (once_args args) logs c' g'
      | Some f \<Rightarrow> \<lparr>or_logs = logs, or_counters = Some (PbrCounters c'), or_args = once_args args,
          or_stream = Some g', or_return = Inl f\<rparr>)"
    using assms(1) c helper wr unfolding once_args_def
    by (auto simp: rpc_register_stats_once_def counters_name_def credentials_given_def Let_def
        split: option.splits prod.splits if_splits)
  obtain new where new: "logs = (l1 @ [?l2]) @ new" "loop_runs sapi japi vt ?s2 (Some g) new c' g' e"
    using once_reads_runs [OF reads] s2 unfolding reads_run_def by blast
  have both: "once_runs japi vt s ((map Once_log l1 @ [Once_subscribed (make_context ctx)]) @
      [Once_wrote request written, Once_log ?l2]) ?s2"
    by (rule once_runs_trans [OF first second])
  show ?thesis
    using loop_runs_step [OF both _ new(2)] new(1) r wr
    by (intro exI [of _ logs] exI [of _ c'] exI [of _ g'] exI [of _ e]) simp
qed

lemma once_call_runs:
  assumes "rpc_register_stats_once sapi japi vt ctx args (cs_interface (mx_client s)) = Some r"
    and "at_once Once_idle (Some (PbrCounters c)) s" "cs_fault (mx_client s) = None"
    and "vt_name vt c = ''pbr''" "credentials_given ctx"
  shows "\<exists>es s'. once_runs japi vt s es s' \<and> at_once Once_idle (or_counters r) s' \<and>
    once_logs es = or_logs r \<and> replay sapi es None = Some (or_stream r) \<and> es \<noteq> [] \<and> last es = Once_returned (or_return r)"
proof -
  obtain logs c' g' e where loop: "loop_runs sapi japi vt s None logs c' g' e"
    and r: "r = (case e of
        None \<Rightarrow> once_finish sapi (once_args args) logs c' g'
      | Some f \<Rightarrow> \<lparr>or_logs = logs, or_counters = Some (PbrCounters c'), or_args = once_args args,
          or_stream = Some g', or_return = Inl f\<rparr>)"
    using once_accepted_runs [OF assms] by blast
  obtain es s3 where run: "once_runs japi vt s es s3"
    and es: "once_logs es = logs" "replay sapi es None = Some (Some g')"
    and s3: "case e of
        None \<Rightarrow> at_once Once_writes_done (Some (PbrCounters c')) s3 \<and> cs_fault (mx_client s3) = None
      | Some f \<Rightarrow> at_once Once_idle (Some (PbrCounters c')) s3 \<and> es \<noteq> [] \<and> last es = Once_returned (Inl f)"
    using loop unfolding loop_runs_def by blast
  show ?thesis
  proof (cases e)
    case (Some f)
    with run es s3 r show ?thesis by auto
  next
    case None
    then have "at_once Once_writes_done (Some (PbrCounters c')) s3" "cs_fault (mx_client s3) = None"
      using s3 by auto
    from once_finish_runs [OF this, of japi vt logs sapi "once_args args" c' g'] obtain es' s4 where
      fin: "once_runs japi vt s3 es' s4" "at_once Once_idle (Some (PbrCounters c')) s4"
        "logs @ once_logs es' = or_logs r" "replay sapi es' (Some g') = Some (or_stream r)" "es' \<noteq> []" "last es' = Once_returned (or_return r)"
      using r None by auto
    have "or_counters r = Some (PbrCounters c')"
      using r None once_finish_fields [of sapi "once_args args" logs c' g'] by simp
    with once_runs_trans [OF run fin(1)] fin es show ?thesis
      by (intro exI [of _ "es @ es'"] exI [of _ s4]) auto
  qed
qed

text \<open>
  C9: the small steps compute the blocking call. Whenever \<open>rpc_register_stats_once\<close> returns, throws or
  has no meaning, the calling thread alone can take steps from the call to its end that make its calls
  of gRPC and get the answers of that library, log exactly its messages, leave exactly its counter
  object, and return exactly its result.
\<close>

theorem once_steps_refine_call:
  assumes "rpc_register_stats_once sapi japi vt ctx args (cs_interface (mx_client s)) = Some r"
    and "mx_once s = Once_idle" "cs_main (mx_client s) = Main_idle" "cs_fault (mx_client s) = None"
  shows "\<exists>as s' es. mixed_run japi vt (map Blocking as) s = Some s' \<and> mx_once s' = Once_idle \<and>
    cs_interface (mx_client s') = or_counters r \<and> mx_events s' = mx_events s @ es \<and>
    once_logs es = or_logs r \<and> replay sapi es None = Some (or_stream r) \<and>
    es \<noteq> [] \<and> last es = Once_returned (or_return r)"
proof -
  let ?i = "cs_interface (mx_client s)"
  have start: "at_once Once_idle ?i s" using assms(2,3) by (simp add: at_once_def)
  note enter = call_once_enters [OF start assms(4)]
  have "\<exists>es s'. once_runs japi vt s es s' \<and> at_once Once_idle (or_counters r) s' \<and>
      once_logs es = or_logs r \<and> replay sapi es None = Some (or_stream r) \<and>
      es \<noteq> [] \<and> last es = Once_returned (or_return r)"
  proof (cases "\<exists>c. ?i = Some (PbrCounters c) \<and> vt_name vt c = ''pbr'' \<and> credentials_given ctx")
    case False
    then show ?thesis
      using assms(1) start
      by (intro exI [of _ "map Once_log (or_logs r) @ [Once_returned (or_return r)]"]
            exI [of _ "once_enter vt ctx args s"] conjI enter)
        (auto simp: rpc_register_stats_once_def once_refused_def once_enter_def counters_name_def
          credentials_given_def at_once_def split: option.splits gnmi_counters.splits if_splits)
  next
    case True
    then show ?thesis using once_call_runs [OF assms(1) _ assms(4)] start by metis
  qed
  then show ?thesis unfolding once_runs_def at_once_def by blast
qed


theorem once_steps_refine_call_witness:
  "\<exists>as s es. mixed_run number_json pbr_basic_vt (map Blocking as) (mixed_initial sample_object) = Some s \<and>
     replay (scripted_api [sample_response] ok_status) es None \<noteq> None \<and> mx_events s = es \<and>
     (\<exists>c. cs_interface (mx_client s) = Some (PbrCounters c) \<and>
        pbr_stats c = [sample_stat key_p1_r3 1 2 3 4 ''g'' ''a''])"
proof -
  let ?api = "scripted_api [sample_response] ok_status" and ?s = "mixed_initial sample_object"
  have ok: "credentials_given sample_context" "decodable (args_encoding default_rpc_args)"
    "list_all servable (pbr_keys sample_counters)"
    by (simp_all add: sample_context_def credentials_given_def decodable_def default_rpc_args_def
        sample_counters_def servable_key_p1_r3)
  obtain m where m: "successful_map number_json sample_response = Some m"
    "map_to_basic_stat m = Inr (sample_stat key_p1_r3 1 2 3 4 ''g'' ''a'')"
    using sample_response_map by blast
  then have "traverse map_to_basic_stat (successful_maps number_json [sample_response]) =
      Inr [sample_stat key_p1_r3 1 2 3 4 ''g'' ''a'']"
    by simp
  from once_gains [OF number_json_pointer_keys ok
      sample_calls [of "[sample_response]" ok_status] scripted_api_simps(3) this] obtain r c where
    r: "rpc_register_stats_once ?api number_json pbr_basic_vt sample_context default_rpc_args
        (cs_interface (mx_client ?s)) = Some r"
    and c: "or_counters r = Some (PbrCounters c)" "pbr_stats c = [sample_stat key_p1_r3 1 2 3 4 ''g'' ''a'']"
    by (auto simp: mixed_initial_def client_initial_def sample_object_def sample_counters_stats)
  have "mx_once ?s = Once_idle" "cs_main (mx_client ?s) = Main_idle" "cs_fault (mx_client ?s) = None"
    by (simp_all add: mixed_initial_def client_initial_def)
  from once_steps_refine_call [OF r this] obtain as s' es where
    "mixed_run number_json pbr_basic_vt (map Blocking as) ?s = Some s'"
    "cs_interface (mx_client s') = or_counters r" "mx_events s' = mx_events ?s @ es"
    "replay ?api es None = Some (or_stream r)"
    by blast
  then show ?thesis
    using c by (intro exI [of _ as] exI [of _ s'] exI [of _ es]) (simp add: mixed_initial_def)
qed

end
