(* ===== verification/Several_Callers.thy ===== *)
theory Several_Callers
  imports Mixed_Calls
begin

text \<open>
  Several threads of the user that share one client. The operations are those of \<open>Client_Stream\<close>, each
  thread at a point of its own; the mutex of the client orders their critical sections, but the test
  whether a receive thread is active is made outside it.
\<close>

section \<open>The callers and the receive thread\<close>

text \<open>\<open>sc_pc\<close> is where each caller is; the member \<open>cs_main\<close> of the client is not used.\<close>

record 'c callers_state =
  sc_client :: "'c client_state"
  sc_pc :: "nat \<Rightarrow> main_pc"

definition callers_initial :: "'c gnmi_counters option \<Rightarrow> 'c callers_state" where
  "callers_initial i = \<lparr>sc_client = client_initial i, sc_pc = (\<lambda>_. Main_idle)\<rparr>"

definition caller_view :: "nat \<Rightarrow> 'c callers_state \<Rightarrow> 'c client_state" where
  "caller_view t s = (sc_client s)\<lparr>cs_main := sc_pc s t\<rparr>"

definition caller_back :: "nat \<Rightarrow> 'c client_state \<Rightarrow> 'c callers_state \<Rightarrow> 'c callers_state" where
  "caller_back t c s =
     \<lparr>sc_client = c\<lparr>cs_main := Main_idle\<rparr>, sc_pc = (sc_pc s)(t := cs_main c)\<rparr>"

text \<open>
  A \<^verbatim>\<open>std::thread\<close> that is assigned while it is joinable calls \<^verbatim>\<open>std::terminate\<close>.
\<close>

definition reassigned_thread :: fault where
  "reassigned_thread = Std_exception ''std::terminate''"

fun opens_stream :: "main_pc \<Rightarrow> bool" where
  "opens_stream (Reg_open _ _) = True"
| "opens_stream _ = False"

text \<open>The stream is opened and its thread started before the assignment finds the old thread.\<close>

definition caller_act ::
  "('c, 's) pbr_vtable \<Rightarrow> nat \<Rightarrow> client_action \<Rightarrow> 'c callers_state \<Rightarrow> 'c callers_state option" where
  "caller_act vt t a s =
     (if a = Main_join \<and> sc_pc s t = Close_join \<and> \<not> cs_joinable (sc_client s)
      then Some (s\<lparr>sc_client := fail_with joined_no_thread (sc_client s)\<rparr>)
      else map_option
             (\<lambda>c. caller_back t
                (if a = Main_open \<and> opens_stream (sc_pc s t) \<and> cs_joinable (sc_client s)
                 then fail_with reassigned_thread c else c) s)
             (act_main vt a (caller_view t s)))"

datatype callers_action =
    By_caller nat client_action
  | By_receiver client_action

definition callers_act ::
  "'j json_api \<Rightarrow> ('c, 's) pbr_vtable \<Rightarrow> callers_action \<Rightarrow> 'c callers_state \<Rightarrow> 'c callers_state option" where
  "callers_act japi vt a s =
     (if cs_fault (sc_client s) \<noteq> None then None
      else (case a of
              By_caller t b \<Rightarrow> if is_main b then caller_act vt t b s else None
            | By_receiver b \<Rightarrow>
                if is_main b then None
                else map_option (\<lambda>c. s\<lparr>sc_client := c\<rparr>) (act_rx japi vt b (sc_client s))))"

fun callers_run ::
  "'j json_api \<Rightarrow> ('c, 's) pbr_vtable \<Rightarrow> callers_action list \<Rightarrow> 'c callers_state \<Rightarrow>
     'c callers_state option" where
  "callers_run japi vt [] s = Some s"
| "callers_run japi vt (a # as) s =
     (case callers_act japi vt a s of None \<Rightarrow> None | Some s' \<Rightarrow> callers_run japi vt as s')"

section \<open>Callers that take turns\<close>

text \<open>A caller begins an operation only when no other is inside one.\<close>

definition in_turn :: "callers_action \<Rightarrow> 'c callers_state \<Rightarrow> bool" where
  "in_turn a s \<longleftrightarrow>
     (case a of By_caller t _ \<Rightarrow> \<forall>u. u \<noteq> t \<longrightarrow> sc_pc s u = Main_idle | By_receiver _ \<Rightarrow> True)"

inductive turns_reachable ::
  "'j json_api \<Rightarrow> ('c, 's) pbr_vtable \<Rightarrow> 'c gnmi_counters option \<Rightarrow> 'c callers_state \<Rightarrow> bool"
  for japi vt i where
  turns_start: "turns_reachable japi vt i (callers_initial i)"
| turns_step: "turns_reachable japi vt i s \<Longrightarrow> in_turn a s \<Longrightarrow> callers_act japi vt a s = Some s' \<Longrightarrow>
    turns_reachable japi vt i s'"

text \<open>The only caller that can be inside an operation.\<close>

definition on_turn :: "nat \<Rightarrow> 'c callers_state \<Rightarrow> bool" where
  "on_turn t s \<longleftrightarrow> (\<forall>u. u \<noteq> t \<longrightarrow> sc_pc s u = Main_idle) \<and> cs_main (sc_client s) = Main_idle"

lemma view_of_other:
  assumes "on_turn t s" "on_turn u s"
  shows "caller_view t s = caller_view u s"
  using assms by (cases "t = u") (simp_all add: on_turn_def caller_view_def)

lemma caller_act_view:
  assumes "caller_act vt t a s = Some s'" "stream_inv (caller_view t s)"
  shows "act_main vt a (caller_view t s) = Some (caller_view t s') \<and>
    (\<forall>u. u \<noteq> t \<longrightarrow> sc_pc s' u = sc_pc s u) \<and> cs_main (sc_client s') = Main_idle"
proof -
  have "\<not> (opens_stream (sc_pc s t) \<and> cs_joinable (sc_client s))"
    "\<not> (sc_pc s t = Close_join \<and> \<not> cs_joinable (sc_client s))"
    using assms(2) by (cases "sc_pc s t"; auto simp: stream_inv_def caller_view_def)+
  then obtain c where c: "act_main vt a (caller_view t s) = Some c" "s' = caller_back t c s"
    using assms(1) by (auto simp: caller_act_def split: if_splits)
  moreover have "caller_view t (caller_back t c s) = c"
    by (cases c) (simp add: caller_view_def caller_back_def)
  ultimately show ?thesis by (simp add: caller_back_def)
qed

lemma receiver_view:
  assumes "act_rx japi vt a (sc_client s) = Some c" "cs_main (sc_client s) = Main_idle"
  shows "act_rx japi vt a (caller_view t s) = Some (caller_view t (s\<lparr>sc_client := c\<rparr>)) \<and>
    cs_main c = Main_idle"
proof -
  have "act_rx japi vt a ((sc_client s)\<lparr>cs_main := pc\<rparr>) = Some (c\<lparr>cs_main := pc\<rparr>)" for pc
    using assms(1) by (cases a) (auto simp: act_rx_def rx_ops Let_def
        split: if_splits option.splits rx_pc.splits gnmi_counters.splits prod.splits sum.splits)
  moreover have "cs_main c = Main_idle"
    using assms by (cases rule: act_rx_cases) (auto simp: rx_ops Let_def
        split: option.splits gnmi_counters.splits prod.splits sum.splits)
  ultimately show ?thesis by (simp add: caller_view_def)
qed

lemma turns_view:
  assumes "turns_reachable japi vt i s"
  shows "\<exists>t. on_turn t s \<and> client_reachable japi vt i (caller_view t s)"
  using assms
proof (induction rule: turns_reachable.induct)
  case turns_start
  have "caller_view 0 (callers_initial i) = client_initial i"
    by (simp add: caller_view_def callers_initial_def client_initial_def)
  then show ?case
    using reach_initial [of japi vt i]
    by (intro exI [of _ 0]) (simp add: on_turn_def callers_initial_def client_initial_def)
next
  case (turns_step s a s')
  then obtain t where t: "on_turn t s" "client_reachable japi vt i (caller_view t s)" by blast
  have inv: "stream_inv (caller_view t s)" using reachable_inv [OF t(2)] by simp
  show ?case
  proof (cases a)
    case (By_caller u b)
    then have u: "on_turn u s" using turns_step.hyps(2) t(1) by (simp add: in_turn_def on_turn_def)
    have act: "is_main b" "cs_fault (sc_client s) = None" "caller_act vt u b s = Some s'"
      using turns_step.hyps(3) By_caller by (auto simp: callers_act_def split: if_splits)
    note view = caller_act_view [OF act(3) inv [unfolded view_of_other [OF t(1) u]]]
    then have "client_act japi vt b (caller_view u s) = Some (caller_view u s')"
      using act(1,2) by (simp add: client_act_def caller_view_def)
    then have "client_reachable japi vt i (caller_view u s')"
      using t(2) view_of_other [OF t(1) u] by (auto intro: reach_step step_act)
    moreover have "on_turn u s'" using view u by (simp add: on_turn_def)
    ultimately show ?thesis by blast
  next
    case (By_receiver b)
    then obtain c where act: "\<not> is_main b" "cs_fault (sc_client s) = None"
        "act_rx japi vt b (sc_client s) = Some c" "s' = s\<lparr>sc_client := c\<rparr>"
      using turns_step.hyps(3) by (auto simp: callers_act_def split: if_splits)
    have idle: "cs_main (sc_client s) = Main_idle" using t(1) by (simp add: on_turn_def)
    note view = receiver_view [OF act(3) idle, of t]
    then have "client_act japi vt b (caller_view t s) = Some (caller_view t s')"
      using act by (simp add: client_act_def caller_view_def)
    then have "client_reachable japi vt i (caller_view t s')"
      using t(2) by (auto intro: reach_step step_act)
    moreover have "on_turn t s'" using view act(4) t(1) by (simp add: on_turn_def)
    ultimately show ?thesis by blast
  qed
qed

section \<open>Registrations on an open stream\<close>

definition registers_only :: "callers_action \<Rightarrow> bool" where
  "registers_only a \<longleftrightarrow>
     (case a of
        By_caller t b \<Rightarrow>
          (case b of Set_success_handler _ \<Rightarrow> False | Set_failed_handler _ \<Rightarrow> False
           | Call_close \<Rightarrow> False | _ \<Rightarrow> True)
      | By_receiver b \<Rightarrow> True)"

fun writing_pc :: "main_pc \<Rightarrow> bool" where
  "writing_pc (Reg_write _) = True"
| "writing_pc _ = False"

fun sending_pc :: "main_pc \<Rightarrow> bool" where
  "sending_pc Main_idle = True"
| "sending_pc (Reg_lock_write _) = True"
| "sending_pc (Reg_write _) = True"
| "sending_pc _ = False"

text \<open>
  The stream \<open>n\<close> is open and stays the one the client holds; at most one caller holds the mutex, and it
  is about to write.
\<close>

definition sharing_inv :: "nat \<Rightarrow> pbr_basic callers_state \<Rightarrow> bool" where
  "sharing_inv n s \<longleftrightarrow>
     (let c = sc_client s in
      (\<exists>o'. cs_interface c = Some (PbrCounters o')) \<and> stream_inv c \<and> cs_main c = Main_idle \<and>
      cs_joinable c \<and> cs_rw c = Some n \<and> expected_fault c \<and>
      (\<forall>t. sending_pc (sc_pc s t)) \<and>
      (\<forall>t u. writing_pc (sc_pc s t) \<longrightarrow> writing_pc (sc_pc s u) \<longrightarrow> t = u) \<and>
      (cs_mtx c = Some Main_thread \<longleftrightarrow> (\<exists>t. writing_pc (sc_pc s t))) \<and>
      (cs_mtx c = Some Receive_thread \<longleftrightarrow> rx_holds (cs_rx c)))"

lemma sharing_inv_start:
  assumes "json_pointer_keys japi" "client_reachable japi pbr_basic_vt (Some (PbrCounters c0)) c"
    and "cs_main c = Main_idle" "cs_joinable c" "cs_rw c = Some n"
  shows "sharing_inv n \<lparr>sc_client = c, sc_pc = \<lambda>_. Main_idle\<rparr>"
proof -
  obtain o' where "cs_interface c = Some (PbrCounters o')" using reachable_interface [OF assms(2)] by blast
  then show ?thesis
    using reachable_inv [OF assms(2)] reachable_expected_fault [OF assms(1,2)] assms(3-5)
    by (auto simp: sharing_inv_def lock_inv_def Let_def)
qed

text \<open>The steps that are left to the callers: entering, taking the mutex, writing.\<close>

lemma sharing_caller_cases:
  assumes "sharing_inv n s" "registers_only (By_caller t b)" "caller_act vt t b s = Some s'"
  obtains (enter) x args where "b = Call_register x args" "sc_pc s t = Main_idle"
      "s' = caller_back t (register_enter vt x args (caller_view t s)) s"
    | (acquire) r where "b = Main_acquire" "sc_pc s t = Reg_lock_write r" "cs_mtx (sc_client s) = None"
      "s' = caller_back t ((caller_view t s)\<lparr>cs_mtx := Some Main_thread, cs_main := Reg_write r\<rparr>) s"
    | (writes) r w where "b = Main_write w" "sc_pc s t = Reg_write r"
      "s' = caller_back t (register_write r w (caller_view t s)) s"
proof -
  have pc: "sending_pc (sc_pc s t)" using assms(1) by (simp add: sharing_inv_def Let_def)
  have "\<not> opens_stream (sc_pc s t)" "sc_pc s t \<noteq> Close_join" using pc by (cases "sc_pc s t"; simp)+
  then obtain c where c: "act_main vt b (caller_view t s) = Some c" "s' = caller_back t c s"
    using assms(3) by (auto simp: caller_act_def split: if_splits)
  then show ?thesis
    using assms(2) pc
    by (cases "sc_pc s t"; cases b) (auto simp: act_main_def registers_only_def caller_view_def
        split: if_splits intro: that)
qed

lemma caller_back_simps [simp]:
  "sc_client (caller_back t c s) = c\<lparr>cs_main := Main_idle\<rparr>"
  "sc_pc (caller_back t c s) u = (if u = t then cs_main c else sc_pc s u)"
  by (simp_all add: caller_back_def)

lemma register_enter_goes:
  assumes "cs_interface s = Some (PbrCounters c)"
  shows "\<exists>ls r. register_enter pbr_basic_vt x args s =
    emit (map Ev_log ls) (s\<lparr>cs_main := (if \<not> cs_joinable s then Reg_lock_open x r else Reg_lock_write r)\<rparr>)"
proof -
  obtain ls r code where "subscribe_request_helper None (args\<lparr>args_mode := STREAM\<rparr>)
      \<lparr>rsa_prefix = path_origin, paths_of_interest = get_gnmi_paths (pbr_keys c)\<rparr> = (ls, r, code)"
    by (metis prod_cases3)
  then show ?thesis
    using assms by (auto simp: register_enter_def counters_name_def Let_def)
qed

lemma sharing_inv_caller:
  assumes "sharing_inv n s" "registers_only (By_caller t b)" "caller_act pbr_basic_vt t b s = Some s'"
    and "cs_fault (sc_client s) = None"
  shows "sharing_inv n s' \<and> cs_fault (sc_client s') = None"
proof -
  note inv = assms(1) [unfolded sharing_inv_def Let_def]
  from assms(1-3) show ?thesis
  proof (cases rule: sharing_caller_cases)
    case (enter x args)
    obtain o' where o: "cs_interface (caller_view t s) = Some (PbrCounters o')"
      using inv by (auto simp: caller_view_def)
    obtain ls r where "register_enter pbr_basic_vt x args (caller_view t s) =
        emit (map Ev_log ls) ((caller_view t s)\<lparr>cs_main := Reg_lock_write r\<rparr>)"
      using register_enter_goes [OF o, of x args] inv by (auto simp: caller_view_def)
    then have s': "s' = caller_back t (emit (map Ev_log ls) ((caller_view t s)\<lparr>cs_main := Reg_lock_write r\<rparr>)) s"
      using enter(3) by simp
    have writing: "writing_pc (sc_pc s' u) \<longleftrightarrow> writing_pc (sc_pc s u)" for u
      using enter(2) by (simp add: s' emit_def)
    show ?thesis
      unfolding sharing_inv_def Let_def writing using inv assms(4)
      by (auto simp: s' emit_def caller_view_def stream_inv_def expected_fault_def)
  next
    case (acquire r)
    have none: "\<not> writing_pc (sc_pc s u)" for u using inv acquire(3) by auto
    have writing: "writing_pc (sc_pc s' u) \<longleftrightarrow> u = t" for u
      using none by (simp add: acquire(4))
    show ?thesis
      unfolding sharing_inv_def Let_def writing using inv assms(4) acquire(3)
      by (auto simp: acquire(4) caller_view_def stream_inv_def expected_fault_def)
  next
    case (writes r w)
    have mine: "writing_pc (sc_pc s u) \<longleftrightarrow> u = t" for u using inv writes(2) by (metis writing_pc.simps(1))
    have none: "\<not> writing_pc (sc_pc s' u)" for u
      using mine inv by (auto simp: writes(3) register_write_def caller_view_def stream_inv_def emit_def Let_def)
    show ?thesis
      unfolding sharing_inv_def Let_def using inv assms(4) none mine
      by (auto simp: writes(3) register_write_def caller_view_def stream_inv_def emit_def
          expected_fault_def Let_def)
  qed
qed

lemma sharing_inv_receiver:
  assumes "json_pointer_keys japi" "sharing_inv n s" "cs_fault (sc_client s) = None"
    and "act_rx japi pbr_basic_vt a (sc_client s) = Some c"
  shows "sharing_inv n (s\<lparr>sc_client := c\<rparr>)"
proof -
  note inv = assms(2) [unfolded sharing_inv_def Let_def]
  obtain o' where o: "cs_interface (sc_client s) = Some (PbrCounters o')" using inv by blast
  have "\<exists>o'. cs_interface c = Some (PbrCounters o')" using act_rx_interface [OF assms(4) o] .
  moreover have "stream_inv c" using act_rx_stream_inv [OF _ assms(4)] inv by blast
  moreover have "expected_fault c"
    using act_rx_expected_fault [OF assms(1) o _ assms(3,4)] inv by blast
  moreover have "cs_main c = cs_main (sc_client s) \<and> cs_joinable c = cs_joinable (sc_client s) \<and>
      cs_rw c = cs_rw (sc_client s)"
    using assms(4) by (cases rule: act_rx_cases) (auto simp: rx_ops Let_def
        split: option.splits gnmi_counters.splits prod.splits sum.splits)
  moreover have "(cs_mtx c = Some Main_thread \<longleftrightarrow> cs_mtx (sc_client s) = Some Main_thread) \<and>
      (cs_mtx c = Some Receive_thread \<longleftrightarrow> rx_holds (cs_rx c))"
    using assms(4) inv by (cases rule: act_rx_cases) (auto simp: rx_ops Let_def
        split: option.splits gnmi_counters.splits prod.splits sum.splits)
  ultimately show ?thesis
    unfolding sharing_inv_def Let_def using inv by simp
qed

lemma callers_act_cases:
  assumes "callers_act japi vt a s = Some s'"
  obtains (caller) t b where "a = By_caller t b" "is_main b" "cs_fault (sc_client s) = None"
      "caller_act vt t b s = Some s'"
    | (receiver) b c where "a = By_receiver b" "\<not> is_main b" "cs_fault (sc_client s) = None"
      "act_rx japi vt b (sc_client s) = Some c" "s' = s\<lparr>sc_client := c\<rparr>"
proof (cases a)
  case (By_caller t b)
  then show ?thesis using assms that(1) by (auto simp: callers_act_def split: if_splits)
next
  case (By_receiver b)
  then show ?thesis using assms that(2) by (auto simp: callers_act_def split: if_splits)
qed

lemma sharing_inv_run:
  assumes "json_pointer_keys japi" "sharing_inv n s" "list_all registers_only as"
    and "callers_run japi pbr_basic_vt as s = Some s'"
  shows "sharing_inv n s'"
  using assms(2-4)
proof (induction as arbitrary: s)
  case (Cons a as)
  then obtain s1 where s1: "callers_act japi pbr_basic_vt a s = Some s1"
      "callers_run japi pbr_basic_vt as s1 = Some s'"
    by (auto split: option.splits)
  from s1(1) have "sharing_inv n s1"
  proof (cases rule: callers_act_cases)
    case (caller t b)
    then show ?thesis using sharing_inv_caller [OF Cons.prems(1), of t b] Cons.prems(2) by simp
  next
    case (receiver b c)
    then show ?thesis using sharing_inv_receiver [OF assms(1) Cons.prems(1)] by simp
  qed
  then show ?case using Cons.IH Cons.prems(2) s1(2) by simp
qed simp

section \<open>Accesses\<close>

definition callers_accesses ::
  "'j json_api \<Rightarrow> ('c, 's) pbr_vtable \<Rightarrow> callers_action \<Rightarrow> 'c callers_state \<Rightarrow> access list" where
  "callers_accesses japi vt a s =
     (case a of By_caller t b \<Rightarrow> main_accesses b | By_receiver b \<Rightarrow> rx_accesses japi vt b (sc_client s))"

text \<open>The caller that acts; the receive thread has none.\<close>

fun acting :: "callers_action \<Rightarrow> nat option" where
  "acting (By_caller t _) = Some t"
| "acting (By_receiver _) = None"

definition callers_race ::
  "'j json_api \<Rightarrow> ('c, 's) pbr_vtable \<Rightarrow> callers_action \<Rightarrow> callers_action \<Rightarrow> 'c callers_state \<Rightarrow> bool" where
  "callers_race japi vt a b s \<longleftrightarrow>
     acting a \<noteq> acting b \<and> callers_act japi vt a s \<noteq> None \<and> callers_act japi vt b s \<noteq> None \<and>
     (\<exists>x \<in> set (callers_accesses japi vt a s). \<exists>y \<in> set (callers_accesses japi vt b s). conflicting x y)"

lemma sharing_caller_accesses:
  assumes "sharing_inv n s" "registers_only (By_caller t b)" "caller_act vt t b s = Some s'"
    and "x \<in> set (main_accesses b)"
  shows "x \<in> {Reads Counter_keys, Reads Thread_object} \<or>
    x \<in> {Reads Stream_context, Reads Stream_pointer, Writes Stream_writer} \<and> writing_pc (sc_pc s t)"
  using assms(1-3) by (cases rule: sharing_caller_cases) (use assms(4) in auto)

lemma sharing_race_free:
  assumes "sharing_inv n s" "registers_only a" "registers_only b"
  shows "\<not> callers_race japi vt a b s"
proof
  assume race: "callers_race japi vt a b s"
  then obtain sa sb x y where act: "callers_act japi vt a s = Some sa" "callers_act japi vt b s = Some sb"
    and x: "x \<in> set (callers_accesses japi vt a s)" and y: "y \<in> set (callers_accesses japi vt b s)"
    and xy: "conflicting x y" and other: "acting a \<noteq> acting b"
    by (auto simp: callers_race_def)
  note inv = assms(1) [unfolded sharing_inv_def Let_def]
  have mine: "z \<in> {Reads Counter_keys, Reads Thread_object} \<or>
      z \<in> {Reads Stream_context, Reads Stream_pointer, Writes Stream_writer} \<and> writing_pc (sc_pc s t)"
    if "callers_act japi vt (By_caller t d) s = Some s'" "registers_only (By_caller t d)"
      "z \<in> set (callers_accesses japi vt (By_caller t d) s)" for t d s' z
    using that sharing_caller_accesses [OF assms(1) that(2), of vt s' z]
    by (auto simp: callers_act_def callers_accesses_def split: if_splits)
  have rx: "z \<in> {Reads Stream_pointer, Writes Stream_reader, Writes Counter_stats, Reads Success_handler,
      Reads Failed_handler} \<or> z = Writes Stream_writer \<and> rx_holds (cs_rx (sc_client s))"
    if act: "callers_act japi vt (By_receiver d) s = Some s'"
      and z: "z \<in> set (callers_accesses japi vt (By_receiver d) s)" for d s' z
  proof -
    obtain c where c: "act_rx japi vt d (sc_client s) = Some c"
      using act by (auto simp: callers_act_def split: if_splits)
    have z': "z \<in> set (rx_accesses japi vt d (sc_client s))" using z by (simp add: callers_accesses_def)
    show ?thesis
    proof (cases z)
      case (Reads m)
      with rx_accesses_where(4) [OF c z' [unfolded Reads]] show ?thesis by auto
    next
      case (Writes m)
      with rx_accesses_where(3) [OF c z' [unfolded Writes]] rx_accesses_where(2) [OF c] z'
      show ?thesis by auto
    qed
  qed
  have held: "\<not> (writing_pc (sc_pc s t) \<and> rx_holds (cs_rx (sc_client s)))" for t
    using inv by (metis option.inject thread.distinct(1))
  show False
  proof (cases a)
    case (By_caller t d)
    note x' = mine [OF act(1) [unfolded By_caller] assms(2) [unfolded By_caller] x [unfolded By_caller]]
    show False
    proof (cases b)
      case (By_caller u e)
      with other \<open>a = By_caller t d\<close> have "t \<noteq> u" by simp
      moreover have "\<not> (writing_pc (sc_pc s t) \<and> writing_pc (sc_pc s u))" using inv \<open>t \<noteq> u\<close> by blast
      ultimately show False
        using xy x' mine [OF act(2) [unfolded By_caller] assms(3) [unfolded By_caller] y [unfolded By_caller]]
        by (auto simp: conflicting_iff)
    next
      case (By_receiver e)
      show False
        using xy x' rx [OF act(2) [unfolded By_receiver] y [unfolded By_receiver]] held
        by (auto simp: conflicting_iff)
    qed
  next
    case (By_receiver d)
    with other obtain u e where b: "b = By_caller u e" by (cases b) auto
    show False
      using xy rx [OF act(1) [unfolded By_receiver] x [unfolded By_receiver]] held
        mine [OF act(2) [unfolded b] assms(3) [unfolded b] y [unfolded b]]
      by (auto simp: conflicting_iff)
  qed
qed

section \<open>Sample runs\<close>

fun in_turns ::
  "'j json_api \<Rightarrow> ('c, 's) pbr_vtable \<Rightarrow> callers_action list \<Rightarrow> 'c callers_state \<Rightarrow> bool" where
  "in_turns japi vt [] s = True"
| "in_turns japi vt (a # as) s =
     (in_turn a s \<and> (case callers_act japi vt a s of None \<Rightarrow> True | Some s' \<Rightarrow> in_turns japi vt as s'))"

lemma in_turns_reachable:
  "turns_reachable japi vt i s \<Longrightarrow> in_turns japi vt as s \<Longrightarrow> callers_run japi vt as s = Some s' \<Longrightarrow>
    turns_reachable japi vt i s'"
  by (induction as arbitrary: s) (auto split: option.splits intro: turns_step)

definition turns_actions :: "callers_action list" where
  "turns_actions = map (By_caller 0) open_actions @
     [By_caller 1 (Call_register sample_context default_rpc_args), By_caller 1 Main_acquire]"

definition sharing_actions :: "callers_action list" where
  "sharing_actions = [By_caller 0 (Call_register sample_context default_rpc_args),
     By_caller 1 (Call_register sample_context default_rpc_args), By_caller 1 Main_acquire]"

definition idle_callers :: "'c client_state \<Rightarrow> 'c callers_state" where
  "idle_callers c = \<lparr>sc_client = c, sc_pc = \<lambda>_. Main_idle\<rparr>"

lemmas callers_simps = callers_act_def caller_act_def caller_view_def caller_back_def run_simps

lemma run_turns: "\<exists>s. callers_run number_json pbr_basic_vt turns_actions (callers_initial sample_object) = Some s \<and>
    in_turns number_json pbr_basic_vt turns_actions (callers_initial sample_object) \<and>
    sc_pc s 1 = Reg_write sample_request"
  by (simp add: turns_actions_def open_actions_def callers_initial_def in_turn_def callers_simps)

lemma run_sharing:
  assumes "cs_interface c = sample_object" "cs_joinable c" "cs_fault c = None" "cs_mtx c = None"
  shows "\<exists>s. callers_run number_json pbr_basic_vt sharing_actions (idle_callers c) = Some s \<and>
    sc_pc s 0 = Reg_lock_write sample_request \<and> sc_pc s 1 = Reg_write sample_request"
  using assms by (simp add: sharing_actions_def idle_callers_def callers_simps)

section \<open>Properties of a shared client\<close>

text \<open>
  C20: threads that take turns are one caller. Let each thread of the user begin an operation,
  a registration, a closing or the setting of a handler, only when no other thread is inside one,
  while the receive thread runs at any time. Then every state that is reached is a state of the client
  with a single caller, and at most one thread is inside an operation; all properties of
  \<open>Client_Stream\<close> hold of it. No other ordering is needed, and the order of the threads is free.
\<close>

theorem callers_in_turn_refine_client:
  assumes "turns_reachable japi vt i s"
  shows "\<exists>t. (\<forall>u. u \<noteq> t \<longrightarrow> sc_pc s u = Main_idle) \<and> client_reachable japi vt i (caller_view t s)"
  using turns_view [OF assms] by (auto simp: on_turn_def)

theorem callers_in_turn_refine_client_witness:
  "\<exists>s t. callers_run number_json pbr_basic_vt turns_actions (callers_initial sample_object) = Some s \<and>
    sc_pc s 1 = Reg_write sample_request \<and> (\<forall>u. u \<noteq> t \<longrightarrow> sc_pc s u = Main_idle) \<and>
    client_reachable number_json pbr_basic_vt sample_object (caller_view t s)"
proof -
  obtain s where s: "callers_run number_json pbr_basic_vt turns_actions (callers_initial sample_object) = Some s"
    "in_turns number_json pbr_basic_vt turns_actions (callers_initial sample_object)"
    "sc_pc s 1 = Reg_write sample_request"
    using run_turns by blast
  have "turns_reachable number_json pbr_basic_vt sample_object s"
    by (rule in_turns_reachable [OF turns_start s(2,1)])
  from callers_in_turn_refine_client [OF this] s show ?thesis by blast
qed

text \<open>
  C19: two first registrations can end the process. Whether a receive thread is active is tested before
  the mutex is taken. When two threads both begin a registration while no stream is open, both find no
  thread; each then takes the mutex in its turn and opens a stream, and the second assigns its
  thread to the joinable \<^verbatim>\<open>receive_thread\<close> of the first, which calls \<^verbatim>\<open>std::terminate\<close>. This holds
  whatever the arguments are and whatever state the client was in before, once it has no stream.
\<close>

theorem concurrent_first_registrations_terminate:
  assumes "cs_interface (sc_client s) = Some (PbrCounters c)" "cs_fault (sc_client s) = None"
    and "\<not> cs_joinable (sc_client s)" "cs_mtx (sc_client s) = None"
    and "t \<noteq> u" "sc_pc s t = Main_idle" "sc_pc s u = Main_idle"
  shows "\<exists>s1 s2. callers_run japi pbr_basic_vt
      [By_caller t (Call_register x args), By_caller u (Call_register y args')] s = Some s1 \<and>
    cs_fault (sc_client s1) = None \<and>
    callers_run japi pbr_basic_vt
      [By_caller t Main_acquire, By_caller t Main_open, By_caller t Main_release,
       By_caller u Main_acquire, By_caller u Main_open] s1 = Some s2 \<and>
    cs_fault (sc_client s2) = Some reassigned_thread \<and>
    cs_streams (sc_client s2) = cs_streams (sc_client s) + 2"
proof -
  obtain ls r where enter: "register_enter pbr_basic_vt x args (caller_view t s) =
      emit (map Ev_log ls) ((caller_view t s)\<lparr>cs_main := Reg_lock_open x r\<rparr>)"
    using register_enter_goes [of "caller_view t s" c x args] assms(1,3) by (auto simp: caller_view_def)
  define s0 where "s0 = caller_back t (register_enter pbr_basic_vt x args (caller_view t s)) s"
  note s0 = s0_def [unfolded enter]
  obtain ls' r' where enter': "register_enter pbr_basic_vt y args' (caller_view u s0) =
      emit (map Ev_log ls') ((caller_view u s0)\<lparr>cs_main := Reg_lock_open y r'\<rparr>)"
    using register_enter_goes [of "caller_view u s0" c y args'] assms(1,3)
    by (auto simp: s0 caller_view_def emit_def)
  define s1 where "s1 = caller_back u (register_enter pbr_basic_vt y args' (caller_view u s0)) s0"
  note s1_is = s1_def [unfolded enter']
  have goes: "callers_run japi pbr_basic_vt
      [By_caller t (Call_register x args), By_caller u (Call_register y args')] s = Some s1"
  proof -
    have "callers_act japi pbr_basic_vt (By_caller t (Call_register x args)) s = Some s0"
      using assms(2,6) by (simp add: s0_def callers_act_def caller_act_def act_main_def is_main_def)
        (simp add: caller_view_def)
    moreover have "cs_fault (sc_client s0) = None" "sc_pc s0 u = Main_idle"
      using assms(2,5,7) by (simp_all add: s0 caller_view_def emit_def)
    then have "callers_act japi pbr_basic_vt (By_caller u (Call_register y args')) s0 = Some s1"
      by (simp add: s1_def callers_act_def caller_act_def act_main_def is_main_def) (simp add: caller_view_def)
    ultimately show ?thesis by simp
  qed
  have s1: "sc_pc s1 t = Reg_lock_open x r" "sc_pc s1 u = Reg_lock_open y r'"
    "cs_fault (sc_client s1) = None" "cs_mtx (sc_client s1) = None" "\<not> cs_joinable (sc_client s1)"
    "cs_streams (sc_client s1) = cs_streams (sc_client s)"
    using assms by (simp_all add: s1_is s0 emit_def caller_view_def)
  have "\<exists>s2. callers_run japi pbr_basic_vt
      [By_caller t Main_acquire, By_caller t Main_open, By_caller t Main_release,
       By_caller u Main_acquire, By_caller u Main_open] s1 = Some s2 \<and>
    cs_fault (sc_client s2) = Some reassigned_thread \<and> cs_streams (sc_client s2) = cs_streams (sc_client s) + 2"
    using assms(5) s1 by (simp add: callers_act_def caller_act_def act_main_def is_main_def caller_view_def
        register_open_def emit_def fail_with_def Let_def)
  with goes s1(3) show ?thesis by blast
qed

theorem concurrent_first_registrations_terminate_witness:
  "\<exists>s1 s2. callers_run number_json pbr_basic_vt
      [By_caller 0 (Call_register sample_context default_rpc_args),
       By_caller 1 (Call_register sample_context default_rpc_args)] (callers_initial sample_object) = Some s1 \<and>
    cs_fault (sc_client s1) = None \<and>
    callers_run number_json pbr_basic_vt
      [By_caller 0 Main_acquire, By_caller 0 Main_open, By_caller 0 Main_release,
       By_caller 1 Main_acquire, By_caller 1 Main_open] s1 = Some s2 \<and>
    cs_fault (sc_client s2) = Some reassigned_thread"
proof -
  have "cs_interface (sc_client (callers_initial sample_object)) = Some (PbrCounters sample_counters)"
    by (simp add: callers_initial_def client_initial_def sample_object_def)
  from concurrent_first_registrations_terminate [OF this, of 0 1 number_json sample_context default_rpc_args
      sample_context default_rpc_args]
  show ?thesis by (auto simp: callers_initial_def client_initial_def)
qed

text \<open>
  C18: on an open stream any number of threads may register at once. Start in any reachable state of a
  client that has a stream and whose caller is outside, and let any threads make any number of
  registrations, interleaved with each other and with the receive thread. The client keeps that one
  stream; no two threads are ever inside the critical section of the write; the process can end for
  no other reason than with a single caller; and no two accesses of different threads, the receive
  thread included, race.
\<close>

theorem concurrent_registrations_on_open_stream:
  assumes "json_pointer_keys japi" "client_reachable japi pbr_basic_vt (Some (PbrCounters c0)) c"
    and "cs_main c = Main_idle" "cs_joinable c"
    and "list_all registers_only as" "callers_run japi pbr_basic_vt as (idle_callers c) = Some s"
  shows "cs_joinable (sc_client s) \<and> cs_rw (sc_client s) = cs_rw c \<and> cs_streams (sc_client s) = cs_streams c \<and>
    expected_fault (sc_client s) \<and>
    (\<forall>t u. writing_pc (sc_pc s t) \<and> writing_pc (sc_pc s u) \<longrightarrow> t = u) \<and>
    (\<forall>a b. registers_only a \<and> registers_only b \<longrightarrow> \<not> callers_race japi pbr_basic_vt a b s)"
proof -
  obtain n where n: "cs_rw c = Some n" "cs_streams c = Suc n"
    using reachable_inv [OF assms(2)] assms(4) by (auto simp: stream_inv_def)
  have inv: "sharing_inv n s"
    by (rule sharing_inv_run [OF assms(1) _ assms(5,6)])
      (use sharing_inv_start [OF assms(1-4) n(1)] in \<open>simp add: idle_callers_def\<close>)
  then have "cs_joinable (sc_client s)" "cs_rw (sc_client s) = Some n" "expected_fault (sc_client s)"
    and "\<forall>t u. writing_pc (sc_pc s t) \<longrightarrow> writing_pc (sc_pc s u) \<longrightarrow> t = u" and "stream_inv (sc_client s)"
    by (simp_all add: sharing_inv_def Let_def)
  moreover have "\<not> callers_race japi pbr_basic_vt a b s" if "registers_only a" "registers_only b" for a b
    using sharing_race_free [OF inv that] .
  ultimately show ?thesis using n by (auto simp: stream_inv_def)
qed

theorem concurrent_registrations_on_open_stream_witness:
  "\<exists>c s. run_sample (set_actions @ open_actions) = Some c \<and>
    callers_run number_json pbr_basic_vt sharing_actions (idle_callers c) = Some s \<and>
    sc_pc s 0 = Reg_lock_write sample_request \<and> sc_pc s 1 = Reg_write sample_request \<and>
    cs_rw (sc_client s) = Some 0 \<and> cs_streams (sc_client s) = 1 \<and>
    \<not> callers_race number_json pbr_basic_vt (By_caller 1 (Main_write True)) (By_receiver (Rx_receive None)) s"
proof -
  obtain c where c: "run_sample (set_actions @ open_actions) = Some c" "cs_interface c = sample_object"
    "cs_joinable c" "cs_fault c = None" "cs_mtx c = None" "cs_main c = Main_idle" "cs_rw c = Some 0"
    "cs_streams c = 1"
    using run_opening by simp
  obtain s where s: "callers_run number_json pbr_basic_vt sharing_actions (idle_callers c) = Some s"
    "sc_pc s 0 = Reg_lock_write sample_request" "sc_pc s 1 = Reg_write sample_request"
    using run_sharing [OF c(2-5)] by blast
  have only: "list_all registers_only sharing_actions" "registers_only (By_caller 1 (Main_write True))"
    "registers_only (By_receiver (Rx_receive None))"
    by (simp_all add: sharing_actions_def registers_only_def)
  show ?thesis
    using concurrent_registrations_on_open_stream [OF number_json_pointer_keys
        run_sample_reachable [OF c(1), unfolded sample_object_def] c(6,3) only(1) s(1)]
      c(1,7,8) s only(2,3) by auto
qed

end
