(* ===== verification/Unlocked_Stores.thy ===== *)
theory Unlocked_Stores
  imports Mixed_Calls
begin

text \<open>
  Storing a record is not one step. \<^verbatim>\<open>add_stats\<close> appends to the vector of the counter object without a
  lock: it reads the vector and writes it back longer. Here the two threads of \<open>Mixed_Calls\<close> do this in
  two steps, so that another store can come in between; the treatments in one step of \<open>Mixed_Calls\<close> are
  what remains when stores do not overlap.
\<close>

section \<open>Stores in two steps\<close>

text \<open>\<open>us_read t\<close> is the counter object as the thread \<open>t\<close> has read it, while it stores a record.\<close>

record 'c stores_state =
  us_mixed :: "'c mixed_state"
  us_read :: "thread \<Rightarrow> 'c option"

definition stores_initial :: "'c gnmi_counters option \<Rightarrow> 'c stores_state" where
  "stores_initial i = \<lparr>us_mixed = mixed_initial i, us_read = (\<lambda>_. None)\<rparr>"

text \<open>The step of each thread that treats a response.\<close>

fun treatment :: "thread \<Rightarrow> mixed_action" where
  "treatment Main_thread = Blocking Once_treat"
| "treatment Receive_thread = Streaming Rx_handle"

fun untreated :: "thread \<Rightarrow> 'c mixed_state \<Rightarrow> subscribe_response option" where
  "untreated Main_thread s = (case mx_once s of Once_response r \<Rightarrow> Some r | _ \<Rightarrow> None)"
| "untreated Receive_thread s = (case cs_rx (mx_client s) of Rx_response r \<Rightarrow> Some r | _ \<Rightarrow> None)"

definition stores_next ::
  "'j json_api \<Rightarrow> ('c, 's) pbr_vtable \<Rightarrow> thread \<Rightarrow> 'c mixed_state \<Rightarrow> bool" where
  "stores_next japi vt t s =
     (case untreated t s of None \<Rightarrow> False | Some r \<Rightarrow> stores_record japi vt r (mx_client s))"

definition acting_thread :: "mixed_action \<Rightarrow> thread" where
  "acting_thread a = (if by_receive_thread a then Receive_thread else Main_thread)"

definition with_counters :: "'c \<Rightarrow> 'c mixed_state \<Rightarrow> 'c mixed_state" where
  "with_counters c s = s\<lparr>mx_client := (mx_client s)\<lparr>cs_interface := Some (PbrCounters c)\<rparr>\<rparr>"

datatype stores_action =
    Whole mixed_action
  | Begin_store thread
  | End_store thread

text \<open>
  A thread reads the vector (\<open>Begin_store\<close>) and then writes what it has read, with its record behind
  (\<open>End_store\<close>); in between it does nothing else. All other steps are those of \<open>Mixed_Calls\<close>.
\<close>

definition stores_act ::
  "'j json_api \<Rightarrow> ('c, 's) pbr_vtable \<Rightarrow> stores_action \<Rightarrow> 'c stores_state \<Rightarrow> 'c stores_state option" where
  "stores_act japi vt a st =
     (case a of
        Whole b \<Rightarrow>
          let t = acting_thread b in
          if us_read st t \<noteq> None \<or> b = treatment t \<and> stores_next japi vt t (us_mixed st) then None
          else map_option (\<lambda>s. st\<lparr>us_mixed := s\<rparr>) (mixed_act japi vt b (us_mixed st))
      | Begin_store t \<Rightarrow>
          if cs_fault (mx_client (us_mixed st)) \<noteq> None \<or> us_read st t \<noteq> None \<or>
             \<not> stores_next japi vt t (us_mixed st) then None
          else (case cs_interface (mx_client (us_mixed st)) of
                  Some (PbrCounters c) \<Rightarrow> Some (st\<lparr>us_read := (us_read st)(t := Some c)\<rparr>)
                | _ \<Rightarrow> None)
      | End_store t \<Rightarrow>
          (case us_read st t of
             None \<Rightarrow> None
           | Some c \<Rightarrow>
               map_option (\<lambda>s. st\<lparr>us_mixed := s, us_read := (us_read st)(t := None)\<rparr>)
                 (mixed_act japi vt (treatment t) (with_counters c (us_mixed st)))))"

fun stores_run ::
  "'j json_api \<Rightarrow> ('c, 's) pbr_vtable \<Rightarrow> stores_action list \<Rightarrow> 'c stores_state \<Rightarrow> 'c stores_state option" where
  "stores_run japi vt [] st = Some st"
| "stores_run japi vt (a # as) st =
     (case stores_act japi vt a st of None \<Rightarrow> None | Some st' \<Rightarrow> stores_run japi vt as st')"

lemma stores_run_append: "stores_run japi vt (as @ bs) st =
    (case stores_run japi vt as st of None \<Rightarrow> None | Some st' \<Rightarrow> stores_run japi vt bs st')"
  by (induction as arbitrary: st) (auto split: option.splits)

text \<open>Two stores overlap when both threads have read the vector and not written it yet.\<close>

definition overlapping :: "'c stores_state \<Rightarrow> bool" where
  "overlapping st \<longleftrightarrow> us_read st Main_thread \<noteq> None \<and> us_read st Receive_thread \<noteq> None"

fun separate_run ::
  "'j json_api \<Rightarrow> ('c, 's) pbr_vtable \<Rightarrow> stores_action list \<Rightarrow> 'c stores_state \<Rightarrow> bool" where
  "separate_run japi vt [] st = (\<not> overlapping st)"
| "separate_run japi vt (a # as) st =
     (\<not> overlapping st \<and>
      (case stores_act japi vt a st of None \<Rightarrow> True | Some st' \<Rightarrow> separate_run japi vt as st'))"

section \<open>Stores that do not overlap\<close>

text \<open>Only a store changes the counter object.\<close>

lemma check_not_stored:
  assumes "\<not> stores_record japi vt r s" "cs_interface s = Some (PbrCounters c)"
    and "check_response japi vt r c = (l, Inr (p, code))"
  shows "code \<noteq> SUCCESS"
  using assms by (simp add: stores_record_def)

lemma other_steps_keep_counters:
  assumes "mixed_act japi vt b s = Some s'"
    and "\<not> (b = treatment (acting_thread b) \<and> stores_next japi vt (acting_thread b) s)"
  shows "cs_interface (mx_client s') = cs_interface (mx_client s)"
  using assms(1)
proof (cases rule: mixed_act_cases)
  case (main d c)
  then show ?thesis by (simp add: act_main_interface)
next
  case (rx d c)
  from rx(4) show ?thesis
  proof (cases rule: act_rx_cases)
    case (response r)
    have "d = Rx_handle" using rx(4) response(1) by (cases d) (auto simp: act_rx_def split: if_splits)
    then have "\<not> stores_record japi vt r (mx_client s)"
      using assms(2) rx(1,2) response(1) by (simp add: acting_thread_def by_receive_thread_def stores_next_def)
    note fails = check_not_stored [OF this]
    show ?thesis
      using response(2) rx(5) fails by (auto simp: rx_response_def emit_def fail_with_def Let_def
          split: option.splits gnmi_counters.splits prod.splits sum.splits)
  qed (use rx(5) in \<open>auto simp: rx_ops Let_def split: option.splits\<close>)
next
  case (once d)
  show ?thesis
  proof (cases "d = Once_treat")
    case True
    then obtain r where r: "mx_once s = Once_response r" "s' = once_treated japi vt r s"
      using once(3) by (auto simp: once_act_def split: once_pc.splits)
    then have "\<not> stores_record japi vt r (mx_client s)"
      using assms(2) once(1) True by (simp add: acting_thread_def by_receive_thread_def stores_next_def)
    note fails = check_not_stored [OF this]
    show ?thesis
      using r(2) fails by (auto simp: once_treated_def Let_def
          split: option.splits gnmi_counters.splits prod.splits sum.splits)
  next
    case False
    then show ?thesis
      using once(3) by (cases d) (auto simp: once_act_def once_ops Let_def
          split: if_splits option.splits once_pc.splits gnmi_counters.splits prod.splits)
  qed
qed

text \<open>What a thread has read is still what the object holds, as long as no store came in between.\<close>

definition reads_current :: "'c stores_state \<Rightarrow> bool" where
  "reads_current st \<longleftrightarrow>
     (\<forall>t c. us_read st t = Some c \<longrightarrow> cs_interface (mx_client (us_mixed st)) = Some (PbrCounters c))"

lemma with_current: "cs_interface (mx_client s) = Some (PbrCounters c) \<Longrightarrow> with_counters c s = s"
  by (simp add: with_counters_def)

lemma separate_step:
  assumes "mixed_reachable japi vt i (us_mixed st)" "reads_current st" "\<not> overlapping st"
    and "stores_act japi vt a st = Some st'"
  shows "mixed_reachable japi vt i (us_mixed st') \<and> reads_current st'"
proof (cases a)
  case (Whole b)
  then obtain s' where s': "mixed_act japi vt b (us_mixed st) = Some s'" "st' = st\<lparr>us_mixed := s'\<rparr>"
    and other: "\<not> (b = treatment (acting_thread b) \<and> stores_next japi vt (acting_thread b) (us_mixed st))"
    using assms(4) by (auto simp: stores_act_def Let_def split: if_splits)
  from other_steps_keep_counters [OF s'(1) other] mixed_steps [OF assms(1) s'(1)] show ?thesis
    using assms(2) s'(2) by (simp add: reads_current_def)
next
  case (Begin_store t)
  then show ?thesis
    using assms by (auto simp: stores_act_def reads_current_def
        split: if_splits option.splits gnmi_counters.splits)
next
  case (End_store t)
  then obtain c s' where c: "us_read st t = Some c"
    and s': "mixed_act japi vt (treatment t) (with_counters c (us_mixed st)) = Some s'"
      "st' = st\<lparr>us_mixed := s', us_read := (us_read st)(t := None)\<rparr>"
    using assms(4) by (auto simp: stores_act_def split: option.splits)
  have "with_counters c (us_mixed st) = us_mixed st"
    using assms(2) c by (simp add: reads_current_def with_current)
  then have "mixed_reachable japi vt i s'" using mixed_steps [OF assms(1)] s'(1) by metis
  moreover have "us_read st u = None" if "u \<noteq> t" for u
    using assms(3) c that by (cases t; cases u) (auto simp: overlapping_def)
  then have "reads_current st'" by (auto simp: s'(2) reads_current_def)
  ultimately show ?thesis by (simp add: s'(2))
qed

lemma separate_run_reachable:
  assumes "mixed_reachable japi vt i (us_mixed st)" "reads_current st"
    and "stores_run japi vt as st = Some st'" "separate_run japi vt as st"
  shows "mixed_reachable japi vt i (us_mixed st')"
  using assms
proof (induction as arbitrary: st)
  case (Cons a as)
  then obtain st1 where st1: "stores_act japi vt a st = Some st1" "stores_run japi vt as st1 = Some st'"
    by (auto split: option.splits)
  have "mixed_reachable japi vt i (us_mixed st1) \<and> reads_current st1"
    using separate_step [OF Cons.prems(1,2) _ st1(1)] Cons.prems(4) by simp
  then show ?case using Cons.IH [OF _ _ st1(2)] Cons.prems(4) st1(1) by simp
qed simp

section \<open>Stores that overlap\<close>

text \<open>What a store gives, from the object that was read.\<close>

lemma end_store_once:
  assumes "json_pointer_keys japi" "mx_once s = Once_response r" "cs_fault (mx_client s) = None"
    and "response_record map_to_basic_stat japi r = Some x"
  shows "\<exists>s' c'. mixed_act japi pbr_basic_vt (Blocking Once_treat) (with_counters c s) = Some s' \<and>
    cs_interface (mx_client s') = Some (PbrCounters c') \<and> pbr_stats c' = pbr_stats c @ [x] \<and>
    cs_rx (mx_client s') = cs_rx (mx_client s) \<and> cs_fault (mx_client s') = None"
proof -
  obtain l res where check: "check_response japi pbr_basic_vt r c = (l, res)" by fastforce
  obtain p where "res = Inr (p, SUCCESS)" "pbr_stats (snd (vt_add_stats pbr_basic_vt p c)) = pbr_stats c @ [x]"
    using basic_counters.check_response_record [OF assms(1) check] assms(4) by auto
  then show ?thesis
    using assms(2,3) check
    by (auto simp: mixed_act_def with_counters_def once_act_def once_treated_def Let_def split: prod.splits)
qed

lemma end_store_rx:
  assumes "json_pointer_keys japi" "cs_rx (mx_client s) = Rx_response r" "cs_fault (mx_client s) = None"
    and "response_record map_to_basic_stat japi r = Some x"
  shows "\<exists>s' c'. mixed_act japi pbr_basic_vt (Streaming Rx_handle) (with_counters c s) = Some s' \<and>
    cs_interface (mx_client s') = Some (PbrCounters c') \<and> pbr_stats c' = pbr_stats c @ [x]"
proof -
  obtain l res where check: "check_response japi pbr_basic_vt r c = (l, res)" by fastforce
  obtain p where "res = Inr (p, SUCCESS)" "pbr_stats (snd (vt_add_stats pbr_basic_vt p c)) = pbr_stats c @ [x]"
    using basic_counters.check_response_record [OF assms(1) check] assms(4) by auto
  then show ?thesis
    using assms(2,3) check
    by (auto simp: mixed_act_def with_counters_def client_act_def is_main_def act_rx_def rx_response_def
        emit_def fail_with_def Let_def split: prod.splits)
qed

text \<open>
  The race that \<open>client_races_only\<close> leaves is harmful. Whenever a blocking call and the receive thread
  have each read a response with a record, both can read the vector before either writes it; then the
  object gains one record only, that of the receive thread here, and the other is lost.
\<close>

lemma overlapping_stores_lose_record:
  assumes "json_pointer_keys japi" "cs_fault (mx_client s) = None"
    and "cs_interface (mx_client s) = Some (PbrCounters c)"
    and "mx_once s = Once_response r" "response_record map_to_basic_stat japi r = Some x"
    and "cs_rx (mx_client s) = Rx_response r'" "response_record map_to_basic_stat japi r' = Some x'"
  shows "\<exists>st c'. stores_run japi pbr_basic_vt
      [Begin_store Main_thread, Begin_store Receive_thread, End_store Main_thread, End_store Receive_thread]
      \<lparr>us_mixed = s, us_read = \<lambda>_. None\<rparr> = Some st \<and>
    cs_interface (mx_client (us_mixed st)) = Some (PbrCounters c') \<and> pbr_stats c' = pbr_stats c @ [x']"
proof -
  have next_store: "stores_next japi pbr_basic_vt Main_thread s" "stores_next japi pbr_basic_vt Receive_thread s"
    using assms(4-7) stores_record_iff [OF assms(1,3)] by (simp_all add: stores_next_def)
  obtain s1 where s1: "mixed_act japi pbr_basic_vt (Blocking Once_treat) (with_counters c s) = Some s1"
    "cs_rx (mx_client s1) = Rx_response r'" "cs_fault (mx_client s1) = None"
    using end_store_once [OF assms(1,4,2,5), of c] assms(6) by auto
  from end_store_rx [OF assms(1) s1(2,3) assms(7), of c] s1(1) next_store assms(2,3) show ?thesis
    by (auto simp: stores_act_def)
qed

section \<open>Sample runs\<close>

lemma whole_steps:
  assumes "mixed_run japi vt as s = Some s'" "list_all (\<lambda>b. b \<noteq> Blocking Once_treat \<and> b \<noteq> Streaming Rx_handle) as"
  shows "stores_run japi vt (map Whole as) \<lparr>us_mixed = s, us_read = \<lambda>_. None\<rparr> =
      Some \<lparr>us_mixed = s', us_read = \<lambda>_. None\<rparr> \<and>
    separate_run japi vt (map Whole as) \<lparr>us_mixed = s, us_read = \<lambda>_. None\<rparr>"
  using assms
proof (induction as arbitrary: s)
  case (Cons a as)
  then obtain s1 where s1: "mixed_act japi vt a s = Some s1" "mixed_run japi vt as s1 = Some s'"
    by (auto split: option.splits)
  have "a \<noteq> treatment (acting_thread a)" using Cons.prems(2) by (cases "acting_thread a") auto
  then have "stores_act japi vt (Whole a) \<lparr>us_mixed = s, us_read = \<lambda>_. None\<rparr> =
      Some \<lparr>us_mixed = s1, us_read = \<lambda>_. None\<rparr>"
    using s1(1) by (simp add: stores_act_def Let_def)
  then show ?case using Cons.IH [OF s1(2)] Cons.prems(2) by (simp add: overlapping_def)
qed (simp add: overlapping_def)

lemma separate_run_append:
  "stores_run japi vt as st = Some st' \<Longrightarrow>
   separate_run japi vt (as @ bs) st \<longleftrightarrow> separate_run japi vt as st \<and> separate_run japi vt bs st'"
  by (induction as arbitrary: st) (auto split: option.splits elim: separate_run.elims)

definition separate_actions :: "stores_action list" where
  "separate_actions = map Whole mixed_actions @
     [Begin_store Main_thread, End_store Main_thread, Begin_store Receive_thread, End_store Receive_thread]"

lemma sample_stores_next:
  "untreated t s = Some sample_response \<Longrightarrow> cs_interface (mx_client s) = Some (PbrCounters c) \<Longrightarrow>
   stores_next number_json pbr_basic_vt t s"
  using stores_record_iff [OF number_json_pointer_keys, of "mx_client s" c sample_response]
  by (simp add: stores_next_def sample_record)

lemma run_separate:
  "\<exists>st. stores_run number_json pbr_basic_vt separate_actions (stores_initial sample_object) = Some st \<and>
     separate_run number_json pbr_basic_vt separate_actions (stores_initial sample_object) \<and>
     cs_rx (mx_client (us_mixed st)) = Rx_read \<and> mx_once (us_mixed st) = Once_read \<and>
     once_responses (mx_events (us_mixed st)) = [sample_response] \<and>
     read_responses (cs_events (mx_client (us_mixed st))) = [sample_response]"
proof -
  obtain s where s: "mixed_run number_json pbr_basic_vt mixed_actions (mixed_initial sample_object) = Some s"
    "cs_fault (mx_client s) = None" "cs_interface (mx_client s) = sample_object"
    "mx_once s = Once_response sample_response" "cs_rx (mx_client s) = Rx_response sample_response"
    "cs_success_set (mx_client s)" "once_responses (mx_events s) = [sample_response]"
    "read_responses (cs_events (mx_client s)) = [sample_response]"
    using run_mixed by blast
  have "list_all (\<lambda>b. b \<noteq> Blocking Once_treat \<and> b \<noteq> Streaming Rx_handle) mixed_actions"
    by (simp add: mixed_actions_def set_actions_def open_actions_def)
  note start = whole_steps [OF s(1) this, folded stores_initial_def]
  have next_store: "stores_next number_json pbr_basic_vt t s'"
    if "untreated t s' = Some sample_response" "cs_interface (mx_client s') = Some (PbrCounters c)" for t s' c
    using sample_stores_next that .
  let ?stores = "[Begin_store Main_thread, End_store Main_thread, Begin_store Receive_thread,
      End_store Receive_thread]"
  have "\<exists>st. stores_run number_json pbr_basic_vt ?stores \<lparr>us_mixed = s, us_read = \<lambda>_. None\<rparr> = Some st \<and>
     separate_run number_json pbr_basic_vt ?stores \<lparr>us_mixed = s, us_read = \<lambda>_. None\<rparr> \<and>
     cs_rx (mx_client (us_mixed st)) = Rx_read \<and> mx_once (us_mixed st) = Once_read \<and>
     once_responses (mx_events (us_mixed st)) = [sample_response] \<and>
     read_responses (cs_events (mx_client (us_mixed st))) = [sample_response]"
    using s(2-8) by (simp add: stores_act_def next_store with_counters_def mixed_act_def once_act_def
        once_treated_def sample_object_def sample_check add_stats_def client_act_def is_main_def act_rx_def
        rx_response_def emit_def overlapping_def Let_def)
  then show ?thesis
    unfolding separate_actions_def stores_run_append
    using start separate_run_append [of number_json pbr_basic_vt "map Whole mixed_actions"]
    by (simp add: stores_initial_def)
qed

lemma overlapping_stores_lose_record_example:
  "\<exists>s st c. mixed_run number_json pbr_basic_vt mixed_actions (mixed_initial sample_object) = Some s \<and>
    stores_run number_json pbr_basic_vt
      [Begin_store Main_thread, Begin_store Receive_thread, End_store Main_thread, End_store Receive_thread]
      \<lparr>us_mixed = s, us_read = \<lambda>_. None\<rparr> = Some st \<and>
    cs_interface (mx_client (us_mixed st)) = Some (PbrCounters c) \<and> length (pbr_stats c) = 1"
proof -
  obtain s where s: "mixed_run number_json pbr_basic_vt mixed_actions (mixed_initial sample_object) = Some s"
    "cs_fault (mx_client s) = None" "cs_interface (mx_client s) = Some (PbrCounters sample_counters)"
    "mx_once s = Once_response sample_response" "cs_rx (mx_client s) = Rx_response sample_response"
    using run_mixed by (auto simp: sample_object_def)
  from overlapping_stores_lose_record [OF number_json_pointer_keys s(2-4) sample_record s(5) sample_record] s(1)
  show ?thesis by (auto simp: sample_counters_def)
qed

section \<open>Properties\<close>

text \<open>
  C7: a blocking call beside a stream keeps every record, if no two stores overlap. In every interleaving
  of the two threads in which a store is never begun while the other thread is inside one, the counter
  object holds its initial records followed by a merge of the records of the stream and those of the
  blocking calls: none is lost or stored twice, and each side keeps the order in which it read them.
  The code has no lock that gives this; \<open>overlapping_stores_lose_record\<close> shows what happens without.
\<close>

theorem separate_stores_merge:
  assumes "json_pointer_keys japi"
    and "stores_run japi pbr_basic_vt as (stores_initial (Some (PbrCounters c0))) = Some st"
    and "separate_run japi pbr_basic_vt as (stores_initial (Some (PbrCounters c0)))"
  shows "\<exists>c zs rs os. cs_interface (mx_client (us_mixed st)) = Some (PbrCounters c) \<and>
    pbr_stats c = pbr_stats c0 @ zs \<and>
    zs \<in> shuffles (recorded map_to_basic_stat japi rs) (recorded map_to_basic_stat japi os) \<and>
    read_responses (cs_events (mx_client (us_mixed st))) = rs @ pending (cs_rx (mx_client (us_mixed st))) \<and>
    once_responses (mx_events (us_mixed st)) = os @ once_pending (mx_once (us_mixed st))"
proof -
  have "mixed_reachable japi pbr_basic_vt (Some (PbrCounters c0)) (us_mixed st)"
    by (rule separate_run_reachable [OF _ _ assms(2,3)])
      (simp_all add: stores_initial_def mixed_starts reads_current_def)
  from basic_counters.reachable_mixed_records [OF assms(1) this] show ?thesis
    unfolding basic_counters.mixed_records_def .
qed

text \<open>Both threads store their record, one after the other: the object gains two.\<close>

theorem separate_stores_merge_witness:
  "\<exists>st c. stores_run number_json pbr_basic_vt separate_actions (stores_initial sample_object) = Some st \<and>
    cs_interface (mx_client (us_mixed st)) = Some (PbrCounters c) \<and> length (pbr_stats c) = 2"
proof -
  obtain st where st: "stores_run number_json pbr_basic_vt separate_actions (stores_initial sample_object) = Some st"
    "separate_run number_json pbr_basic_vt separate_actions (stores_initial sample_object)"
    and ends: "cs_rx (mx_client (us_mixed st)) = Rx_read" "mx_once (us_mixed st) = Once_read"
      "once_responses (mx_events (us_mixed st)) = [sample_response]"
      "read_responses (cs_events (mx_client (us_mixed st))) = [sample_response]"
    using run_separate by blast
  from separate_stores_merge [OF number_json_pointer_keys st [unfolded sample_object_def]] ends obtain c zs where
    c: "cs_interface (mx_client (us_mixed st)) = Some (PbrCounters c)" "pbr_stats c = pbr_stats sample_counters @ zs"
    and zs: "zs \<in> shuffles (recorded map_to_basic_stat number_json [sample_response])
      (recorded map_to_basic_stat number_json [sample_response])"
    by auto
  have "length zs = 2" using length_shuffles [OF zs] sample_record by simp
  with st(1) c show ?thesis by (auto simp: sample_counters_def)
qed

end
