(* ===== verification/Spec2Isabelle.thy ===== *)
theory Spec2Isabelle
  imports Connection Once_Tutorial Stream_Tutorial_Loop Stream_Tutorial_Threads Testing_Tool_Threads
    Handler_Once Once_Steps Several_Callers Unlocked_Stores
begin

text \<open>
  A verification development of \<^verbatim>\<open>gnmi-client-examples\<close>: the C++ library \<^verbatim>\<open>mgbl_api\<close>, a gNMI
  client that subscribes to the policy based routing (PBR) counters of a router over gRPC.

  \<^bold>\<open>The program.\<close> A user makes a channel with \<^verbatim>\<open>gnmi_client_connection\<close>, may wait for the server, and
  gives the channel and a counter object (\<^verbatim>\<open>PBRBasic\<close>, a list of policy and rule keys and a list of
  records) to a \<^verbatim>\<open>GnmiClient\<close>. A subscription request is built from the paths of the keys; each
  response is checked, decoded from JSON or from typed values into a map from paths to texts, and
  converted into a record that is added to the object. \<^verbatim>\<open>rpc_register_stats_once\<close> does this in a
  blocking loop; \<^verbatim>\<open>rpc_register_stats_stream\<close> starts a receive thread that does it until
  \<^verbatim>\<open>rpc_stream_close\<close> joins it, and calls the handlers of the user. All parts log through the
  singleton \<^verbatim>\<open>logger_manager\<close>. Two example programs and a command line tool use the library.

  \<^bold>\<open>The theories\<close>, in the order of their imports (sources under \<^verbatim>\<open>mgbl_api/\<close>).
  \<^item> \<open>Gnmi_Prelude\<close>: faults and fallible computations, the operations of \<^verbatim>\<open>std::string\<close>, the hint
    collections.
  \<^item> \<open>Cpp_Numbers\<close>: \<^verbatim>\<open>std::to_string\<close> and \<^verbatim>\<open>std::stoull\<close>, and that reading back what was printed
    gives the number again.
  \<^item> \<open>Gnmi_Messages\<close>: the messages of \<^verbatim>\<open>gnmi.proto\<close>, the argument structures and error codes of
    \<^verbatim>\<open>include/rpc/mgbl_rpc.h\<close> and \<^verbatim>\<open>src/gnmi/mgbl_gnmi_helper.h\<close>.
  \<^item> \<open>Logger\<close> (\<^verbatim>\<open>src/logger/\<close>): severities, and the manager as a step relation over any number of
    threads. Its mutex is exclusive, an uninterrupted \<^verbatim>\<open>log\<close> delivers once; a store in \<^verbatim>\<open>set_logger\<close> races
    with the unlocked reads of \<^verbatim>\<open>log\<close> and with nothing else, and only such a race can dereference null.
  \<^item> \<open>Gnmi_Path\<close> (\<^verbatim>\<open>src/gnmi/mgbl_gnmi_helper.cpp\<close>): printing and parsing of paths. The index loop of
    the parser is shown to compute a specification on the segments between slashes; both round
    trips, the shape of the results and the exceptions rest on it.
  \<^item> \<open>Pbr\<close> (\<^verbatim>\<open>include/mgbl_api.h\<close>, \<^verbatim>\<open>include/pbr/\<close>, \<^verbatim>\<open>src/pbr/\<close>): records, keys, the counter object. The
    virtual functions of \<^verbatim>\<open>PBRBase\<close> are a table, what a client relies on is the locale
    \<open>pbr_base\<close>, and \<^verbatim>\<open>PBRBasic\<close> interprets it (\<open>basic_counters\<close>). A record is returned exactly when it
    describes the map.
  \<^item> \<open>Gnmi_Decode\<close> (\<^verbatim>\<open>GnmiClientDetails\<close> in \<^verbatim>\<open>src/mgbl_api.cpp\<close>): the request, the two decoders, and
    the checks of a response. The loop over the updates is characterised in closed form
    (\<open>response_code\<close>, \<open>response_map\<close>).
  \<^item> \<open>Connection\<close> (\<^verbatim>\<open>gnmi_client_connection\<close>): credentials and the retry loop.
  \<^item> \<open>Gnmi_Client\<close> (\<^verbatim>\<open>GnmiClient\<close>): the blocking call over an abstract stream. The loop over \<^verbatim>\<open>Read\<close> is
    \<open>once_reads\<close>; for any finite sequence of responses it is the fold \<open>take_responses\<close>.
  \<^item> \<open>Client_Stream\<close>: \<^verbatim>\<open>rpc_register_stats_stream\<close>, its receive thread and \<^verbatim>\<open>rpc_stream_close\<close> as two
    interleaved threads over the members of \<^verbatim>\<open>GnmiClientDetails\<close>, with a history of every call,
    message, handler call and return. One invariant ties the mutex and the pointers to the program
    points; from it follow mutual exclusion, the protocol of each stream, the records, the reports of
    failures, and that closing ends.
  \<^item> \<open>Stream_Requests\<close>: the requests of a stream over a whole run: one per registration, in order, from
    its own arguments and the keys of the object, and each call returns what its write answered.
  \<^item> \<open>Mixed_Calls\<close>: \<^verbatim>\<open>rpc_register_stats_once\<close> in small steps, in the calling thread, while the receive
    thread of a stream runs on the same client. The members each step reads and writes give the pairs of
    steps that race, and there are no others.
  \<^item> \<open>Unlocked_Stores\<close>: the storing of a record, one of these races, as a read and a write of the vector.
    Stores that do not overlap give a merge of the records of the two; stores that do lose one.
  \<^item> \<open>Once_Steps\<close>: these small steps refine the function of \<open>Gnmi_Client\<close>: the same calls of gRPC, with
    the same answers, messages, records and result, for any gRPC library.
  \<^item> \<open>Several_Callers\<close>: the streaming operations called by any number of threads. On an open stream they
    may register at once, and threads that take turns are a single caller; but two first registrations
    at once end the process, because the test for a receive thread is outside the mutex.
  \<^item> \<open>Handler_Calls\<close>: the same operations called by a handler, that is by the receive thread. A failed
    handler runs under the mutex and must not call the client; a success handler may register, but
    a closing from it, however the threads interleave, leads to a join of the thread with itself.
  \<^item> \<open>Handler_Once\<close>: handlers that make a blocking call. The call waits only for its server, and its
    records are merged with those of the stream; but it holds up a closing, and in the failed handler
    it keeps the mutex.
  \<^item> \<open>Client_Program\<close>: programs that drive a client, composed with \<open>Client_Stream\<close>: handlers over the
    variables they captured, and the statements of the main thread. The locale \<open>scoped_program\<close> is the
    contract of a program whose points say whether its stream may be open; it gives where a handler
    can meet destroyed variables.
  \<^item> \<open>Program_Races\<close>: what a program uses of its captured variables where, and under which mutex. The
    locale \<open>guarded_program\<close> ties such a table to the code; its only data race, the members of the
    client included, is the end of the scope of the variables.
  \<^item> \<open>Program_Progress\<close>: a program and its client can go no further only at the end of the program, or
    when it waits for a condition and no receive thread is running. The locale \<open>closing_program\<close> is the
    contract of a program that ends with a closing.
  \<^item> \<open>Tutorial_Console\<close>, \<open>Once_Tutorial\<close> (\<^verbatim>\<open>examples/mgbl_api_pbr_once_tutorial.cpp\<close>): the output of the
    examples, and the first of them, composed of the modelled calls: a retry never prints its records.
  \<^item> \<open>Stream_Tutorial\<close>, \<open>Stream_Tutorial_Run\<close> (\<^verbatim>\<open>examples/mgbl_api_pbr_stream_tutorial.cpp\<close>): its handlers
    and branches, first alone over what they observe, then as an instance of \<open>scoped_program\<close>: at most
    five streams, destroyed variables only behind the limit of responses, a deadlock after a stream
    that ends quietly.
  \<^item> \<open>Stream_Tutorial_Loop\<close>: the composition refines the loop of the tutorial stated alone, and both
    keep to a specification that names the statuses to retry; so the requests its server gets are known.
  \<^item> \<open>Stream_Tutorial_Threads\<close>: the tutorial as a \<open>guarded_program\<close> and a \<open>closing_program\<close>: its one data
    race, and the exact condition for its deadlock, from a count of the entries of its queue.
  \<^item> \<open>Testing_Tool\<close>, \<open>Testing_Tool_Run\<close> (\<^verbatim>\<open>test/testing_tool/\<close> of the repository): the options of the
    command line, the blocking case, and the streaming case as the second instance: TLS is never used,
    the deadline of the option is never used, destroyed variables only after a failed registration.
  \<^item> \<open>Testing_Tool_Threads\<close>: the tool as the second instance of both contracts: variables used without
    the mutex are safe because the stream is closed before.
  \<^item> This theory: the blocking and the streaming subscription compared.

  \<^bold>\<open>Effects.\<close> A function returns the messages it logs before its result; an exception or undefined
  behaviour is a value of \<open>fault\<close>; a null \<^verbatim>\<open>shared_ptr\<close> is \<open>None\<close>; counters and sizes keep their width
  (\<open>64 word\<close>, \<open>usize_sub\<close>). \<^verbatim>\<open>error_code::SUCCESS\<close> is \<open>RPC_SUCCESS\<close>, as the internal error code has
  a \<^verbatim>\<open>SUCCESS\<close> of its own.

  \<^bold>\<open>Parameters.\<close> gRPC is \<open>stream_api\<close> and \<open>channel_api\<close> in the sequential parts; in \<open>Client_Stream\<close> and what is built on it each
  answer of gRPC is an argument of an action, so every answer is possible at every call. The JSON
  library is \<open>json_api\<close>; the only assumption on it is \<open>json_pointer_keys\<close>, that flattened keys are JSON
  pointers. The file system is a map from names to contents. Witnesses use a server with a script
  (\<open>scripted_api\<close>) and a JSON library for numbers (\<open>number_json\<close>).

  \<^bold>\<open>Termination and bounds.\<close> The parser and the retry loop terminate by a measure; the read loop of the
  blocking call need not end, its value is then \<open>None\<close>, and \<open>once_collects_records\<close> shows that it
  returns whenever the server ends the stream. No fuel is used. Path lemmas assume strings shorter
  than \<open>2 ^ 63\<close> bytes, the bound of \<^verbatim>\<open>std::string\<close>.

  \<^bold>\<open>Not modelled.\<close> A handler that replaces a handler, which has no defined behaviour; a blocking call
  of the calling thread and one of a handler at the same time, or blocking calls of several threads;
  a handler that calls the client before the new thread is assigned to \<^verbatim>\<open>receive_thread\<close>; what follows
  a data race, beyond single outcomes that are shown (a null logger, a lost record); accesses to the
  counter object by other code of the user than the example programs (the races of \<open>Mixed_Calls\<close> are
  those of the client's own members and of the object it stores records in); the order in which protobuf iterates over the keys
  of an element (it is the order of the list); the lifetime of gRPC objects; tests, build files and
  documentation.
\<close>

section \<open>The two subscriptions compared\<close>

text \<open>
  C5: the blocking and the streaming subscription agree. Take a streaming client in any state in which
  its process runs and no response is half treated, and let a blocking call for the same object get
  the responses that the stream has read so far, in the same order, before its server ends the
  stream. Then the call returns and both objects hold the same records; nothing is lost to, or
  invented by, the receive thread.
\<close>

theorem blocking_and_streaming_agree:
  assumes "json_pointer_keys japi"
    and "client_reachable japi pbr_basic_vt (Some (PbrCounters c0)) s" "cs_fault s = None"
    and "pending (cs_rx s) = []"
    and "credentials_given ctx" "decodable (args_encoding args)" "list_all servable (pbr_keys c0)"
    and "after_reads sapi (read_responses (cs_events s)) (after_write sapi ctx
           (Some (sample_list (once_args args) (map pbr_request_path (pbr_keys c0))))) = Some g"
    and "rw_read sapi g = (None, g')"
  shows "\<exists>r c c'. rpc_register_stats_once sapi japi pbr_basic_vt ctx args (Some (PbrCounters c0)) = Some r \<and>
    or_counters r = Some (PbrCounters c) \<and> cs_interface s = Some (PbrCounters c') \<and>
    pbr_stats c = pbr_stats c'"
proof -
  from assms(3) basic_counters.reachable_records [OF assms(1,2)] obtain c' rs sts where
    c': "cs_interface s = Some (PbrCounters c')" "pbr_stats c' = pbr_stats c0 @ sts"
    and rs: "read_responses (cs_events s) = rs @ pending (cs_rx s)"
      "traverse map_to_basic_stat (successful_maps japi rs) = Inr sts"
    unfolding basic_counters.records_inv_def by blast
  then have "read_responses (cs_events s) = rs" using assms(4) by simp
  with rs(2) once_gains [OF assms(1,5-9)] obtain r c where
    "rpc_register_stats_once sapi japi pbr_basic_vt ctx args (Some (PbrCounters c0)) = Some r"
    "or_counters r = Some (PbrCounters c)" "pbr_stats c = pbr_stats c0 @ sts"
    by blast
  with c' show ?thesis by auto
qed

theorem blocking_and_streaming_agree_witness:
  "\<exists>r c s. rpc_register_stats_once (scripted_api [sample_response] ok_status) number_json pbr_basic_vt
      sample_context default_rpc_args (Some (PbrCounters sample_counters)) = Some r \<and>
    or_counters r = Some (PbrCounters c) \<and>
    run_sample (set_actions @ open_actions @ [Rx_receive (Some sample_response), Rx_handle]) = Some s \<and>
    pbr_stats c = pbr_stats sampled_counters"
proof -
  let ?api = "scripted_api [sample_response] ok_status"
  obtain s where s: "run_sample (set_actions @ open_actions @ [Rx_receive (Some sample_response), Rx_handle]) = Some s"
    "cs_interface s = Some (PbrCounters sampled_counters)" "cs_fault s = None" "cs_rx s = Rx_read"
    "read_responses (cs_events s) = [sample_response]"
    using run_sample_append [OF run_opening, of "[Rx_receive (Some sample_response), Rx_handle]"]
    by (simp add: run_simps sample_handled)
  have ok: "credentials_given sample_context" "decodable (args_encoding default_rpc_args)"
    "list_all servable (pbr_keys sample_counters)"
    by (simp_all add: sample_context_def credentials_given_def decodable_def default_rpc_args_def
        sample_counters_def servable_key_p1_r3)
  have "pending (cs_rx s) = []" using s(4) by simp
  note agree = blocking_and_streaming_agree [OF number_json_pointer_keys
      run_sample_reachable [OF s(1), unfolded sample_object_def] s(3) this ok, unfolded s(5),
      OF sample_calls scripted_api_simps(3)]
  then obtain r c c' where "rpc_register_stats_once ?api number_json pbr_basic_vt sample_context
      default_rpc_args (Some (PbrCounters sample_counters)) = Some r"
    "or_counters r = Some (PbrCounters c)" "cs_interface s = Some (PbrCounters c')" "pbr_stats c = pbr_stats c'"
    by blast
  with s(1,2) show ?thesis by auto
qed

end
